(* ===== verification/Ractor_Prelude.thy ===== *)
theory Ractor_Prelude
  imports Main "HOL-Library.AList" "HOL-Library.Sublist" "HOL-Library.Multiset" "HOL-Library.Word"
    "HOL-Library.Char_ord" "HOL-Library.List_Lexorder"
begin

text \<open>
  What every component shares: the machine types of the source, the operations of the
  standard library the code uses (saturating arithmetic, big-endian bytes, hash maps,
  double-ended queues) and the lemmas about them.

  \<^item> \<open>usize\<close> counters that the code only compares and saturates are \<open>nat\<close> bounded by
    \<open>usize_max\<close>; integers whose bit pattern matters are words (a 64-bit target).
  \<^item> \<open>Duration\<close>, \<open>Instant\<close> and \<open>SystemTime\<close> are nanosecond counts (\<open>nat\<close>).
  \<^item> A \<open>HashMap\<close> or \<open>DashMap\<close> is an association list with distinct keys. Its list order is
    the iteration order. The hash map promises no order, and every statement of the
    development quantifies over the whole list, so it holds for every order.
  \<^item> A \<open>VecDeque\<close> is a list whose head is the front.
\<close>

section \<open>Machine types\<close>

type_synonym u8 = "8 word"
type_synonym u64 = "64 word"
type_synonym duration = nat
type_synonym instant = nat
type_synonym systime = nat

named_theorems job_simps \<open>unfolding of the operations on jobs\<close>
named_theorems eff_simps \<open>what an effect list says about the jobs that left\<close>

definition usize_max :: nat where
  "usize_max = 2 ^ 64 - 1"

definition sat_add :: "nat \<Rightarrow> nat \<Rightarrow> nat" where
  "sat_add a b = min (a + b) usize_max"

definition sat_mul :: "nat \<Rightarrow> nat \<Rightarrow> nat" where
  "sat_mul a b = min (a * b) usize_max"

lemma sat_add_le [simp]: "sat_add a b \<le> usize_max"
  by (simp add: sat_add_def)

lemma sat_mul_le [simp]: "sat_mul a b \<le> usize_max"
  by (simp add: sat_mul_def)

lemma sat_add_exact: "a + b \<le> usize_max \<Longrightarrow> sat_add a b = a + b"
  by (simp add: sat_add_def)

lemma sat_mul_exact: "a * b \<le> usize_max \<Longrightarrow> sat_mul a b = a * b"
  by (simp add: sat_mul_def)

section \<open>Big-endian bytes\<close>

text \<open>\<open>to_be_bytes\<close> and \<open>from_be_bytes\<close> of an \<open>n\<close>-byte unsigned integer.\<close>

fun be_encode :: "nat \<Rightarrow> nat \<Rightarrow> u8 list" where
  "be_encode 0 x = []"
| "be_encode (Suc n) x = be_encode n (x div 256) @ [of_nat x]"

definition be_decode :: "u8 list \<Rightarrow> nat" where
  "be_decode bs = foldl (\<lambda>a b. a * 256 + unat b) 0 bs"

lemma length_be_encode [simp]: "length (be_encode n x) = n"
  by (induction n arbitrary: x) auto

lemma be_decode_append1: "be_decode (bs @ [b]) = be_decode bs * 256 + unat b"
  by (simp add: be_decode_def)

lemma unat_u8_of_nat: "unat (of_nat x :: u8) = x mod 256"
  by (simp add: unat_of_nat)

lemma unat_u8_less: "unat (b :: u8) < 256"
  using unsigned_less [of b, where ?'a = nat] by simp

lemma be_decode_encode_mod: "be_decode (be_encode n x) = x mod 256 ^ n"
proof (induction n arbitrary: x)
  case 0
  then show ?case by (simp add: be_decode_def)
next
  case (Suc n)
  have "be_decode (be_encode (Suc n) x) = (x div 256) mod 256 ^ n * 256 + x mod 256"
    by (simp add: be_decode_append1 Suc.IH unat_u8_of_nat)
  also have "\<dots> = x mod (256 * 256 ^ n)"
    by (simp add: mod_mult2_eq mult.commute)
  finally show ?case by simp
qed

lemma be_decode_encode: "x < 256 ^ n \<Longrightarrow> be_decode (be_encode n x) = x"
  by (simp add: be_decode_encode_mod)

lemma be_decode_less: "be_decode bs < 256 ^ length bs"
proof (induction bs rule: rev_induct)
  case Nil
  then show ?case by (simp add: be_decode_def)
next
  case (snoc b bs)
  have "unat b < 256"
    by (rule unat_u8_less)
  moreover from snoc.IH have "be_decode bs + 1 \<le> 256 ^ length bs"
    by simp
  then have "be_decode bs * 256 + 256 \<le> 256 ^ length bs * 256"
    by (metis add.commute mult.commute mult_Suc_right mult_le_mono2 plus_1_eq_Suc)
  ultimately show ?case
    by (simp add: be_decode_append1 mult.commute)
qed

lemma u8_of_nat_add_mult: "(of_nat (a * 256 + unat b) :: u8) = b"
  by (rule word_unat_eq_iff [THEN iffD2])
    (simp only: unat_u8_of_nat mod_mult_self3 mod_less [OF unat_u8_less])

lemma be_encode_decode: "be_encode (length bs) (be_decode bs) = bs"
proof (induction bs rule: rev_induct)
  case Nil
  then show ?case by simp
next
  case (snoc b bs)
  have "unat b < 256"
    by (rule unat_u8_less)
  then have "(be_decode bs * 256 + unat b) div 256 = be_decode bs"
    by simp
  then show ?case
    by (simp only: length_append_singleton be_encode.simps be_decode_append1 snoc.IH
        u8_of_nat_add_mult)
qed

section \<open>Hash maps as association lists\<close>

abbreviation hm_get :: "('k \<times> 'v) list \<Rightarrow> 'k \<Rightarrow> 'v option" where
  "hm_get \<equiv> map_of"

abbreviation hm_insert :: "'k \<Rightarrow> 'v \<Rightarrow> ('k \<times> 'v) list \<Rightarrow> ('k \<times> 'v) list" where
  "hm_insert \<equiv> AList.update"

abbreviation hm_remove :: "'k \<Rightarrow> ('k \<times> 'v) list \<Rightarrow> ('k \<times> 'v) list" where
  "hm_remove \<equiv> AList.delete"

abbreviation hm_contains :: "('k \<times> 'v) list \<Rightarrow> 'k \<Rightarrow> bool" where
  "hm_contains m k \<equiv> map_of m k \<noteq> None"

abbreviation hm_keys :: "('k \<times> 'v) list \<Rightarrow> 'k list" where
  "hm_keys m \<equiv> map fst m"

abbreviation hm_values :: "('k \<times> 'v) list \<Rightarrow> 'v list" where
  "hm_values m \<equiv> map snd m"

abbreviation hm_wf :: "('k \<times> 'v) list \<Rightarrow> bool" where
  "hm_wf m \<equiv> distinct (map fst m)"

lemmas hm_conv [simp] = AList.update_conv' AList.delete_conv'

declare map_of_eq_Some_iff [simp del] Some_eq_map_of_iff [simp del]

lemma hm_wf_insert [intro, simp]: "hm_wf m \<Longrightarrow> hm_wf (hm_insert k v m)"
  by (rule AList.distinct_update)

lemma hm_wf_remove [intro, simp]: "hm_wf m \<Longrightarrow> hm_wf (hm_remove k m)"
  by (rule AList.distinct_delete)

lemma hm_insert_new: "map_of m k = None \<Longrightarrow> hm_insert k v m = m @ [(k, v)]"
  by (induction m) (auto split: if_splits)

lemma hm_remove_absent: "map_of m k = None \<Longrightarrow> hm_remove k m = m"
  by (induction m) (auto split: if_splits)

lemma hm_values_in: "hm_wf m \<Longrightarrow> v \<in> set (hm_values m) \<longleftrightarrow> (\<exists>k. map_of m k = Some v)"
  by (force simp: map_of_eq_Some_iff)

lemma hm_Ball_values: "hm_wf m \<Longrightarrow> (\<forall>v\<in>set (hm_values m). P v) \<longleftrightarrow> (\<forall>k v. map_of m k = Some v \<longrightarrow> P v)"
  by (metis hm_values_in)

lemma hm_empty_iff: "m = [] \<longleftrightarrow> (\<forall>k. map_of m k = None)"
  by (cases m) auto

text \<open>A sum over the values of a map, and how an insertion or a removal changes it.\<close>

lemma hm_sum_insert:
  fixes f :: "'v \<Rightarrow> 'a::cancel_comm_monoid_add"
  assumes "hm_wf m" and "map_of m k = Some v"
  shows "sum_list (map f (hm_values (hm_insert k v' m))) + f v = sum_list (map f (hm_values m)) + f v'"
  using assms
proof (induction m)
  case (Cons x m)
  show ?case
  proof (cases "fst x = k")
    case True
    with Cons.prems show ?thesis
      by (cases x) (simp add: ac_simps)
  next
    case False
    with Cons.prems have "map_of m k = Some v" and "hm_wf m"
      by (cases x, auto)+
    with Cons.IH False show ?thesis
      by (cases x) (simp add: add.assoc)
  qed
qed simp

lemma hm_sum_insert_new:
  fixes f :: "'v \<Rightarrow> 'a::comm_monoid_add"
  assumes "map_of m k = None"
  shows "sum_list (map f (hm_values (hm_insert k v m))) = sum_list (map f (hm_values m)) + f v"
  using assms by (simp add: hm_insert_new)

lemma hm_sum_remove:
  fixes f :: "'v \<Rightarrow> 'a::comm_monoid_add"
  assumes "hm_wf m" and "map_of m k = Some v"
  shows "sum_list (map f (hm_values (hm_remove k m))) + f v = sum_list (map f (hm_values m))"
  using assms
proof (induction m)
  case (Cons x m)
  show ?case
  proof (cases "fst x = k")
    case True
    with Cons.prems have "map_of m k = None" and "snd x = v"
      by (auto simp: map_of_eq_None_iff dest: split_list split: prod.splits)
    with True show ?thesis
      by (cases x) (simp add: hm_remove_absent ac_simps)
  next
    case False
    with Cons.prems have "map_of m k = Some v" and "hm_wf m"
      by (cases x, auto)+
    with Cons.IH False show ?thesis
      by (cases x) (simp add: add.assoc)
  qed
qed simp

lemma hm_sum_ge:
  fixes f :: "'v \<Rightarrow> nat"
  assumes "map_of m k = Some v"
  shows "f v \<le> sum_list (map f (hm_values m))"
  using assms by (induction m) (auto split: if_splits)

section \<open>Resolving sums of results\<close>

text \<open>A result is \<open>Inl\<close> the error or \<open>Inr\<close> the value; \<open>res_bind\<close> is the \<open>?\<close> operator.\<close>

definition res_bind :: "'e + 'a \<Rightarrow> ('a \<Rightarrow> 'e + 'b) \<Rightarrow> 'e + 'b" where
  "res_bind r f = (case r of Inl e \<Rightarrow> Inl e | Inr a \<Rightarrow> f a)"

lemma res_bind_simps [simp]: "res_bind (Inl e) f = Inl e" "res_bind (Inr a) f = f a"
  by (simp_all add: res_bind_def)

lemma res_bind_eq_Inr: "res_bind r f = Inr b \<longleftrightarrow> (\<exists>a. r = Inr a \<and> f a = Inr b)"
  by (cases r) auto

end
