(* ===== verification/Actor_Id.thy ===== *)
theory Actor_Id
  imports Ractor_Prelude
begin

text \<open>
  Actor identifiers (\<open>ractor/src/actor/actor_id.rs\<close>): the identifier type, its accessors,
  its printed form and the allocator of local identifiers.
\<close>

section \<open>Identifiers\<close>

datatype actor_id = Local u64 | Remote (node_id: u64) (remote_pid: u64)

fun is_local :: "actor_id \<Rightarrow> bool" where
  "is_local (Local _) = True"
| "is_local (Remote _ _) = False"

fun pid :: "actor_id \<Rightarrow> u64" where
  "pid (Local p) = p"
| "pid (Remote n p) = p"

fun node :: "actor_id \<Rightarrow> u64" where
  "node (Local _) = 0"
| "node (Remote n p) = n"

text \<open>Decimal rendering of an unsigned integer, as \<open>{}\<close> formats it.\<close>

fun show_nat :: "nat \<Rightarrow> string" where
  "show_nat n = (if n < 10 then [char_of (48 + n)] else show_nat (n div 10) @ [char_of (48 + n mod 10)])"

declare show_nat.simps [simp del]

definition fmt_actor_id :: "actor_id \<Rightarrow> string" where
  "fmt_actor_id i = (case i of
       Local p \<Rightarrow> ''0.'' @ show_nat (unat p)
     | Remote n p \<Rightarrow> show_nat (unat n) @ ''.'' @ show_nat (unat p))"

section \<open>The local allocator\<close>

text \<open>
  \<open>ACTOR_ID_ALLOCATOR\<close> is an \<open>AtomicU64\<close>; \<open>fetch_add\<close> returns the old value and wraps.
\<close>

definition get_new_local_id :: "u64 \<Rightarrow> actor_id \<times> u64" where
  "get_new_local_id alloc = (Local alloc, alloc + 1)"

fun alloc_ids :: "nat \<Rightarrow> u64 \<Rightarrow> actor_id list" where
  "alloc_ids 0 a = []"
| "alloc_ids (Suc n) a = (let (i, a') = get_new_local_id a in i # alloc_ids n a')"

section \<open>Facts\<close>

lemma show_nat_digits: "c \<in> set (show_nat n) \<Longrightarrow> c \<noteq> CHR ''.''"
proof (induction n rule: show_nat.induct)
  case (1 n)
  have dig: "CHR ''.'' \<noteq> char_of (48 + m)" if "m < 10" for m :: nat
  proof
    assume "CHR ''.'' = char_of (48 + m)"
    then have "of_char (char_of (48 + m) :: char) = (of_char CHR ''.'' :: nat)"
      by simp
    with that show False
      by (simp add: of_char_of)
  qed
  show ?case
  proof (cases "n < 10")
    case True
    with 1 dig [of n] show ?thesis by (auto simp: show_nat.simps [of n])
  next
    case False
    with 1 dig [of "n mod 10"] show ?thesis by (auto simp: show_nat.simps [of n])
  qed
qed

fun read_nat :: "string \<Rightarrow> nat" where
  "read_nat s = foldl (\<lambda>a c. a * 10 + (of_char c - 48)) 0 s"

lemma read_show_nat: "read_nat (show_nat n) = n"
proof (induction n rule: show_nat.induct)
  case (1 n)
  have dig: "of_char (char_of (48 + m) :: char) - 48 = m" if "m < 10" for m :: nat
    using that by (simp add: of_char_of)
  show ?case
  proof (cases "n < 10")
    case True
    then show ?thesis by (simp add: show_nat.simps [of n] dig)
  next
    case False
    with 1 show ?thesis by (simp add: show_nat.simps [of n] dig)
  qed
qed

lemma show_nat_inj: "show_nat m = show_nat n \<longleftrightarrow> m = n"
  by (metis read_show_nat)

lemma append_dot_inj:
  assumes "xs @ ''.'' @ ys = xs' @ ''.'' @ ys'"
    and "CHR ''.'' \<notin> set xs" and "CHR ''.'' \<notin> set xs'"
  shows "xs = xs' \<and> ys = ys'"
  using assms
proof (induction xs arbitrary: xs')
  case Nil
  then show ?case by (cases xs') auto
next
  case (Cons a xs)
  then show ?case by (cases xs') auto
qed

lemma fmt_actor_id_eq: "fmt_actor_id i = show_nat (unat (node i)) @ ''.'' @ show_nat (unat (pid i))"
proof -
  have "show_nat 0 = ''0''"
    by (subst show_nat.simps) (simp add: char_of_def bit_simps)
  then show ?thesis
    by (cases i) (simp_all add: fmt_actor_id_def)
qed

text \<open>
  The printed form determines the node and the process id. A remote identifier whose node is
  0 prints like a local one, so it determines the identifier for the identifiers a cluster
  hands out (node 0 is the local node).
\<close>

lemma fmt_actor_id_inj:
  assumes "fmt_actor_id i = fmt_actor_id j"
  shows "node i = node j \<and> pid i = pid j"
proof -
  have "CHR ''.'' \<notin> set (show_nat m)" for m
    using show_nat_digits by blast
  with assms have "show_nat (unat (node i)) = show_nat (unat (node j)) \<and>
      show_nat (unat (pid i)) = show_nat (unat (pid j))"
    by (intro append_dot_inj) (simp_all add: fmt_actor_id_eq)
  then show ?thesis
    by (simp add: show_nat_inj word_unat_eq_iff)
qed

lemma alloc_ids_conv: "alloc_ids n a = map (\<lambda>k. Local (a + of_nat k)) [0..<n]"
proof (induction n arbitrary: a)
  case (Suc n)
  have "alloc_ids (Suc n) a = Local a # map (\<lambda>k. Local (a + 1 + of_nat k)) [0..<n]"
    by (simp add: get_new_local_id_def Suc.IH)
  also have "\<dots> = map (\<lambda>k. Local (a + of_nat k)) (0 # map Suc [0..<n])"
    by (simp add: add.assoc)
  also have "0 # map Suc [0..<n] = [0..<Suc n]"
    by (simp add: map_Suc_upt upt_conv_Cons)
  finally show ?case .
qed simp

lemma of_nat_u64_inj: "m < 2 ^ 64 \<Longrightarrow> n < 2 ^ 64 \<Longrightarrow> (of_nat m :: u64) = of_nat n \<Longrightarrow> m = n"
  by (drule arg_cong [where f = unat]) (simp add: unat_of_nat)

lemma distinct_alloc_ids: "n \<le> 2 ^ 64 \<Longrightarrow> distinct (alloc_ids n a)"
  by (auto simp: alloc_ids_conv distinct_map inj_on_def intro: of_nat_u64_inj)

end
