(* ===== verification/Factory_Discard.thy ===== *)
theory Factory_Discard
  imports Ractor_Prelude
begin

text \<open>
  Load-shedding settings of a factory (\<open>ractor/src/factory/discard.rs\<close>). The updater of
  dynamic settings is an object the user supplies: the model keeps the settings and takes the
  limit the updater computes as an input of the handler that asks for it.
\<close>

datatype discard_mode = Oldest | Newest

datatype discard_reason = TtlExpired | Loadshed | Shutdown | RateLimited

datatype worker_discard_settings =
    WorkerNone
  | WorkerStatic (ws_limit: nat) (ws_mode: discard_mode)

datatype discard_settings =
    DiscardNone
  | DiscardStatic nat discard_mode
  | DiscardDynamic nat discard_mode

fun update_worker_limit :: "worker_discard_settings \<Rightarrow> nat \<Rightarrow> worker_discard_settings" where
  "update_worker_limit (WorkerStatic limit mode) new_limit = WorkerStatic new_limit mode"
| "update_worker_limit WorkerNone new_limit = WorkerNone"

fun worker_limit_and_mode :: "worker_discard_settings \<Rightarrow> (nat \<times> discard_mode) option" where
  "worker_limit_and_mode WorkerNone = None"
| "worker_limit_and_mode (WorkerStatic limit mode) = Some (limit, mode)"

fun get_worker_settings :: "discard_settings \<Rightarrow> worker_discard_settings" where
  "get_worker_settings DiscardNone = WorkerNone"
| "get_worker_settings (DiscardStatic limit mode) = WorkerStatic limit mode"
| "get_worker_settings (DiscardDynamic limit mode) = WorkerStatic limit mode"

fun get_limit_and_mode :: "discard_settings \<Rightarrow> (nat \<times> discard_mode) option" where
  "get_limit_and_mode DiscardNone = None"
| "get_limit_and_mode (DiscardStatic limit mode) = Some (limit, mode)"
| "get_limit_and_mode (DiscardDynamic limit mode) = Some (limit, mode)"

lemma worker_settings_agree [simp]:
  "worker_limit_and_mode (get_worker_settings s) = get_limit_and_mode s"
  by (cases s) auto

lemma update_worker_limit_mode:
  "worker_limit_and_mode (update_worker_limit s l) = map_option (\<lambda>(_, m). (l, m)) (worker_limit_and_mode s)"
  by (cases s) auto

end
