(* ===== verification/Serialization.thy ===== *)
theory Serialization
  imports Ractor_Prelude
begin

text \<open>
  Byte encodings of message arguments (\<open>ractor/src/serialization.rs\<close>, the default
  implementations). A decoder that slices or unwraps panics on a bad input: it returns an
  option, \<open>None\<close> for the panic. Signed integers and floats are encoded by their bits, so the
  word codec stands for all of them at their width.
\<close>

section \<open>The trait\<close>

text \<open>
  \<open>BytesConvertable\<close> as an interface: \<open>valid\<close> holds for the values of the Rust type, and
  decoding an encoding gives the value back.
\<close>

locale bytes_convertable =
  fixes into_bytes :: "'a \<Rightarrow> u8 list"
    and from_bytes :: "u8 list \<Rightarrow> 'a option"
    and valid :: "'a \<Rightarrow> bool"
  assumes from_into: "valid x \<Longrightarrow> from_bytes (into_bytes x) = Some x"
begin

lemma into_bytes_inj: "valid x \<Longrightarrow> valid y \<Longrightarrow> into_bytes x = into_bytes y \<Longrightarrow> x = y"
  by (metis from_into option.inject)

lemma into_bytes_map_inj:
  assumes "list_all valid xs" and "list_all valid ys" and "map into_bytes xs = map into_bytes ys"
  shows "xs = ys"
  using assms
proof (induction xs arbitrary: ys)
  case (Cons x xs)
  then show ?case by (cases ys) (auto dest: into_bytes_inj)
qed simp

end

section \<open>Numbers\<close>

definition size_of :: "'a::len word itself \<Rightarrow> nat" where
  "size_of _ = LENGTH('a) div 8"

definition num_into_bytes :: "'a::len word \<Rightarrow> u8 list" where
  "num_into_bytes x = be_encode (size_of TYPE('a word)) (unat x)"

definition num_from_bytes :: "u8 list \<Rightarrow> 'a::len word option" where
  "num_from_bytes bs =
     (let n = size_of TYPE('a word)
      in if length bs < n then None else Some (of_nat (be_decode (take n bs))))"

section \<open>Unit, booleans, characters\<close>

definition unit_into_bytes :: "unit \<Rightarrow> u8 list" where
  "unit_into_bytes _ = []"

definition unit_from_bytes :: "u8 list \<Rightarrow> unit option" where
  "unit_from_bytes _ = Some ()"

definition bool_into_bytes :: "bool \<Rightarrow> u8 list" where
  "bool_into_bytes b = (if b then [1] else [0])"

definition bool_from_bytes :: "u8 list \<Rightarrow> bool option" where
  "bool_from_bytes bs = (case bs of [] \<Rightarrow> None | b # _ \<Rightarrow> Some (b = 1))"

text \<open>A \<open>char\<close> is a Unicode scalar value: a code point that is no surrogate.\<close>

definition is_char :: "32 word \<Rightarrow> bool" where
  "is_char u \<longleftrightarrow> unat u < 0x110000 \<and> \<not> (0xD800 \<le> unat u \<and> unat u \<le> 0xDFFF)"

definition char_into_bytes :: "32 word \<Rightarrow> u8 list" where
  "char_into_bytes c = num_into_bytes c"

definition char_from_bytes :: "u8 list \<Rightarrow> 32 word option" where
  "char_from_bytes bs =
     (case num_from_bytes bs of None \<Rightarrow> None | Some u \<Rightarrow> if is_char u then Some u else None)"

section \<open>Vectors\<close>

definition vec_into_bytes :: "'a::len word list \<Rightarrow> u8 list" where
  "vec_into_bytes xs = concat (map num_into_bytes xs)"

definition vec_from_bytes :: "u8 list \<Rightarrow> 'a::len word list" where
  "vec_from_bytes bs =
     (let n = size_of TYPE('a word)
      in map (\<lambda>i. of_nat (be_decode (take n (drop (i * n) bs)))) [0..<length bs div n])"

definition vec_bool_into_bytes :: "bool list \<Rightarrow> u8 list" where
  "vec_bool_into_bytes xs = map (\<lambda>b. if b then 1 else 0) xs"

definition vec_bool_from_bytes :: "u8 list \<Rightarrow> bool list" where
  "vec_bool_from_bytes bs = map (\<lambda>b. b = 1) bs"

definition vec_char_into_bytes :: "32 word list \<Rightarrow> u8 list" where
  "vec_char_into_bytes cs = vec_into_bytes cs"

fun all_chars :: "32 word list \<Rightarrow> 32 word list option" where
  "all_chars [] = Some []"
| "all_chars (u # us) =
     (if is_char u then map_option ((#) u) (all_chars us) else None)"

definition vec_char_from_bytes :: "u8 list \<Rightarrow> 32 word list option" where
  "vec_char_from_bytes bs = all_chars (vec_from_bytes bs)"

section \<open>Round trips\<close>

lemma length_num_into_bytes [simp]:
  "length (num_into_bytes (x :: 'a::len word)) = LENGTH('a) div 8"
  by (simp add: num_into_bytes_def size_of_def)

lemma num_decode_encode:
  fixes x :: "'a::len word"
  assumes "8 dvd LENGTH('a)"
  shows "of_nat (be_decode (num_into_bytes x)) = x"
proof -
  have "256 ^ (LENGTH('a) div 8) = (2::nat) ^ (8 * (LENGTH('a) div 8))"
    by (simp add: power_mult)
  also have "8 * (LENGTH('a) div 8) = LENGTH('a)"
    using assms by simp
  finally have "unat x < 256 ^ (LENGTH('a) div 8)"
    using unsigned_less [of x, where ?'a = nat] by simp
  then show ?thesis
    by (simp add: num_into_bytes_def size_of_def be_decode_encode)
qed

lemma num_from_into:
  fixes x :: "'a::len word"
  assumes "8 dvd LENGTH('a)"
  shows "num_from_bytes (num_into_bytes x) = Some x"
  using num_decode_encode [OF assms, of x]
  by (simp add: num_from_bytes_def size_of_def Let_def)

lemma concat_chunk:
  assumes "\<And>x. length (f x) = n" and "i < length xs"
  shows "take n (drop (i * n) (concat (map f xs))) = f (xs ! i)"
  using assms(2)
proof (induction xs arbitrary: i)
  case (Cons x xs)
  then show ?case
    by (cases i) (simp_all add: assms(1))
qed simp

lemma length_concat_chunks:
  assumes "\<And>x. length (f x) = n"
  shows "length (concat (map f xs)) = n * length xs"
  by (induction xs) (simp_all add: assms)

lemma vec_from_into:
  fixes xs :: "'a::len word list"
  assumes "8 dvd LENGTH('a)"
  shows "vec_from_bytes (vec_into_bytes xs) = xs"
proof -
  have pos: "0 < LENGTH('a) div 8"
    using assms by (auto elim!: dvdE) (metis len_gt_0 mult_0_right neq0_conv)
  have "(vec_from_bytes (vec_into_bytes xs) :: 'a word list) =
      map (\<lambda>i. of_nat (be_decode (num_into_bytes (xs ! i)))) [0..<length xs]"
    using pos
    by (simp add: vec_from_bytes_def vec_into_bytes_def size_of_def Let_def
        length_concat_chunks concat_chunk)
  also have "\<dots> = xs"
    by (simp add: num_decode_encode [OF assms] map_nth)
  finally show ?thesis .
qed

lemma vec_bool_from_into: "vec_bool_from_bytes (vec_bool_into_bytes xs) = xs"
  by (simp add: vec_bool_from_bytes_def vec_bool_into_bytes_def comp_def map_idI)

lemma all_chars_valid: "list_all is_char cs \<Longrightarrow> all_chars cs = Some cs"
  by (induction cs) auto

lemma vec_char_from_into:
  "list_all is_char cs \<Longrightarrow> vec_char_from_bytes (vec_char_into_bytes cs) = Some cs"
  by (simp add: vec_char_from_bytes_def vec_char_into_bytes_def vec_from_into all_chars_valid)

interpretation u64_bytes: bytes_convertable num_into_bytes "num_from_bytes :: u8 list \<Rightarrow> u64 option" "\<lambda>_. True"
  by unfold_locales (simp add: num_from_into)

interpretation u32_bytes: bytes_convertable num_into_bytes
    "num_from_bytes :: u8 list \<Rightarrow> 32 word option" "\<lambda>_. True"
  by unfold_locales (simp add: num_from_into)

interpretation unit_bytes: bytes_convertable unit_into_bytes unit_from_bytes "\<lambda>_. True"
  by unfold_locales (simp add: unit_from_bytes_def)

interpretation bool_bytes: bytes_convertable bool_into_bytes bool_from_bytes "\<lambda>_. True"
  by unfold_locales (simp add: bool_into_bytes_def bool_from_bytes_def)

interpretation char_bytes: bytes_convertable char_into_bytes char_from_bytes is_char
  by unfold_locales (simp add: char_into_bytes_def char_from_bytes_def num_from_into)

interpretation vec_u64_bytes: bytes_convertable vec_into_bytes
    "\<lambda>bs. Some (vec_from_bytes bs :: u64 list)" "\<lambda>_. True"
  by unfold_locales (simp add: vec_from_into)

interpretation vec_char_bytes: bytes_convertable vec_char_into_bytes vec_char_from_bytes
    "list_all is_char"
  by unfold_locales (rule vec_char_from_into)

end
