(* ===== verification/Factory_Job.thy ===== *)
theory Factory_Job
  imports Actor_Id Factory_Discard Serialization
begin

text \<open>
  Jobs of a factory (\<open>ractor/src/factory/job.rs\<close>): their options and time to live, the
  accepted/rejected reply, the byte form of options and metadata, and messages that resubmit
  themselves when dropped.

  A handler reads the clock through a \<open>clock\<close> argument: the monotonic \<open>Instant::now()\<close> and
  the wall \<open>SystemTime::now()\<close>. What a handler does to the outside is a list of \<open>effect\<close>s in
  the order of the calls. A Rust value that goes out of scope is dropped; for a job that is
  the effect \<open>Dropped\<close>. Spans and reply ports are opaque numbers.
\<close>

section \<open>Clock and time to live\<close>

record clock =
  clk_instant :: instant
  clk_system :: systime

record ttl_timer =
  started_at :: instant
  remaining :: duration
  already_expired :: bool

definition ttl_timer_new :: "clock \<Rightarrow> duration \<Rightarrow> ttl_timer" where
  "ttl_timer_new c rem = \<lparr>started_at = clk_instant c, remaining = rem, already_expired = False\<rparr>"

definition ttl_timer_from_submit_time :: "clock \<Rightarrow> systime \<Rightarrow> duration \<Rightarrow> ttl_timer" where
  "ttl_timer_from_submit_time c submit ttl =
     (let elapsed = (if submit \<le> clk_system c then clk_system c - submit else 0)
      in \<lparr>started_at = clk_instant c, remaining = ttl - elapsed, already_expired = (elapsed > ttl)\<rparr>)"

definition ttl_timer_is_expired :: "clock \<Rightarrow> ttl_timer \<Rightarrow> bool" where
  "ttl_timer_is_expired c t \<longleftrightarrow> already_expired t \<or> clk_instant c - started_at t > remaining t"

section \<open>Job options\<close>

record job_options =
  submit_time :: systime
  factory_time :: systime
  worker_time :: systime
  opt_ttl :: "duration option"
  opt_ttl_timer :: "ttl_timer option"
  opt_span :: "nat option"

definition job_options_new :: "clock \<Rightarrow> nat option \<Rightarrow> duration option \<Rightarrow> job_options" where
  "job_options_new c cur_span ttl =
     \<lparr>submit_time = clk_system c, factory_time = clk_system c, worker_time = clk_system c,
      opt_ttl = ttl, opt_ttl_timer = map_option (ttl_timer_new c) ttl, opt_span = cur_span\<rparr>"

definition reset_ttl_timer :: "clock \<Rightarrow> job_options \<Rightarrow> job_options" where
  "reset_ttl_timer c opts =
     opts\<lparr>opt_ttl_timer := map_option (ttl_timer_from_submit_time c (submit_time opts)) (opt_ttl opts)\<rparr>"

definition set_ttl :: "clock \<Rightarrow> duration option \<Rightarrow> job_options \<Rightarrow> job_options" where
  "set_ttl c ttl opts = reset_ttl_timer c (opts\<lparr>opt_ttl := ttl\<rparr>)"

definition take_span :: "job_options \<Rightarrow> nat option \<times> job_options" where
  "take_span opts = (opt_span opts, opts\<lparr>opt_span := None\<rparr>)"

text \<open>\<open>PartialEq\<close> of options leaves the timer out.\<close>

definition job_options_eq :: "job_options \<Rightarrow> job_options \<Rightarrow> bool" where
  "job_options_eq a b \<longleftrightarrow> submit_time a = submit_time b \<and> factory_time a = factory_time b \<and>
     worker_time a = worker_time b \<and> opt_ttl a = opt_ttl b \<and> opt_span a = opt_span b"

definition job_options_into_bytes :: "job_options \<Rightarrow> u8 list" where
  "job_options_into_bytes opts =
     be_encode 8 (submit_time opts mod 2 ^ 64) @
     be_encode 8 (case opt_ttl opts of None \<Rightarrow> 0 | Some t \<Rightarrow> t mod 2 ^ 64)"

definition job_options_from_bytes :: "clock \<Rightarrow> nat option \<Rightarrow> u8 list \<Rightarrow> job_options" where
  "job_options_from_bytes c cur_span data =
     (if length data \<noteq> 16 then (job_options_new c cur_span None)\<lparr>opt_span := None\<rparr>
      else
        let submit = be_decode (take 8 data);
            ttl = be_decode (drop 8 data);
            ttl' = (if ttl > 0 then Some ttl else None)
        in reset_ttl_timer c
             ((job_options_new c cur_span None)
                \<lparr>submit_time := submit, opt_ttl := ttl', opt_ttl_timer := None, opt_span := None\<rparr>))"

section \<open>Jobs\<close>

type_synonym port = nat

record ('k, 'm) job =
  job_key :: 'k
  job_msg :: 'm
  options :: job_options
  accepted :: "port option"

datatype ('k, 'm) worker_message =
    FactoryPing instant
  | DispatchJob "('k, 'm) job"

text \<open>
  The calls a factory makes to the outside: replies on a job's \<open>accepted\<close> port, calls of the
  discard handler and of the statistics layer (\<open>stats.rs\<close>), messages and signals to worker
  actors, and the drop of a job.
\<close>

datatype stat_call =
    NewJob
  | JobCompleted job_options
  | JobDiscarded
  | JobRateLimited
  | JobTtlExpired nat
  | FactoryPingReceived instant
  | WorkerPingReceived duration
  | QueueLimit nat
  | QueueDepth nat
  | ProcessingMessages nat
  | InFlightMessages nat
  | WorkerCount nat

datatype hook_call = OnStarted | OnDraining | OnStopped

datatype actor_call = StopActor | KillActor | JoinActor

datatype ('k, 'm) effect =
    ReplyAccepted port
  | ReplyRejected port "('k, 'm) job"
  | Dropped "('k, 'm) job"
  | Discarded discard_reason "('k, 'm) job"
  | CastWorker actor_id "('k, 'm) worker_message"
  | CallActor actor_call actor_id
  | SpawnWorker nat actor_id
  | Stat nat string stat_call
  | Hook hook_call
  | ReplyCount port nat
  | SendAfter duration string
  | AbortCheck
  | StopFactory

text \<open>
  The statistics layer is optional; every callback of the layer \<open>None\<close> does nothing. A layer is
  an opaque number, and a callback gets the factory's name.
\<close>

type_synonym stats_layer = "nat option"

definition stat :: "stats_layer \<Rightarrow> string \<Rightarrow> stat_call \<Rightarrow> ('k, 'm) effect list" where
  "stat s name call = (case s of None \<Rightarrow> [] | Some l \<Rightarrow> [Stat l name call])"

definition job_new :: "clock \<Rightarrow> nat option \<Rightarrow> 'k \<Rightarrow> 'm \<Rightarrow> ('k, 'm) job" where
  "job_new c cur_span k m =
     \<lparr>job_key = k, job_msg = m, options = job_options_new c cur_span None, accepted = None\<rparr>"

definition job_with_options :: "'k \<Rightarrow> 'm \<Rightarrow> job_options \<Rightarrow> ('k, 'm) job" where
  "job_with_options k m opts = \<lparr>job_key = k, job_msg = m, options = opts, accepted = None\<rparr>"

definition is_expired :: "clock \<Rightarrow> ('k, 'm) job \<Rightarrow> bool" where
  "is_expired c j = (case opt_ttl_timer (options j) of None \<Rightarrow> False | Some t \<Rightarrow> ttl_timer_is_expired c t)"

definition set_factory_time :: "clock \<Rightarrow> ('k, 'm) job \<Rightarrow> ('k, 'm) job" where
  "set_factory_time c j = j\<lparr>options := (options j)\<lparr>factory_time := clk_system c\<rparr>\<rparr>"

definition set_worker_time :: "clock \<Rightarrow> ('k, 'm) job \<Rightarrow> ('k, 'm) job" where
  "set_worker_time c j = j\<lparr>options := (options j)\<lparr>worker_time := clk_system c\<rparr>\<rparr>"

definition accept :: "('k, 'm) job \<Rightarrow> ('k, 'm) job \<times> ('k, 'm) effect list" where
  "accept j = (case accepted j of
       None \<Rightarrow> (j, [])
     | Some p \<Rightarrow> (j\<lparr>accepted := None\<rparr>, [ReplyAccepted p]))"

definition reject :: "('k, 'm) job \<Rightarrow> ('k, 'm) effect list" where
  "reject j = (case accepted j of
       None \<Rightarrow> [Dropped j]
     | Some p \<Rightarrow> [ReplyRejected p (j\<lparr>accepted := None\<rparr>)])"

text \<open>
  \<open>if let Some(handler) = &discard_handler { handler.discard(reason, &mut job) }\<close>: the handler
  gets the job by mutable reference, so it is a function of the reason and the job to the job
  it leaves behind.
\<close>

type_synonym ('k, 'm) discard_handler = "(discard_reason \<Rightarrow> ('k, 'm) job \<Rightarrow> ('k, 'm) job) option"

definition call_discard ::
    "('k, 'm) discard_handler \<Rightarrow> discard_reason \<Rightarrow> ('k, 'm) job \<Rightarrow> ('k, 'm) job \<times> ('k, 'm) effect list"
  where
  "call_discard h r j = (case h of None \<Rightarrow> (j, []) | Some f \<Rightarrow> (f r j, [Discarded r j]))"

section \<open>Metadata of a serialized job\<close>

definition serialize_meta :: "('k \<Rightarrow> u8 list) \<Rightarrow> ('k, 'm) job \<Rightarrow> u8 list \<times> 'm" where
  "serialize_meta kenc j = (job_options_into_bytes (options j) @ kenc (job_key j), job_msg j)"

definition deserialize_meta ::
    "clock \<Rightarrow> nat option \<Rightarrow> (u8 list \<Rightarrow> 'k option) \<Rightarrow> u8 list option \<Rightarrow> ('k \<times> job_options) option" where
  "deserialize_meta c cur_span kdec maybe_bytes =
     (case maybe_bytes of
        None \<Rightarrow> None
      | Some bs \<Rightarrow>
          if length bs < 16 then None
          else (case kdec (drop 16 bs) of
                  None \<Rightarrow> None
                | Some k \<Rightarrow> Some (k, job_options_from_bytes c cur_span (take 16 bs))))"

section \<open>Retriable messages\<close>

datatype retry_strategy = RetryForever | Count nat | NoRetry

fun has_retries :: "retry_strategy \<Rightarrow> bool" where
  "has_retries RetryForever = True"
| "has_retries (Count n) = (n > 0)"
| "has_retries NoRetry = False"

fun decrement :: "retry_strategy \<Rightarrow> retry_strategy" where
  "decrement (Count n) = (if n > 1 then Count (n - 1) else NoRetry)"
| "decrement RetryForever = RetryForever"
| "decrement NoRetry = NoRetry"

record ('k, 'm) retriable =
  rt_key :: 'k
  rt_message :: "'m option"
  rt_strategy :: retry_strategy
  rt_hook :: "nat option"
  rt_state :: "(job_options \<times> actor_id) option"

definition retriable_new :: "'k \<Rightarrow> 'm \<Rightarrow> retry_strategy \<Rightarrow> ('k, 'm) retriable" where
  "retriable_new k m s =
     \<lparr>rt_key = k, rt_message = Some m, rt_strategy = s, rt_hook = None, rt_state = None\<rparr>"

definition capture_retry_state ::
    "job_options \<Rightarrow> actor_id \<Rightarrow> ('k, 'm) retriable \<Rightarrow> ('k, 'm) retriable" where
  "capture_retry_state opts factory r = r\<lparr>rt_state := Some (opts, factory)\<rparr>"

definition completed :: "('k, 'm) retriable \<Rightarrow> ('k, 'm) retriable" where
  "completed r = r\<lparr>rt_strategy := NoRetry, rt_message := None\<rparr>"

definition from_job ::
    "('k, 'm) job \<Rightarrow> retry_strategy \<Rightarrow> actor_id \<Rightarrow> ('k, ('k, 'm) retriable) job" where
  "from_job j s factory =
     \<lparr>job_key = job_key j,
      job_msg = capture_retry_state (options j) factory (retriable_new (job_key j) (job_msg j) s),
      options = options j, accepted = None\<rparr>"

text \<open>
  \<open>Drop\<close>: \<open>ty\<close> answers \<open>is_message_type_of\<close> for the factory's reference, \<open>cast_ok\<close> whether the
  factory's mailbox takes the job. For a local factory of the right type \<open>cast\<close> either
  succeeds or gives the job back. The result is the retry hook that ran and the job
  that was resubmitted, if any.
\<close>

definition drop_retriable ::
    "clock \<Rightarrow> (actor_id \<Rightarrow> bool option) \<Rightarrow> (('k, ('k, 'm) retriable) job \<Rightarrow> bool) \<Rightarrow>
     ('k, 'm) retriable \<Rightarrow> nat option \<times> ('k, ('k, 'm) retriable) job option" where
  "drop_retriable c ty cast_ok r =
     (if \<not> has_retries (rt_strategy r) \<or> rt_message r = None then (None, None)
      else case rt_state r of
        None \<Rightarrow> (None, None)
      | Some (opts, factory) \<Rightarrow>
          if ty factory \<noteq> Some True then (None, None)
          else
            let msg = \<lparr>rt_key = rt_key r, rt_message = rt_message r,
                       rt_strategy = decrement (rt_strategy r), rt_hook = rt_hook r,
                       rt_state = Some (opts, factory)\<rparr>;
                job = \<lparr>job_key = rt_key r, job_msg = msg, options = opts, accepted = None\<rparr>
            in if is_expired c job then (None, None)
               else (rt_hook r, if cast_ok job then Some job else None))"

text \<open>The jobs resubmitted when every resubmitted message is dropped in turn.\<close>

fun drop_chain ::
    "nat \<Rightarrow> clock \<Rightarrow> (actor_id \<Rightarrow> bool option) \<Rightarrow> (('k, ('k, 'm) retriable) job \<Rightarrow> bool) \<Rightarrow>
     ('k, 'm) retriable \<Rightarrow> ('k, ('k, 'm) retriable) job list" where
  "drop_chain 0 c ty ok r = []"
| "drop_chain (Suc n) c ty ok r =
     (case snd (drop_retriable c ty ok r) of
        None \<Rightarrow> []
      | Some j \<Rightarrow> j # drop_chain n c ty ok (job_msg j))"

section \<open>Jobs that leave\<close>

text \<open>
  What an effect list says about the jobs that left the factory: a job is handed to a worker
  actor, given back to the submitter, or dropped. A job is known by its key and message.
\<close>

definition tag :: "('k, 'm) job \<Rightarrow> 'k \<times> 'm" where
  "tag j = (job_key j, job_msg j)"

fun effect_jobs :: "('k, 'm) effect \<Rightarrow> ('k \<times> 'm) multiset" where
  "effect_jobs (ReplyRejected p j) = {#tag j#}"
| "effect_jobs (Dropped j) = {#tag j#}"
| "effect_jobs (CastWorker a (DispatchJob j)) = {#tag j#}"
| "effect_jobs _ = {#}"

definition jobs_out :: "('k, 'm) effect list \<Rightarrow> ('k \<times> 'm) multiset" where
  "jobs_out es = sum_list (map effect_jobs es)"

definition tags :: "('k, 'm) job list \<Rightarrow> ('k \<times> 'm) multiset" where
  "tags js = image_mset tag (mset js)"

text \<open>A discard handler that leaves the key and the message of a job as they are.\<close>

definition handler_keeps :: "('k, 'm) discard_handler \<Rightarrow> bool" where
  "handler_keeps h \<longleftrightarrow> (\<forall>f r j. h = Some f \<longrightarrow> tag (f r j) = tag j)"

lemma jobs_out_simps [simp]:
  "jobs_out [] = {#}" "jobs_out (e # es) = effect_jobs e + jobs_out es"
  "jobs_out (es @ es') = jobs_out es + jobs_out es'"
  by (simp_all add: jobs_out_def)

lemma tags_simps [simp]:
  "tags [] = {#}" "tags (j # js) = {#tag j#} + tags js" "tags (js @ js') = tags js + tags js'"
  by (simp_all add: tags_def)

lemma tag_ops [simp]:
  "tag (set_factory_time c j) = tag j" "tag (set_worker_time c j) = tag j"
  "tag (fst (accept j)) = tag j"
  by (simp_all add: tag_def set_factory_time_def set_worker_time_def accept_def split: option.splits)

lemma jobs_out_stat [simp]: "jobs_out (stat s name call) = {#}"
  by (simp add: stat_def split: option.splits)

lemma jobs_out_accept [simp]: "jobs_out (snd (accept j)) = {#}"
  by (simp add: accept_def split: option.splits)

lemma jobs_out_reject [simp]: "jobs_out (reject j) = {#tag j#}"
  by (simp add: reject_def tag_def split: option.splits)

lemma jobs_out_call_discard [simp]: "jobs_out (snd (call_discard h r j)) = {#}"
  by (simp add: call_discard_def split: option.splits)

lemma tag_call_discard [simp]: "handler_keeps h \<Longrightarrow> tag (fst (call_discard h r j)) = tag j"
  by (auto simp: call_discard_def handler_keeps_def split: option.splits)

section \<open>Facts: time to live\<close>

lemmas job_ops [job_simps] =
  set_factory_time_def set_worker_time_def accept_def reject_def call_discard_def

lemma job_key_set_times [simp]:
  "job_key (set_factory_time c j) = job_key j" "job_key (set_worker_time c j) = job_key j"
  "job_msg (set_factory_time c j) = job_msg j" "job_msg (set_worker_time c j) = job_msg j"
  "accepted (set_factory_time c j) = accepted j" "accepted (set_worker_time c j) = accepted j"
  by (simp_all add: job_simps)

lemma is_expired_set_times [simp]:
  "is_expired c (set_factory_time c' j) = is_expired c j"
  "is_expired c (set_worker_time c' j) = is_expired c j"
  by (simp_all add: job_simps is_expired_def)

lemma accept_fst [simp]:
  "job_key (fst (accept j)) = job_key j" "job_msg (fst (accept j)) = job_msg j"
  "options (fst (accept j)) = options j" "accepted (fst (accept j)) = None"
  by (simp_all add: accept_def split: option.splits)

lemma is_expired_accept [simp]: "is_expired c (fst (accept j)) = is_expired c j"
  by (simp add: is_expired_def)

text \<open>
  A timer that has expired stays expired as the monotonic clock advances, and one started
  from the submission time expires when the wall clock's lead over the submission exceeds the
  time to live, provided both clocks advance alike.
\<close>

lemma ttl_timer_expired_mono:
  assumes "ttl_timer_is_expired c t" and "clk_instant c \<le> clk_instant c'"
  shows "ttl_timer_is_expired c' t"
  using assms by (auto simp: ttl_timer_is_expired_def)

lemma is_expired_mono:
  assumes "is_expired c j" and "clk_instant c \<le> clk_instant c'"
  shows "is_expired c' j"
  using assms by (auto simp: is_expired_def intro: ttl_timer_expired_mono split: option.splits)

lemma from_submit_time_expires:
  assumes "submit \<le> clk_system c"
  shows "ttl_timer_is_expired \<lparr>clk_instant = clk_instant c + d, clk_system = clk_system c + d\<rparr>
           (ttl_timer_from_submit_time c submit ttl) \<longleftrightarrow> clk_system c + d - submit > ttl"
  using assms by (auto simp: ttl_timer_is_expired_def ttl_timer_from_submit_time_def Let_def)

section \<open>Facts: bytes\<close>

lemma length_job_options_into_bytes [simp]: "length (job_options_into_bytes opts) = 16"
  by (simp add: job_options_into_bytes_def)

lemma job_options_from_into:
  assumes "submit_time opts < 2 ^ 64" and "\<And>t. opt_ttl opts = Some t \<Longrightarrow> 0 < t \<and> t < 2 ^ 64"
  shows "submit_time (job_options_from_bytes c sp (job_options_into_bytes opts)) = submit_time opts"
    and "opt_ttl (job_options_from_bytes c sp (job_options_into_bytes opts)) = opt_ttl opts"
  using assms
  by (auto simp: job_options_from_bytes_def job_options_into_bytes_def reset_ttl_timer_def Let_def
      be_decode_encode_mod split: option.splits)

lemma deserialize_serialize_meta:
  assumes "kdec (kenc (job_key j)) = Some (job_key j)"
  shows "deserialize_meta c sp kdec (Some (fst (serialize_meta kenc j))) =
           Some (job_key j, job_options_from_bytes c sp (job_options_into_bytes (options j)))"
  using assms by (simp add: deserialize_meta_def serialize_meta_def)

section \<open>Facts: retries\<close>

lemma drop_chain_bound:
  assumes "rt_strategy r = Count n"
  shows "length (drop_chain fuel c ty ok r) \<le> n"
  using assms
proof (induction fuel arbitrary: r n)
  case (Suc fuel)
  show ?case
  proof (cases "snd (drop_retriable c ty ok r)")
    case None
    then show ?thesis by simp
  next
    case (Some j)
    then have n: "n > 0" and st: "rt_strategy (job_msg j) = decrement (Count n)"
      using Suc.prems
      by (auto simp: drop_retriable_def Let_def split: if_splits option.splits prod.splits)
    show ?thesis
    proof (cases "n > 1")
      case True
      with st have "rt_strategy (job_msg j) = Count (n - 1)" by simp
      from Suc.IH [OF this] True Some show ?thesis by simp
    next
      case False
      with st have "snd (drop_retriable c ty ok (job_msg j)) = None"
        by (simp add: drop_retriable_def)
      then have "drop_chain fuel c ty ok (job_msg j) = []"
        by (cases fuel) simp_all
      with n Some show ?thesis by simp
    qed
  qed
qed simp

text \<open>
  What a retriable message needs to be resubmitted: a payload, captured options that are not
  expired and a local factory of the right type that takes the job.
\<close>

definition can_retry ::
    "clock \<Rightarrow> (actor_id \<Rightarrow> bool option) \<Rightarrow> ('k, 'm) retriable \<Rightarrow> bool" where
  "can_retry c ty r \<longleftrightarrow> rt_message r \<noteq> None \<and>
     (case rt_state r of None \<Rightarrow> False
      | Some (opts, factory) \<Rightarrow> ty factory = Some True \<and>
          (case opt_ttl_timer opts of None \<Rightarrow> True | Some t \<Rightarrow> \<not> ttl_timer_is_expired c t))"

lemma drop_retriable_resubmits:
  assumes "can_retry c ty r" and "has_retries (rt_strategy r)"
  shows "\<exists>j. snd (drop_retriable c ty (\<lambda>_. True) r) = Some j \<and> can_retry c ty (job_msg j) \<and>
           rt_strategy (job_msg j) = decrement (rt_strategy r) \<and>
           rt_message (job_msg j) = rt_message r \<and> job_key j = rt_key r"
  using assms
  by (auto simp: can_retry_def drop_retriable_def Let_def is_expired_def split: option.splits)

lemma drop_chain_count:
  assumes "can_retry c ty r" and "rt_strategy r = Count n" and "n \<le> fuel"
  shows "length (drop_chain fuel c ty (\<lambda>_. True) r) = n"
  using assms
proof (induction fuel arbitrary: r n)
  case (Suc fuel)
  show ?case
  proof (cases "n = 0")
    case True
    with Suc.prems show ?thesis by (simp add: drop_retriable_def)
  next
    case False
    with Suc.prems have "has_retries (rt_strategy r)" by simp
    with Suc.prems(1) obtain j where j: "snd (drop_retriable c ty (\<lambda>_. True) r) = Some j"
      "can_retry c ty (job_msg j)" "rt_strategy (job_msg j) = decrement (Count n)"
      by (metis Suc.prems(2) drop_retriable_resubmits)
    show ?thesis
    proof (cases "n > 1")
      case True
      with j Suc.prems(3) have "length (drop_chain fuel c ty (\<lambda>_. True) (job_msg j)) = n - 1"
        by (intro Suc.IH) auto
      with j True show ?thesis by simp
    next
      case False
      with j have "drop_chain fuel c ty (\<lambda>_. True) (job_msg j) = []"
        by (cases fuel) (simp_all add: drop_retriable_def)
      with j False \<open>n \<noteq> 0\<close> show ?thesis by simp
    qed
  qed
qed simp

end
