(* ===== verification/Factory_Worker.thy ===== *)
theory Factory_Worker
  imports Factory_Job
begin

text \<open>
  A worker of a factory as the factory sees it (\<open>WorkerProperties\<close> of
  \<open>ractor/src/factory/worker.rs\<close>): its private queue, the jobs it is working on, the count of
  pending jobs by key, its discard settings and its heartbeat.

  The worker itself is an actor that runs concurrently. Whether a message to it is delivered
  is decided by that actor, so it is an input: \<open>env_deliver\<close>. The answers of the other objects
  the user or the runtime supplies (spawning an actor, the key hash, the capacity controller,
  the discard updater, the lifecycle hooks) are inputs of the same record.
\<close>

section \<open>Inputs of a handler\<close>

text \<open>
  \<open>cast\<close> on a worker reference: delivered; \<open>SendErr\<close>, which gives the message back; or another
  error, in which case the message is gone.
\<close>

datatype send_outcome = SendOk | SendReturned | SendLost

type_synonym processing_err = string

record ('k, 'm) env =
  env_clock :: clock
  env_deliver :: "actor_id \<Rightarrow> ('k, 'm) worker_message \<Rightarrow> send_outcome"
  env_spawn :: "nat \<Rightarrow> processing_err + actor_id"
  env_hash :: "'k \<Rightarrow> u64"
  env_capacity :: nat
  env_limit :: nat
  env_hook :: "processing_err + unit"

section \<open>State\<close>

record ('k, 'm) worker =
  wid :: nat
  w_actor :: actor_id
  w_factory_name :: string
  w_handle :: bool
  message_queue :: "('k, 'm) job list"
  w_discard_settings :: worker_discard_settings
  w_discard_handler :: "('k, 'm) discard_handler"
  heartbeat :: "instant option"
  w_stats :: stats_layer
  curr_jobs :: "('k \<times> job_options) list"
  pending_key_counts :: "('k \<times> nat) list"
  is_draining :: bool

definition worker_new ::
    "string \<Rightarrow> nat \<Rightarrow> actor_id \<Rightarrow> worker_discard_settings \<Rightarrow> ('k, 'm) discard_handler \<Rightarrow>
     stats_layer \<Rightarrow> ('k, 'm) worker" where
  "worker_new name i a ds dh st =
     \<lparr>wid = i, w_actor = a, w_factory_name = name, w_handle = True, message_queue = [],
      w_discard_settings = ds, w_discard_handler = dh, heartbeat = None, w_stats = st,
      curr_jobs = [], pending_key_counts = [], is_draining = False\<rparr>"

definition w_stat :: "('k, 'm) worker \<Rightarrow> stat_call \<Rightarrow> ('k, 'm) effect list" where
  "w_stat w call = stat (w_stats w) (w_factory_name w) call"

section \<open>Queries\<close>

definition is_processing_key :: "('k, 'm) worker \<Rightarrow> 'k \<Rightarrow> bool" where
  "is_processing_key w k \<longleftrightarrow> hm_contains (curr_jobs w) k"

definition is_available :: "('k, 'm) worker \<Rightarrow> bool" where
  "is_available w \<longleftrightarrow> curr_jobs w = [] \<and> message_queue w = []"

definition is_working :: "('k, 'm) worker \<Rightarrow> bool" where
  "is_working w \<longleftrightarrow> \<not> is_available w"

definition queued_job_count :: "('k, 'm) worker \<Rightarrow> nat" where
  "queued_job_count w = length (message_queue w)"

definition active_job_count :: "('k, 'm) worker \<Rightarrow> nat" where
  "active_job_count w = length (curr_jobs w)"

definition has_pending_key :: "('k, 'm) worker \<Rightarrow> 'k \<Rightarrow> bool" where
  "has_pending_key w k \<longleftrightarrow> hm_contains (pending_key_counts w) k"

section \<open>Operations\<close>

definition track_pending_key :: "'k \<Rightarrow> ('k, 'm) worker \<Rightarrow> ('k, 'm) worker" where
  "track_pending_key k w =
     (let n = (case hm_get (pending_key_counts w) k of None \<Rightarrow> 0 | Some n \<Rightarrow> n)
      in w\<lparr>pending_key_counts := hm_insert k (n + 1) (pending_key_counts w)\<rparr>)"

definition untrack_pending_key :: "'k \<Rightarrow> ('k, 'm) worker \<Rightarrow> ('k, 'm) worker" where
  "untrack_pending_key k w =
     (case hm_get (pending_key_counts w) k of
        None \<Rightarrow> w
      | Some n \<Rightarrow>
          if n = 1 then w\<lparr>pending_key_counts := hm_remove k (pending_key_counts w)\<rparr>
          else w\<lparr>pending_key_counts := hm_insert k (n - 1) (pending_key_counts w)\<rparr>)"

text \<open>\<open>get_next_non_expired_job\<close>: the loop pops until a job has not expired.\<close>

fun get_next_loop ::
    "clock \<Rightarrow> ('k, 'm) worker \<Rightarrow> ('k, 'm) job list \<Rightarrow>
     ('k, 'm) job option \<times> ('k, 'm) worker \<times> ('k, 'm) effect list" where
  "get_next_loop c w [] = (None, w\<lparr>message_queue := []\<rparr>, [])"
| "get_next_loop c w (j # q) =
     (if \<not> is_expired c j then (Some j, w\<lparr>message_queue := q\<rparr>, [])
      else
        let w1 = untrack_pending_key (job_key j) w;
            (j1, es) = call_discard (w_discard_handler w1) TtlExpired j;
            (r, w2, es2) = get_next_loop c w1 q
        in (r, w2, es @ w_stat w1 (JobTtlExpired 1) @ [Dropped j1] @ es2))"

definition get_next_non_expired_job ::
    "clock \<Rightarrow> ('k, 'm) worker \<Rightarrow> ('k, 'm) job option \<times> ('k, 'm) worker \<times> ('k, 'm) effect list"
  where
  "get_next_non_expired_job c w = get_next_loop c w (message_queue w)"

definition dispatch_job ::
    "('k, 'm) env \<Rightarrow> ('k, 'm) job \<Rightarrow> ('k, 'm) worker \<Rightarrow> ('k, 'm) worker \<times> ('k, 'm) effect list" where
  "dispatch_job e j w =
     (let j1 = set_worker_time (env_clock e) j
      in case env_deliver e (w_actor w) (DispatchJob j1) of
           SendOk \<Rightarrow>
             (w\<lparr>curr_jobs := hm_insert (job_key j1) (options j1) (curr_jobs w)\<rparr>,
              [CastWorker (w_actor w) (DispatchJob j1)])
         | SendReturned \<Rightarrow> (w\<lparr>message_queue := j1 # message_queue w\<rparr>, [])
         | SendLost \<Rightarrow> (untrack_pending_key (job_key j1) w, [Dropped j1]))"

text \<open>
  The load-shedding loop of \<open>enqueue_job\<close> in mode \<open>Oldest\<close>: its body, and the loop. Every turn
  pops at least one job, so the loop ends.
\<close>

definition shed_step ::
    "clock \<Rightarrow> ('k, 'm) worker \<Rightarrow> ('k, 'm) worker \<times> ('k, 'm) effect list" where
  "shed_step c w =
     (case get_next_non_expired_job c w of
        (None, w1, es) \<Rightarrow> (w1, es)
      | (Some d, w1, es) \<Rightarrow>
          let w2 = untrack_pending_key (job_key d) w1;
              (d1, es1) = call_discard (w_discard_handler w2) Loadshed d
          in (w2, es @ w_stat w2 JobDiscarded @ es1 @ [Dropped d1]))"

lemma untrack_queue [simp]: "message_queue (untrack_pending_key k w) = message_queue w"
  by (simp add: untrack_pending_key_def split: option.splits)

lemma get_next_loop_queue_le: "length (message_queue (fst (snd (get_next_loop c w q)))) \<le> length q - 1"
proof (induction q arbitrary: w)
  case (Cons j q)
  show ?case
    using Cons.IH [of "untrack_pending_key (job_key j) w"]
    by (auto simp: Let_def split: prod.splits)
qed simp

lemma shed_step_queue_le: "length (message_queue (fst (shed_step c w))) \<le> length (message_queue w) - 1"
  using get_next_loop_queue_le [of c w "message_queue w"]
  by (auto simp: shed_step_def get_next_non_expired_job_def Let_def split: prod.splits option.splits)

function shed_oldest ::
    "clock \<Rightarrow> nat \<Rightarrow> ('k, 'm) worker \<Rightarrow> ('k, 'm) worker \<times> ('k, 'm) effect list" where
  "shed_oldest c limit w =
     (if length (message_queue w) > limit then
        let (w1, es1) = shed_step c w; (w2, es2) = shed_oldest c limit w1 in (w2, es1 @ es2)
      else (w, []))"
  by pat_completeness auto
termination shed_oldest
proof (relation "measure (\<lambda>(c, limit, w). length (message_queue w))", goal_cases)
  case (2 c limit w p w1 es1)
  then have "length (message_queue w1) \<le> length (message_queue w) - 1"
    using shed_step_queue_le [of c w] by (metis fst_conv)
  with 2 show ?case by simp
qed simp

declare shed_oldest.simps [simp del]

text \<open>The test of \<open>enqueue_job\<close> that refuses the new job.\<close>

definition sheds_newest :: "('k, 'm) worker \<Rightarrow> bool" where
  "sheds_newest w =
     (case worker_limit_and_mode (w_discard_settings w) of
        Some (limit, Newest) \<Rightarrow> \<not> is_available w \<and> length (message_queue w) \<ge> limit
      | _ \<Rightarrow> False)"

text \<open>The rest of \<open>enqueue_job\<close>, for a job that is accepted and counted.\<close>

definition enqueue_accepted ::
    "('k, 'm) env \<Rightarrow> ('k, 'm) job \<Rightarrow> ('k, 'm) worker \<Rightarrow> ('k, 'm) worker \<times> ('k, 'm) effect list" where
  "enqueue_accepted e j w =
     (if curr_jobs w = [] then
        (case get_next_non_expired_job (env_clock e) w of
           (Some older, w1, es) \<Rightarrow>
             (let (w2, es2) = dispatch_job e older (w1\<lparr>message_queue := message_queue w1 @ [j]\<rparr>)
              in (w2, es @ es2))
         | (None, w1, es) \<Rightarrow> (let (w2, es2) = dispatch_job e j w1 in (w2, es @ es2)))
      else
        let w1 = w\<lparr>message_queue := message_queue w @ [j]\<rparr>
        in (case worker_limit_and_mode (w_discard_settings w1) of
              Some (limit, Oldest) \<Rightarrow> shed_oldest (env_clock e) limit w1
            | _ \<Rightarrow> (w1, [])))"

definition enqueue_job ::
    "('k, 'm) env \<Rightarrow> ('k, 'm) job \<Rightarrow> ('k, 'm) worker \<Rightarrow> ('k, 'm) worker \<times> ('k, 'm) effect list" where
  "enqueue_job e j w =
     (if sheds_newest w then
        let (j1, es) = call_discard (w_discard_handler w) Loadshed j
        in (w, w_stat w JobDiscarded @ es @ reject j1)
      else
        let (j1, es1) = accept j;
            (w1, es2) = enqueue_accepted e j1 (track_pending_key (job_key j1) w)
        in (w1, es1 @ es2))"

definition untrack_all :: "'k list \<Rightarrow> ('k, 'm) worker \<Rightarrow> ('k, 'm) worker" where
  "untrack_all ks w = foldl (\<lambda>w k. untrack_pending_key k w) w ks"

text \<open>
  \<open>if let Some(job) = self.get_next_non_expired_job() { self.dispatch_job(job); }\<close>, which
  \<open>replace_worker\<close> and \<open>worker_complete\<close> end with.
\<close>

definition dispatch_next ::
    "('k, 'm) env \<Rightarrow> ('k, 'm) worker \<Rightarrow> ('k, 'm) worker \<times> ('k, 'm) effect list" where
  "dispatch_next e w =
     (case get_next_non_expired_job (env_clock e) w of
        (None, w1, es) \<Rightarrow> (w1, es)
      | (Some j, w1, es) \<Rightarrow> (let (w2, es2) = dispatch_job e j w1 in (w2, es @ es2)))"

definition replace_worker ::
    "('k, 'm) env \<Rightarrow> actor_id \<Rightarrow> ('k, 'm) worker \<Rightarrow> ('k, 'm) worker \<times> ('k, 'm) effect list" where
  "replace_worker e nworker w =
     (let w1 = w\<lparr>heartbeat := None, curr_jobs := []\<rparr>;
          w2 = untrack_all (hm_keys (curr_jobs w)) w1
      in dispatch_next e (w2\<lparr>w_actor := nworker, w_handle := True\<rparr>))"

definition worker_complete ::
    "('k, 'm) env \<Rightarrow> 'k \<Rightarrow> ('k, 'm) worker \<Rightarrow>
     job_options option \<times> ('k, 'm) worker \<times> ('k, 'm) effect list" where
  "worker_complete e k w =
     (case hm_get (curr_jobs w) k of
        None \<Rightarrow> (None, w, [])
      | Some opts \<Rightarrow>
          (Some opts,
           dispatch_next e (untrack_pending_key k (w\<lparr>curr_jobs := hm_remove k (curr_jobs w)\<rparr>))))"

section \<open>Heartbeat\<close>

definition is_stuck_at :: "instant \<Rightarrow> duration \<Rightarrow> ('k, 'm) worker \<Rightarrow> bool" where
  "is_stuck_at now timeout w =
     (case heartbeat w of None \<Rightarrow> False | Some sent_at \<Rightarrow> now - sent_at > timeout)"

definition send_factory_ping ::
    "('k, 'm) env \<Rightarrow> ('k, 'm) worker \<Rightarrow> ('k, 'm) worker \<times> ('k, 'm) effect list" where
  "send_factory_ping e w =
     (if heartbeat w = None then
        let now = clk_instant (env_clock e)
        in (case env_deliver e (w_actor w) (FactoryPing now) of
              SendOk \<Rightarrow> (w\<lparr>heartbeat := Some now\<rparr>, [CastWorker (w_actor w) (FactoryPing now)])
            | _ \<Rightarrow> (w, []))
      else (w, []))"

definition ping_received ::
    "duration \<Rightarrow> nat \<Rightarrow> ('k, 'm) worker \<Rightarrow> ('k, 'm) worker \<times> ('k, 'm) effect list" where
  "ping_received time discard_limit w =
     (w\<lparr>w_discard_settings := update_worker_limit (w_discard_settings w) discard_limit,
        heartbeat := None\<rparr>,
      w_stat w (WorkerPingReceived time))"

definition get_join_handle :: "('k, 'm) worker \<Rightarrow> bool \<times> ('k, 'm) worker" where
  "get_join_handle w = (w_handle w, w\<lparr>w_handle := False\<rparr>)"

definition set_draining :: "bool \<Rightarrow> ('k, 'm) worker \<Rightarrow> ('k, 'm) worker" where
  "set_draining b w = w\<lparr>is_draining := b\<rparr>"

section \<open>What operations leave alone\<close>

definition w_frame :: "('k, 'm) worker \<Rightarrow> ('k, 'm) worker" where
  "w_frame w = w\<lparr>message_queue := [], curr_jobs := [], pending_key_counts := []\<rparr>"

lemma w_frameD:
  assumes "w_frame w = w_frame w'"
  shows "wid w = wid w'" "w_actor w = w_actor w'" "w_factory_name w = w_factory_name w'"
    "w_handle w = w_handle w'" "w_discard_settings w = w_discard_settings w'"
    "w_discard_handler w = w_discard_handler w'" "heartbeat w = heartbeat w'"
    "w_stats w = w_stats w'" "is_draining w = is_draining w'"
  using arg_cong [OF assms, of wid]
    arg_cong [OF assms, of w_actor]
    arg_cong [OF assms, of w_factory_name]
    arg_cong [OF assms, of w_handle]
    arg_cong [OF assms, of w_discard_settings]
    arg_cong [OF assms, of w_discard_handler]
    arg_cong [OF assms, of heartbeat]
    arg_cong [OF assms, of w_stats]
    arg_cong [OF assms, of is_draining]
  by (simp_all add: w_frame_def)

lemma w_frame_updates [simp]:
  "w_frame (w\<lparr>message_queue := q\<rparr>) = w_frame w"
  "w_frame (w\<lparr>curr_jobs := cj\<rparr>) = w_frame w"
  "w_frame (w\<lparr>pending_key_counts := pk\<rparr>) = w_frame w"
  by (simp_all add: w_frame_def)

lemma track_frame [simp]:
  "w_frame (track_pending_key k w) = w_frame w"
  "message_queue (track_pending_key k w) = message_queue w"
  "curr_jobs (track_pending_key k w) = curr_jobs w"
  by (simp_all add: track_pending_key_def Let_def)

lemma untrack_frame [simp]:
  "w_frame (untrack_pending_key k w) = w_frame w"
  "curr_jobs (untrack_pending_key k w) = curr_jobs w"
  by (simp_all add: untrack_pending_key_def split: option.splits)

lemmas track_fields [simp] = w_frameD [OF track_frame(1)]
lemmas untrack_fields [simp] = w_frameD [OF untrack_frame(1)]

lemma get_next_loop_frame:
  assumes "get_next_loop c w q = (r, w', es)"
  shows "w_frame w' = w_frame w \<and> curr_jobs w' = curr_jobs w"
  using assms
proof (induction q arbitrary: w r w' es)
  case (Cons j q)
  show ?case
  proof (cases "is_expired c j")
    case True
    obtain r2 w2 es2 where eq: "get_next_loop c (untrack_pending_key (job_key j) w) q = (r2, w2, es2)"
      by (metis prod_cases3)
    with Cons.IH [OF eq] Cons.prems True show ?thesis
      by (auto simp: Let_def split: prod.splits)
  next
    case False
    with Cons.prems show ?thesis by auto
  qed
qed auto

lemma get_next_frame:
  assumes "get_next_non_expired_job c w = (r, w', es)"
  shows "w_frame w' = w_frame w" "curr_jobs w' = curr_jobs w"
  using get_next_loop_frame assms unfolding get_next_non_expired_job_def by blast+

lemma dispatch_job_frame: "w_frame (fst (dispatch_job e j w)) = w_frame w"
  by (simp add: dispatch_job_def Let_def split: send_outcome.splits)

lemma shed_step_frame:
  "w_frame (fst (shed_step c w)) = w_frame w \<and> curr_jobs (fst (shed_step c w)) = curr_jobs w"
proof -
  obtain r w1 es where g: "get_next_non_expired_job c w = (r, w1, es)"
    by (metis prod_cases3)
  then show ?thesis
    using get_next_frame [OF g]
    by (auto simp: shed_step_def Let_def split: option.splits prod.splits)
qed

text \<open>The loop rule: what every turn keeps, the loop keeps.\<close>

lemma shed_oldest_rule:
  assumes "P w" and "\<And>w. P w \<Longrightarrow> limit < length (message_queue w) \<Longrightarrow> P (fst (shed_step c w))"
  shows "P (fst (shed_oldest c limit w))"
  using assms
proof (induction c limit w rule: shed_oldest.induct)
  case (1 c limit w)
  show ?case
  proof (cases "length (message_queue w) > limit")
    case True
    obtain w1 es1 where s: "shed_step c w = (w1, es1)" by force
    with 1(2,3) True have "P w1" by (metis fst_conv)
    with 1(1) [OF True s [symmetric] refl] 1(3) have "P (fst (shed_oldest c limit w1))" by blast
    with s True show ?thesis
      by (auto simp: shed_oldest.simps [of c limit w] split: prod.splits)
  next
    case False
    with 1(2) show ?thesis by (simp add: shed_oldest.simps [of c limit w])
  qed
qed

lemma shed_oldest_frame:
  "w_frame (fst (shed_oldest c limit w)) = w_frame w \<and> curr_jobs (fst (shed_oldest c limit w)) = curr_jobs w"
  by (rule shed_oldest_rule) (simp_all add: shed_step_frame)

lemma shed_oldest_length: "length (message_queue (fst (shed_oldest c limit w))) \<le> limit"
proof (induction c limit w rule: shed_oldest.induct)
  case (1 c limit w)
  then show ?case
    by (auto simp: shed_oldest.simps [of c limit w] split: prod.splits)
qed

section \<open>Accounting of pending keys\<close>

definition pending :: "('k, 'm) worker \<Rightarrow> 'k \<Rightarrow> nat" where
  "pending w k = (case hm_get (pending_key_counts w) k of None \<Rightarrow> 0 | Some n \<Rightarrow> n)"

definition counts_wf :: "('k, 'm) worker \<Rightarrow> bool" where
  "counts_wf w \<longleftrightarrow>
     hm_wf (pending_key_counts w) \<and> (\<forall>k. hm_get (pending_key_counts w) k \<noteq> Some 0)"

text \<open>
  \<open>balanced X w\<close>: the worker's maps are maps, it works on one job at most, and its count of a
  key is the number of queued jobs with that key, plus one if it works on it, plus the jobs
  \<open>X\<close> in the hand of the operation that runs.
\<close>

definition balanced :: "'k multiset \<Rightarrow> ('k, 'm) worker \<Rightarrow> bool" where
  "balanced X w \<longleftrightarrow>
     hm_wf (curr_jobs w) \<and> length (curr_jobs w) \<le> 1 \<and> counts_wf w \<and>
     (\<forall>k. pending w k = count_list (map job_key (message_queue w)) k +
                        (if is_processing_key w k then 1 else 0) + count X k)"

definition worker_inv :: "('k, 'm) worker \<Rightarrow> bool" where
  "worker_inv w \<longleftrightarrow> balanced {#} w"

lemma pending_updates [simp]:
  "pending (w\<lparr>message_queue := q\<rparr>) k = pending w k"
  "pending (w\<lparr>curr_jobs := cj\<rparr>) k = pending w k"
  by (simp_all add: pending_def)

lemma pending_track [simp]:
  "pending (track_pending_key k w) k' = pending w k' + (if k' = k then 1 else 0)"
  by (auto simp: pending_def track_pending_key_def Let_def split: option.splits)

lemma pending_untrack [simp]:
  "pending (untrack_pending_key k w) k' = pending w k' - (if k' = k then 1 else 0)"
  by (auto simp: pending_def untrack_pending_key_def split: option.splits)

lemma counts_wf_pos:
  assumes "counts_wf w" and "hm_get (pending_key_counts w) k = Some n"
  shows "0 < n"
proof -
  from assms(1) have "hm_get (pending_key_counts w) k \<noteq> Some 0" by (simp add: counts_wf_def)
  with assms(2) show ?thesis by simp
qed

lemma counts_wf_track [simp]: "counts_wf w \<Longrightarrow> counts_wf (track_pending_key k w)"
  by (simp add: counts_wf_def track_pending_key_def Let_def)

lemma counts_wf_untrack [simp]:
  assumes "counts_wf w"
  shows "counts_wf (untrack_pending_key k w)"
proof (cases "hm_get (pending_key_counts w) k")
  case (Some n)
  with assms counts_wf_pos [OF assms Some] show ?thesis by (simp add: counts_wf_def untrack_pending_key_def)
qed (simp add: assms untrack_pending_key_def)

lemma queue_curr_indep [simp]:
  "counts_wf (w\<lparr>message_queue := q\<rparr>) = counts_wf w"
  "counts_wf (w\<lparr>curr_jobs := cj\<rparr>) = counts_wf w"
  "is_processing_key (w\<lparr>message_queue := q\<rparr>) k = is_processing_key w k"
  "is_processing_key (track_pending_key k' w) k = is_processing_key w k"
  "is_processing_key (untrack_pending_key k' w) k = is_processing_key w k"
  by (simp_all add: counts_wf_def is_processing_key_def)

lemma untrack_message_queue:
  "untrack_pending_key k (w\<lparr>message_queue := q\<rparr>) = (untrack_pending_key k w)\<lparr>message_queue := q\<rparr>"
  by (simp add: untrack_pending_key_def split: option.splits)

lemma balanced_track: "balanced X w \<Longrightarrow> balanced (add_mset k X) (track_pending_key k w)"
  by (simp add: balanced_def)

lemma balanced_untrack: "balanced (add_mset k X) w \<Longrightarrow> balanced X (untrack_pending_key k w)"
  by (simp add: balanced_def)

lemma balanced_pop:
  "balanced X (w\<lparr>message_queue := j # q\<rparr>) \<longleftrightarrow> balanced (add_mset (job_key j) X) (w\<lparr>message_queue := q\<rparr>)"
  by (auto simp: balanced_def)

lemma balanced_push_back:
  "balanced X (w\<lparr>message_queue := q @ [j]\<rparr>) \<longleftrightarrow> balanced (add_mset (job_key j) X) (w\<lparr>message_queue := q\<rparr>)"
  by (auto simp: balanced_def)

lemma balanced_start:
  "curr_jobs w = [] \<Longrightarrow> balanced (add_mset k X) w \<Longrightarrow> balanced X (w\<lparr>curr_jobs := [(k, opts)]\<rparr>)"
  by (auto simp: balanced_def is_processing_key_def)

lemma balanced_finish:
  assumes "balanced X w" and "hm_get (curr_jobs w) k = Some opts"
  shows "curr_jobs w = [(k, opts)]" "balanced (add_mset k X) (w\<lparr>curr_jobs := []\<rparr>)"
proof -
  from assms show c: "curr_jobs w = [(k, opts)]"
    by (cases "curr_jobs w") (auto simp: balanced_def split: if_splits)
  from assms c show "balanced (add_mset k X) (w\<lparr>curr_jobs := []\<rparr>)"
    by (auto simp: balanced_def is_processing_key_def)
qed

definition in_hand :: "('k, 'm) job option \<Rightarrow> 'k multiset" where
  "in_hand r = (case r of None \<Rightarrow> {#} | Some j \<Rightarrow> {#job_key j#})"

lemma in_hand_simps [simp]: "in_hand None = {#}" "in_hand (Some j) = {#job_key j#}"
  by (simp_all add: in_hand_def)

lemma get_next_loop_balanced:
  assumes "get_next_loop c w q = (r, w', es)" and "balanced X (w\<lparr>message_queue := q\<rparr>)"
  shows "balanced (in_hand r + X) w'"
  using assms
proof (induction q arbitrary: w r w' es)
  case (Cons j q)
  show ?case
  proof (cases "is_expired c j")
    case True
    obtain r2 w2 es2 where eq: "get_next_loop c (untrack_pending_key (job_key j) w) q = (r2, w2, es2)"
      by (metis prod_cases3)
    from Cons.prems(2) have "balanced X ((untrack_pending_key (job_key j) w)\<lparr>message_queue := q\<rparr>)"
      by (metis balanced_pop balanced_untrack untrack_message_queue)
    from Cons.IH [OF eq this] Cons.prems(1) True eq show ?thesis
      by (auto simp: Let_def split: prod.splits)
  next
    case False
    with Cons.prems show ?thesis by (auto simp: balanced_pop)
  qed
qed auto

lemma get_next_balanced:
  assumes "get_next_non_expired_job c w = (r, w', es)" and "balanced X w"
  shows "balanced (in_hand r + X) w'"
  using get_next_loop_balanced assms unfolding get_next_non_expired_job_def by fastforce

lemma job_key_set_worker_time [simp]: "job_key (set_worker_time c j) = job_key j"
  by (simp add: set_worker_time_def)

lemma dispatch_job_balanced:
  assumes "balanced (add_mset (job_key j) X) w" and "curr_jobs w = []"
  shows "balanced X (fst (dispatch_job e j w))"
  using assms balanced_pop [where j = "set_worker_time (env_clock e) j" and q = "message_queue w" and w = w and X = X]
  by (auto simp: dispatch_job_def Let_def balanced_start balanced_untrack split: send_outcome.splits)

lemma shed_step_balanced: "balanced X w \<Longrightarrow> balanced X (fst (shed_step c w))"
  by (auto simp: shed_step_def Let_def dest!: get_next_balanced intro: balanced_untrack
      split: prod.splits option.splits)

lemma shed_oldest_balanced: "balanced X w \<Longrightarrow> balanced X (fst (shed_oldest c limit w))"
  by (rule shed_oldest_rule) (simp_all add: shed_step_balanced)

text \<open>The ways through \<open>dispatch_next\<close> and \<open>enqueue_job\<close>, as case rules.\<close>

lemma dispatch_next_cases:
  obtains (none) w1 es where "get_next_non_expired_job (env_clock e) w = (None, w1, es)"
      and "dispatch_next e w = (w1, es)"
  | (some) j w1 es where "get_next_non_expired_job (env_clock e) w = (Some j, w1, es)"
      and "dispatch_next e w = (fst (dispatch_job e j w1), es @ snd (dispatch_job e j w1))"
  by (cases "get_next_non_expired_job (env_clock e) w"; cases "fst (get_next_non_expired_job (env_clock e) w)")
    (auto simp: dispatch_next_def case_prod_beta)

lemma job_key_accept [simp]: "job_key (fst (accept j)) = job_key j"
  by (simp add: accept_def split: option.splits)

lemma enqueue_accepted_cases:
  obtains (older) old w1 es d where
      "curr_jobs w = []" "get_next_non_expired_job (env_clock e) w = (Some old, w1, es)"
      "d = dispatch_job e old (w1\<lparr>message_queue := message_queue w1 @ [j]\<rparr>)"
      "enqueue_accepted e j w = (fst d, es @ snd d)"
  | (direct) w1 es d where
      "curr_jobs w = []" "get_next_non_expired_job (env_clock e) w = (None, w1, es)"
      "d = dispatch_job e j w1"
      "enqueue_accepted e j w = (fst d, es @ snd d)"
  | (push) "curr_jobs w \<noteq> []"
      "\<forall>limit. worker_limit_and_mode (w_discard_settings w) \<noteq> Some (limit, Oldest)"
      "enqueue_accepted e j w = (w\<lparr>message_queue := message_queue w @ [j]\<rparr>, [])"
  | (shed) limit where "curr_jobs w \<noteq> []"
      "worker_limit_and_mode (w_discard_settings w) = Some (limit, Oldest)"
      "enqueue_accepted e j w =
         shed_oldest (env_clock e) limit (w\<lparr>message_queue := message_queue w @ [j]\<rparr>)"
proof (cases "curr_jobs w = []")
  case True
  obtain r w1 es where g: "get_next_non_expired_job (env_clock e) w = (r, w1, es)"
    by (metis prod_cases3)
  with True show thesis
    by (cases r) (auto simp: enqueue_accepted_def case_prod_beta intro: direct older)
next
  case False
  then show thesis
  proof (cases "\<exists>l. worker_limit_and_mode (w_discard_settings w) = Some (l, Oldest)")
    case True
    then obtain l where l: "worker_limit_and_mode (w_discard_settings w) = Some (l, Oldest)" ..
    show thesis by (rule shed [OF False l]) (simp add: enqueue_accepted_def Let_def False l)
  next
    case no: False
    then have "\<forall>l. worker_limit_and_mode (w_discard_settings w) \<noteq> Some (l, Oldest)" by blast
    moreover from this have "enqueue_accepted e j w = (w\<lparr>message_queue := message_queue w @ [j]\<rparr>, [])"
      by (simp add: enqueue_accepted_def Let_def False split: option.splits discard_mode.splits)
    ultimately show thesis by (rule push [OF False])
  qed
qed

lemma dispatch_next_balanced:
  assumes "balanced X w" and "curr_jobs w = []"
  shows "balanced X (fst (dispatch_next e w))"
proof (cases rule: dispatch_next_cases [of e w])
  case (none w1 es)
  then show ?thesis using get_next_balanced [OF none(1) assms(1)] by simp
next
  case (some j w1 es)
  then show ?thesis
    using get_next_balanced [OF some(1) assms(1)] get_next_frame [OF some(1)] assms(2)
    by (simp add: dispatch_job_balanced)
qed

lemma dispatch_next_frame: "w_frame (fst (dispatch_next e w)) = w_frame w"
  by (cases rule: dispatch_next_cases [of e w])
    (simp_all add: get_next_frame(1) dispatch_job_frame)

lemma enqueue_accepted_frame: "w_frame (fst (enqueue_accepted e j w)) = w_frame w"
  by (cases rule: enqueue_accepted_cases [of w e j])
    (simp_all add: get_next_frame(1) dispatch_job_frame shed_oldest_frame)

lemma enqueue_job_frame: "w_frame (fst (enqueue_job e j w)) = w_frame w"
  by (simp add: enqueue_job_def Let_def case_prod_beta enqueue_accepted_frame)

lemma worker_complete_frame: "w_frame (fst (snd (worker_complete e k w))) = w_frame w"
  by (simp add: worker_complete_def dispatch_next_frame split: option.splits)

lemmas enqueue_job_fields [simp] = w_frameD [OF enqueue_job_frame]
lemmas worker_complete_fields [simp] = w_frameD [OF worker_complete_frame]
lemmas dispatch_next_fields [simp] = w_frameD [OF dispatch_next_frame]

lemma enqueue_accepted_balanced:
  assumes "balanced (add_mset (job_key j) X) w"
  shows "balanced X (fst (enqueue_accepted e j w))"
proof -
  have q: "balanced X (w\<lparr>message_queue := message_queue w @ [j]\<rparr>)"
    using assms balanced_push_back [where q = "message_queue w" and w = w] by fastforce
  show ?thesis
  proof (cases rule: enqueue_accepted_cases [of w e j])
    case (older old w1 es d)
    have "balanced (add_mset (job_key old) X) (w1\<lparr>message_queue := message_queue w1 @ [j]\<rparr>)"
      using get_next_balanced [OF older(2) assms] by (simp add: balanced_push_back add_mset_commute)
    then show ?thesis
      using older get_next_frame [OF older(2)] by (simp add: dispatch_job_balanced)
  next
    case (direct w1 es d)
    then show ?thesis
      using get_next_balanced [OF direct(2) assms] get_next_frame [OF direct(2)]
      by (simp add: dispatch_job_balanced)
  qed (simp_all add: q shed_oldest_balanced)
qed

lemma enqueue_job_balanced: "balanced X w \<Longrightarrow> balanced X (fst (enqueue_job e j w))"
  by (simp add: enqueue_job_def Let_def case_prod_beta enqueue_accepted_balanced balanced_track)

lemma untrack_all_balanced:
  "balanced (mset ks + X) w \<Longrightarrow> balanced X (untrack_all ks w)"
  by (induction ks arbitrary: w) (auto simp: untrack_all_def dest: balanced_untrack)

lemma worker_complete_balanced:
  assumes "balanced X w"
  shows "balanced X (fst (snd (worker_complete e k w)))"
proof (cases "hm_get (curr_jobs w) k")
  case (Some opts)
  with balanced_finish [OF assms Some] show ?thesis
    by (simp add: worker_complete_def dispatch_next_balanced balanced_untrack)
qed (simp add: worker_complete_def assms)

lemma balanced_cong:
  assumes "curr_jobs w = curr_jobs w'" "message_queue w = message_queue w'"
    "pending_key_counts w = pending_key_counts w'"
  shows "balanced X w \<longleftrightarrow> balanced X w'"
  using assms by (simp add: balanced_def counts_wf_def pending_def is_processing_key_def)

lemma untrack_all_frame [simp]:
  "w_frame (untrack_all ks w) = w_frame w" "curr_jobs (untrack_all ks w) = curr_jobs w"
  "message_queue (untrack_all ks w) = message_queue w"
  by (induction ks arbitrary: w) (simp_all add: untrack_all_def)

lemmas untrack_all_fields [simp] = w_frameD [OF untrack_all_frame(1)]

lemma replace_worker_balanced:
  assumes "balanced X w"
  shows "balanced X (fst (replace_worker e a w))"
proof -
  have "balanced (mset (hm_keys (curr_jobs w)) + X) (w\<lparr>curr_jobs := []\<rparr>)"
  proof (cases "curr_jobs w")
    case Nil
    then have "w\<lparr>curr_jobs := []\<rparr> = w" by (cases w) simp
    then show ?thesis by (simp only: Nil list.map mset.simps add_0 assms)
  next
    case (Cons p ps)
    with assms have "curr_jobs w = [p]" by (auto simp: balanced_def)
    with balanced_finish(2) [OF assms, of "fst p" "snd p"] show ?thesis by simp
  qed
  then have "balanced (mset (hm_keys (curr_jobs w)) + X) (w\<lparr>heartbeat := None, curr_jobs := []\<rparr>)"
    by (rule balanced_cong [THEN iffD1, rotated -1]) simp_all
  from untrack_all_balanced [OF this]
  have "balanced X (untrack_all (hm_keys (curr_jobs w)) (w\<lparr>heartbeat := None, curr_jobs := []\<rparr>)\<lparr>w_actor := a, w_handle := True\<rparr>)"
    by (rule balanced_cong [THEN iffD1, rotated -1]) simp_all
  then show ?thesis
    unfolding replace_worker_def Let_def by (rule dispatch_next_balanced) simp
qed

section \<open>Conservation and order of jobs\<close>

fun dispatched_by :: "('k, 'm) effect \<Rightarrow> ('k \<times> 'm) list" where
  "dispatched_by (CastWorker a (DispatchJob j)) = [tag j]"
| "dispatched_by _ = []"

definition dispatched :: "('k, 'm) effect list \<Rightarrow> ('k \<times> 'm) list" where
  "dispatched es = concat (map dispatched_by es)"

lemma dispatched_simps [simp]:
  "dispatched [] = []" "dispatched (x # es) = dispatched_by x @ dispatched es"
  "dispatched (es @ es') = dispatched es @ dispatched es'"
  by (simp_all add: dispatched_def)

lemma dispatched_others [simp]:
  "dispatched (stat s name call) = []" "dispatched (snd (accept j)) = []" "dispatched (reject j) = []"
  "dispatched (snd (call_discard h r j)) = []" "dispatched (w_stat w call) = []"
  by (simp_all add: w_stat_def stat_def accept_def reject_def call_discard_def split: option.splits)

lemma jobs_out_w_stat [simp]: "jobs_out (w_stat w call) = {#}"
  by (simp add: w_stat_def)

definition opt_tags :: "('k, 'm) job option \<Rightarrow> ('k \<times> 'm) list" where
  "opt_tags r = (case r of None \<Rightarrow> [] | Some j \<Rightarrow> [tag j])"

lemma opt_tags_simps [simp]: "opt_tags None = []" "opt_tags (Some j) = [tag j]"
  by (simp_all add: opt_tags_def)

lemma get_next_loop_jobs:
  assumes "get_next_loop c w q = (r, w', es)"
  shows "map tag (dropWhile (is_expired c) q) = opt_tags r @ map tag (message_queue w') \<and>
    dispatched es = [] \<and>
    (handler_keeps (w_discard_handler w) \<longrightarrow> jobs_out es = tags (takeWhile (is_expired c) q))"
  using assms
proof (induction q arbitrary: w r w' es)
  case (Cons j q)
  let ?w1 = "untrack_pending_key (job_key j) w"
  obtain r2 w2 es2 where eq: "get_next_loop c ?w1 q = (r2, w2, es2)"
    by (metis prod_cases3)
  have h: "w_discard_handler ?w1 = w_discard_handler w"
    by (rule w_frameD) simp
  show ?case
    using Cons.IH [OF eq] Cons.prems h
    by (cases "is_expired c j") (auto simp: eq Let_def case_prod_beta)
qed auto

lemma get_next_jobs:
  assumes "get_next_non_expired_job c w = (r, w', es)"
  shows "opt_tags r @ map tag (message_queue w') = map tag (dropWhile (is_expired c) (message_queue w))"
    and "dispatched es = []"
    and "handler_keeps (w_discard_handler w) \<Longrightarrow>
      mset (opt_tags r) + tags (message_queue w') + jobs_out es = tags (message_queue w)"
proof -
  note g = get_next_loop_jobs [OF assms [unfolded get_next_non_expired_job_def]]
  then show *: "opt_tags r @ map tag (message_queue w') = map tag (dropWhile (is_expired c) (message_queue w))"
    and "dispatched es = []" by simp_all
  assume "handler_keeps (w_discard_handler w)"
  with g have "jobs_out es = tags (takeWhile (is_expired c) (message_queue w))" by simp
  moreover have "mset (opt_tags r) + tags (message_queue w') = tags (dropWhile (is_expired c) (message_queue w))"
    using arg_cong [OF *, of mset] by (simp add: tags_def)
  ultimately show "mset (opt_tags r) + tags (message_queue w') + jobs_out es = tags (message_queue w)"
    by (metis add.commute tags_simps(3) takeWhile_dropWhile_id)
qed

lemma get_next_none_empty:
  "get_next_non_expired_job c w = (None, w', es) \<Longrightarrow> message_queue w' = []"
proof -
  have "get_next_loop c w q = (None, w', es) \<Longrightarrow> message_queue w' = []" for q
    by (induction q arbitrary: w es) (auto simp: Let_def split: if_splits prod.splits)
  then show "get_next_non_expired_job c w = (None, w', es) \<Longrightarrow> message_queue w' = []"
    by (simp add: get_next_non_expired_job_def)
qed

lemma subseq_dropWhile: "subseq (dropWhile P xs) xs"
  by (metis list_emb_append2 subseq_order.refl takeWhile_dropWhile_id)

lemma get_next_order:
  assumes "get_next_non_expired_job c w = (r, w', es)"
  shows "subseq (opt_tags r @ map tag (message_queue w')) (map tag (message_queue w))"
  by (simp add: get_next_jobs(1) [OF assms] subseq_map subseq_dropWhile)

text \<open>What a dispatch does with the job in hand.\<close>

lemma dispatch_job_order:
  "subseq (dispatched (snd (dispatch_job e j w)) @ map tag (message_queue (fst (dispatch_job e j w))))
     (tag j # map tag (message_queue w))"
  by (auto simp: dispatch_job_def Let_def split: send_outcome.splits)

lemma dispatch_job_jobs:
  "tags (message_queue (fst (dispatch_job e j w))) + jobs_out (snd (dispatch_job e j w)) =
   {#tag j#} + tags (message_queue w)"
  by (simp add: dispatch_job_def Let_def split: send_outcome.splits)

lemma mset_swap: "A + B = (C :: 'a multiset) \<Longrightarrow> A + (D + B) = C + D"
  by (metis add.assoc add.commute)

lemma shed_step_jobs:
  assumes "handler_keeps (w_discard_handler w)"
  shows "tags (message_queue (fst (shed_step c w))) + jobs_out (snd (shed_step c w)) = tags (message_queue w)"
proof -
  obtain r w1 es where g: "get_next_non_expired_job c w = (r, w1, es)"
    by (metis prod_cases3)
  moreover from w_frameD(6) [OF get_next_frame(1) [OF g]] assms
  have "handler_keeps (w_discard_handler (untrack_pending_key k w1))" for k
    by (metis untrack_frame(1) w_frameD(6))
  ultimately show ?thesis
    using get_next_jobs(3) [OF g assms]
    by (cases r) (auto simp: shed_step_def Let_def case_prod_beta ac_simps)
qed

lemma shed_step_order:
  "dispatched (snd (shed_step c w)) = []"
  "subseq (map tag (message_queue (fst (shed_step c w)))) (map tag (message_queue w))"
proof -
  obtain r w1 es where g: "get_next_non_expired_job c w = (r, w1, es)"
    by (metis prod_cases3)
  then show "dispatched (snd (shed_step c w)) = []"
    using get_next_jobs(2) [OF g] by (cases r) (auto simp: shed_step_def Let_def case_prod_beta)
  have "subseq (map tag (message_queue w1)) (map tag (message_queue w))"
    using get_next_order [OF g] by (cases r) (auto dest: subseq_Cons')
  then show "subseq (map tag (message_queue (fst (shed_step c w)))) (map tag (message_queue w))"
    using g by (cases r) (auto simp: shed_step_def Let_def case_prod_beta)
qed

lemma shed_oldest_order:
  "dispatched (snd (shed_oldest c limit w)) = [] \<and>
   subseq (map tag (message_queue (fst (shed_oldest c limit w)))) (map tag (message_queue w))"
proof (induction c limit w rule: shed_oldest.induct)
  case (1 c limit w)
  obtain w1 es1 where s: "shed_step c w = (w1, es1)" by force
  show ?case
  proof (cases "limit < length (message_queue w)")
    case True
    from 1 [OF True s [symmetric] refl] show ?thesis
      using shed_step_order [of c w] s True
      by (auto simp: shed_oldest.simps [of c limit w] case_prod_beta intro: subseq_order.trans)
  qed (simp add: shed_oldest.simps [of c limit w])
qed

lemma shed_oldest_jobs:
  assumes "handler_keeps (w_discard_handler w)"
  shows "tags (message_queue (fst (shed_oldest c limit w))) + jobs_out (snd (shed_oldest c limit w)) =
    tags (message_queue w)"
  using assms
proof (induction c limit w rule: shed_oldest.induct)
  case (1 c limit w)
  obtain w1 es1 where s: "shed_step c w = (w1, es1)" by force
  show ?case
  proof (cases "limit < length (message_queue w)")
    case True
    have "w_frame w1 = w_frame w" using shed_step_frame [of c w] s by simp
    from w_frameD(6) [OF this] 1(2) have "handler_keeps (w_discard_handler w1)" by simp
    note ih = 1(1) [OF True s [symmetric] refl this]
    show ?thesis
      using shed_step_jobs [OF 1(2), of c] s True
      by (simp add: shed_oldest.simps [of c limit w] case_prod_beta mset_swap [OF ih])
  qed (simp add: shed_oldest.simps [of c limit w])
qed

lemma dispatch_next_order:
  "subseq (dispatched (snd (dispatch_next e w)) @ map tag (message_queue (fst (dispatch_next e w))))
     (map tag (message_queue w))"
proof (cases rule: dispatch_next_cases [of e w])
  case (none w1 es)
  then show ?thesis using get_next_jobs(2) [OF none(1)] get_next_order [OF none(1)] by simp
next
  case (some j w1 es)
  then show ?thesis
    using get_next_jobs(2) [OF some(1)] get_next_order [OF some(1)] dispatch_job_order [of e j w1]
    by (auto intro: subseq_order.trans)
qed

lemma dispatch_next_jobs:
  assumes "handler_keeps (w_discard_handler w)"
  shows "tags (message_queue (fst (dispatch_next e w))) + jobs_out (snd (dispatch_next e w)) =
    tags (message_queue w)"
proof (cases rule: dispatch_next_cases [of e w])
  case (none w1 es)
  then show ?thesis using get_next_jobs(3) [OF none(1) assms] by simp
next
  case (some j w1 es)
  then show ?thesis
    using get_next_jobs(3) [OF some(1) assms]
    by (simp add: mset_swap [OF dispatch_job_jobs])
qed

lemma enqueue_accepted_order:
  "subseq (dispatched (snd (enqueue_accepted e j w)) @ map tag (message_queue (fst (enqueue_accepted e j w))))
     (map tag (message_queue w) @ [tag j])"
proof (cases rule: enqueue_accepted_cases [of w e j])
  case (older old w1 es d)
  have "subseq (tag old # map tag (message_queue w1) @ [tag j]) (map tag (message_queue w) @ [tag j])"
    using list_emb_append_mono [OF get_next_order [OF older(2)], of "[tag j]" "[tag j]"] by simp
  then show ?thesis
    using older get_next_jobs(2) [OF older(2)]
      dispatch_job_order [of e old "w1\<lparr>message_queue := message_queue w1 @ [j]\<rparr>"]
    by (auto intro: subseq_order.trans)
next
  case (direct w1 es d)
  have "message_queue w1 = []"
    using get_next_order [OF direct(2)] get_next_jobs(1) [OF direct(2)] direct(2)
    by (auto simp: get_next_none_empty)
  then show ?thesis
    using direct get_next_jobs(2) [OF direct(2)] dispatch_job_order [of e j w1]
    by (auto intro: subseq_order.trans)
next
  case (shed limit)
  then show ?thesis
    using shed_oldest_order [of "env_clock e" limit "w\<lparr>message_queue := message_queue w @ [j]\<rparr>"]
    by simp
qed simp

lemma enqueue_accepted_jobs:
  assumes "handler_keeps (w_discard_handler w)"
  shows "tags (message_queue (fst (enqueue_accepted e j w))) + jobs_out (snd (enqueue_accepted e j w)) =
    add_mset (tag j) (tags (message_queue w))"
proof (cases rule: enqueue_accepted_cases [of w e j])
  case (older old w1 es d)
  show ?thesis
    using get_next_jobs(3) [OF older(2) assms] older(4)
    by (simp add: older(3) mset_swap [OF dispatch_job_jobs])
next
  case (direct w1 es d)
  show ?thesis
    using get_next_jobs(3) [OF direct(2) assms] direct(4)
    by (simp add: direct(3) mset_swap [OF dispatch_job_jobs])
next
  case (shed limit)
  then show ?thesis
    using assms by (simp add: shed_oldest_jobs)
qed simp

section \<open>Sequences of operations\<close>

text \<open>
  What the factory does to a worker, one operation at a time, each with the inputs of the
  moment: the calls of \<open>WorkerProperties\<close> in \<open>factoryimpl.rs\<close> and \<open>routing.rs\<close>.
\<close>

datatype ('k, 'm) worker_event =
    EnqueueJob "('k, 'm) job"
  | WorkerComplete 'k
  | ReplaceWorker actor_id
  | SendPing
  | PingReceived duration nat
  | SetDraining bool

primrec worker_step ::
    "('k, 'm) env \<Rightarrow> ('k, 'm) worker_event \<Rightarrow> ('k, 'm) worker \<Rightarrow> ('k, 'm) worker \<times> ('k, 'm) effect list"
  where
  "worker_step e (EnqueueJob j) w = enqueue_job e j w"
| "worker_step e (WorkerComplete k) w = snd (worker_complete e k w)"
| "worker_step e (ReplaceWorker a) w = replace_worker e a w"
| "worker_step e SendPing w = send_factory_ping e w"
| "worker_step e (PingReceived t l) w = ping_received t l w"
| "worker_step e (SetDraining b) w = (set_draining b w, [])"

primrec worker_run ::
    "(('k, 'm) env \<times> ('k, 'm) worker_event) list \<Rightarrow> ('k, 'm) worker \<Rightarrow>
     ('k, 'm) worker \<times> ('k, 'm) effect list" where
  "worker_run [] w = (w, [])"
| "worker_run (x # xs) w =
     (let (w1, es1) = worker_step (fst x) (snd x) w; (w2, es2) = worker_run xs w1 in (w2, es1 @ es2))"

fun submitted_by :: "('k, 'm) worker_event \<Rightarrow> ('k \<times> 'm) list" where
  "submitted_by (EnqueueJob j) = [tag j]"
| "submitted_by _ = []"

definition submitted :: "(('k, 'm) env \<times> ('k, 'm) worker_event) list \<Rightarrow> ('k \<times> 'm) list" where
  "submitted evs = concat (map (submitted_by \<circ> snd) evs)"

lemma submitted_simps [simp]:
  "submitted [] = []" "submitted (x # xs) = submitted_by (snd x) @ submitted xs"
  by (simp_all add: submitted_def)

lemma worker_step_balanced: "balanced X w \<Longrightarrow> balanced X (fst (worker_step e ev w))"
proof (cases ev)
  case SendPing
  assume "balanced X w"
  then show ?thesis
    using SendPing balanced_cong [of "fst (send_factory_ping e w)" w X]
    by (simp add: send_factory_ping_def Let_def split: send_outcome.splits)
next
  case (PingReceived t l)
  assume "balanced X w"
  then show ?thesis
    using PingReceived balanced_cong [of "fst (ping_received t l w)" w X] by (simp add: ping_received_def)
next
  case (SetDraining b)
  assume "balanced X w"
  then show ?thesis
    using SetDraining balanced_cong [of "set_draining b w" w X] by (simp add: set_draining_def)
qed (simp_all add: enqueue_job_balanced worker_complete_balanced replace_worker_balanced)

lemma worker_run_balanced: "balanced X w \<Longrightarrow> balanced X (fst (worker_run evs w))"
  by (induction evs arbitrary: w) (simp_all add: case_prod_beta Let_def worker_step_balanced)

lemma worker_new_balanced: "balanced {#} (worker_new name i a ds dh st)"
  by (simp add: balanced_def worker_new_def counts_wf_def pending_def is_processing_key_def)

lemma has_pending_key_pos: "counts_wf w \<Longrightarrow> has_pending_key w k \<longleftrightarrow> pending w k \<noteq> 0"
  by (cases "hm_get (pending_key_counts w) k")
    (simp_all add: counts_wf_pos has_pending_key_def pending_def)

lemma has_pending_key_iff:
  assumes "balanced X w"
  shows "has_pending_key w k \<longleftrightarrow>
    k \<in> job_key ` set (message_queue w) \<or> is_processing_key w k \<or> k \<in># X"
proof -
  from assms have "counts_wf w" by (simp add: balanced_def)
  moreover from assms have "pending w k = count_list (map job_key (message_queue w)) k +
      (if is_processing_key w k then 1 else 0) + count X k"
    by (simp add: balanced_def)
  ultimately show ?thesis
    by (simp add: has_pending_key_pos count_list_0_iff not_in_iff)
qed

lemma worker_step_fields [simp]:
  "w_discard_handler (fst (worker_step e ev w)) = w_discard_handler w"
  "wid (fst (worker_step e ev w)) = wid w"
  by (cases ev; simp add: replace_worker_def Let_def send_factory_ping_def ping_received_def
      set_draining_def split: send_outcome.splits)+

lemma worker_step_jobs:
  assumes "handler_keeps (w_discard_handler w)"
  shows "tags (message_queue (fst (worker_step e ev w))) + jobs_out (snd (worker_step e ev w)) =
    mset (submitted_by ev) + tags (message_queue w)"
proof (cases ev)
  case (EnqueueJob j)
  then show ?thesis
    using EnqueueJob assms
    by (simp add: enqueue_job_def case_prod_beta Let_def enqueue_accepted_jobs)
next
  case (WorkerComplete k)
  then show ?thesis
    using assms
    by (simp add: worker_complete_def dispatch_next_jobs split: option.splits)
next
  case (ReplaceWorker a)
  then show ?thesis
    using ReplaceWorker assms by (simp add: replace_worker_def Let_def dispatch_next_jobs)
qed (simp_all add: send_factory_ping_def ping_received_def set_draining_def Let_def split: send_outcome.splits)

lemma worker_step_order:
  "subseq (dispatched (snd (worker_step e ev w)) @ map tag (message_queue (fst (worker_step e ev w))))
     (map tag (message_queue w) @ submitted_by ev)"
proof (cases ev)
  case (EnqueueJob j)
  then show ?thesis
    using enqueue_accepted_order [of e "fst (accept j)" "track_pending_key (job_key j) w"]
    by (auto simp: enqueue_job_def case_prod_beta Let_def)
next
  case (WorkerComplete k)
  then show ?thesis
    using dispatch_next_order [of e "untrack_pending_key k (w\<lparr>curr_jobs := hm_remove k (curr_jobs w)\<rparr>)"]
    by (simp add: worker_complete_def split: option.splits)
next
  case (ReplaceWorker a)
  then show ?thesis
    using dispatch_next_order [of e "untrack_all (hm_keys (curr_jobs w)) (w\<lparr>heartbeat := None, curr_jobs := []\<rparr>)
        \<lparr>w_actor := a, w_handle := True\<rparr>"]
    by (simp add: replace_worker_def Let_def)
qed (simp_all add: send_factory_ping_def ping_received_def set_draining_def Let_def split: send_outcome.splits)

lemma mset_step: "A + B = C + D \<Longrightarrow> A + S + B = D + (C + S)" for A :: "'a multiset"
  by (metis add.assoc add.commute)

lemma worker_run_jobs:
  assumes "handler_keeps (w_discard_handler w)"
  shows "tags (message_queue (fst (worker_run evs w))) + jobs_out (snd (worker_run evs w)) =
    tags (message_queue w) + mset (submitted evs)"
  using assms
proof (induction evs arbitrary: w)
  case (Cons x evs)
  let ?s = "worker_step (fst x) (snd x) w"
  from Cons.IH [of "fst ?s"] Cons.prems
  have ih: "tags (message_queue (fst (worker_run evs (fst ?s)))) + jobs_out (snd (worker_run evs (fst ?s))) =
      tags (message_queue (fst ?s)) + mset (submitted evs)" by simp
  show ?case
    by (simp add: case_prod_beta Let_def mset_swap [OF ih] mset_step [OF worker_step_jobs [OF Cons.prems]])
qed simp

lemma worker_run_order:
  "subseq (dispatched (snd (worker_run evs w)) @ map tag (message_queue (fst (worker_run evs w))))
     (map tag (message_queue w) @ submitted evs)"
proof (induction evs arbitrary: w)
  case (Cons x evs)
  let ?s = "worker_step (fst x) (snd x) w"
  let ?r = "worker_run evs (fst ?s)"
  have "subseq (dispatched (snd ?s) @ dispatched (snd ?r) @ map tag (message_queue (fst ?r)))
      (dispatched (snd ?s) @ map tag (message_queue (fst ?s)) @ submitted evs)"
    using Cons.IH [of "fst ?s"] by (rule list_emb_append_mono [OF subseq_order.refl])
  also have "subseq (dispatched (snd ?s) @ map tag (message_queue (fst ?s)) @ submitted evs)
      ((map tag (message_queue w) @ submitted_by (snd x)) @ submitted evs)"
    using list_emb_append_mono [OF worker_step_order subseq_order.refl] by (metis append.assoc)
  finally show ?case by (simp add: case_prod_beta Let_def)
qed simp

section \<open>Work conservation and bounds\<close>

definition delivers :: "('k, 'm) env \<Rightarrow> bool" where
  "delivers e \<longleftrightarrow> env_deliver e = (\<lambda>a msg. SendOk)"

definition work_conserving :: "('k, 'm) worker \<Rightarrow> bool" where
  "work_conserving w \<longleftrightarrow> curr_jobs w \<noteq> [] \<or> message_queue w = []"

lemma hm_insert_not_Nil [simp]: "hm_insert k v m \<noteq> []"
  by (cases m) auto

lemma dispatch_job_delivered:
  "delivers e \<Longrightarrow> curr_jobs (fst (dispatch_job e j w)) \<noteq> [] \<and>
     message_queue (fst (dispatch_job e j w)) = message_queue w"
  by (simp add: dispatch_job_def delivers_def Let_def)

lemma dispatch_next_work_conserving: "delivers e \<Longrightarrow> work_conserving (fst (dispatch_next e w))"
  by (cases rule: dispatch_next_cases [of e w])
    (auto simp: work_conserving_def dispatch_job_delivered dest: get_next_none_empty)

lemma enqueue_accepted_work_conserving:
  "delivers e \<Longrightarrow> work_conserving (fst (enqueue_accepted e j w))"
  by (cases rule: enqueue_accepted_cases [of w e j])
    (auto simp: work_conserving_def dispatch_job_delivered shed_oldest_frame)

lemma worker_step_work_conserving:
  assumes "delivers e" and "work_conserving w"
  shows "work_conserving (fst (worker_step e ev w))"
proof (cases ev)
  case (EnqueueJob j)
  with assms show ?thesis
    by (simp add: enqueue_job_def case_prod_beta Let_def enqueue_accepted_work_conserving)
next
  case (WorkerComplete k)
  with assms show ?thesis
    by (simp add: worker_complete_def dispatch_next_work_conserving split: option.splits)
next
  case (ReplaceWorker a)
  with assms show ?thesis
    by (simp add: replace_worker_def Let_def dispatch_next_work_conserving)
qed (use assms in \<open>simp_all add: send_factory_ping_def ping_received_def set_draining_def
  work_conserving_def delivers_def Let_def\<close>)

lemma dispatch_next_length: "length (message_queue (fst (dispatch_next e w))) \<le> length (message_queue w)"
  using list_emb_length [OF dispatch_next_order [of e w]] by simp

lemma get_next_empty: "message_queue w = [] \<Longrightarrow> get_next_non_expired_job c w = (None, w\<lparr>message_queue := []\<rparr>, [])"
  by (simp add: get_next_non_expired_job_def)

lemma enqueue_job_bound:
  assumes "delivers e" and "work_conserving w"
    and "worker_limit_and_mode (w_discard_settings w) = Some (limit, mode)"
    and "length (message_queue w) \<le> L" and "limit \<le> L"
  shows "length (message_queue (fst (enqueue_job e j w))) \<le> L"
proof (cases "sheds_newest w")
  case True
  with assms(4) show ?thesis by (simp add: enqueue_job_def case_prod_beta)
next
  case False
  let ?w1 = "track_pending_key (job_key j) w"
  have "length (message_queue (fst (enqueue_accepted e (fst (accept j)) ?w1))) \<le> L"
  proof (cases rule: enqueue_accepted_cases [of ?w1 e "fst (accept j)"])
    case (older old w1 es d)
    with assms(2) have "get_next_non_expired_job (env_clock e) ?w1 = (None, ?w1\<lparr>message_queue := []\<rparr>, [])"
      by (simp add: get_next_empty work_conserving_def)
    with older(2) show ?thesis by simp
  next
    case (direct w1 es d)
    then show ?thesis
      using get_next_none_empty [OF direct(2)] assms(1) by (simp add: dispatch_job_delivered)
  next
    case push
    then have "mode = Newest" using assms(3) by (cases mode) auto
    with False assms(3) push(1) have "length (message_queue w) < limit"
      by (simp add: sheds_newest_def is_available_def)
    with push(3) assms(5) show ?thesis by simp
  next
    case (shed l)
    then have "length (message_queue (fst (enqueue_accepted e (fst (accept j)) ?w1))) \<le> l"
      by (simp add: shed_oldest_length)
    with shed(2) assms(3,5) show ?thesis by simp
  qed
  with False show ?thesis by (simp add: enqueue_job_def case_prod_beta Let_def)
qed

fun ping_limit_le :: "nat \<Rightarrow> ('k, 'm) worker_event \<Rightarrow> bool" where
  "ping_limit_le L (PingReceived t l) \<longleftrightarrow> l \<le> L"
| "ping_limit_le L _ \<longleftrightarrow> True"

definition limited :: "nat \<Rightarrow> discard_mode \<Rightarrow> ('k, 'm) worker \<Rightarrow> bool" where
  "limited L mode w \<longleftrightarrow>
     work_conserving w \<and> length (message_queue w) \<le> L \<and>
     (\<exists>limit\<le>L. worker_limit_and_mode (w_discard_settings w) = Some (limit, mode))"

lemma limitedI:
  "work_conserving w \<Longrightarrow> length (message_queue w) \<le> L \<Longrightarrow>
   worker_limit_and_mode (w_discard_settings w) = Some (limit, mode) \<Longrightarrow> limit \<le> L \<Longrightarrow> limited L mode w"
  by (auto simp: limited_def)

lemma worker_step_limited:
  assumes "delivers e" and "limited L mode w" and "ping_limit_le L ev"
  shows "limited L mode (fst (worker_step e ev w))"
proof -
  from assms(2) obtain limit where l: "limit \<le> L"
      "worker_limit_and_mode (w_discard_settings w) = Some (limit, mode)"
    and w: "work_conserving w" "length (message_queue w) \<le> L"
    by (auto simp: limited_def)
  note wc = worker_step_work_conserving [OF assms(1) w(1), of ev]
  show ?thesis
  proof (cases ev)
    case (EnqueueJob j)
    with l w assms(1) wc show ?thesis
      by (auto intro!: limitedI enqueue_job_bound)
  next
    case (WorkerComplete k)
    then have "length (message_queue (fst (worker_step e ev w))) \<le> length (message_queue w)"
      using dispatch_next_length [of e "untrack_pending_key k (w\<lparr>curr_jobs := hm_remove k (curr_jobs w)\<rparr>)"]
      by (simp add: worker_complete_def split: option.splits)
    with WorkerComplete wc l w show ?thesis by (auto intro!: limitedI)
  next
    case (ReplaceWorker a)
    then have "length (message_queue (fst (worker_step e ev w))) \<le> length (message_queue w)"
      using dispatch_next_length [of e "untrack_all (hm_keys (curr_jobs w))
        (w\<lparr>heartbeat := None, curr_jobs := []\<rparr>)\<lparr>w_actor := a, w_handle := True\<rparr>"]
      by (simp add: replace_worker_def Let_def)
    with ReplaceWorker wc l w show ?thesis
      by (auto intro!: limitedI simp: replace_worker_def Let_def)
  qed (use wc l w assms in \<open>auto intro!: limitedI simp: send_factory_ping_def ping_received_def
      set_draining_def delivers_def Let_def update_worker_limit_mode\<close>)
qed

lemma worker_run_limited:
  assumes "\<forall>x\<in>set evs. delivers (fst x) \<and> ping_limit_le L (snd x)" and "limited L mode w"
  shows "limited L mode (fst (worker_run evs w))"
  using assms
  by (induction evs arbitrary: w) (simp_all add: case_prod_beta Let_def worker_step_limited)

lemma worker_run_work_conserving_gen:
  assumes "\<forall>x\<in>set evs. delivers (fst x)" and "work_conserving w"
  shows "work_conserving (fst (worker_run evs w))"
  using assms
  by (induction evs arbitrary: w) (simp_all add: case_prod_beta Let_def worker_step_work_conserving)

section \<open>Pending keys\<close>

lemma get_next_pending:
  assumes "get_next_non_expired_job c w = (r, w', es)"
  shows "pending w' k \<le> pending w k"
proof -
  have "get_next_loop c w q = (r, w', es) \<Longrightarrow> pending w' k \<le> pending w k" for q
  proof (induction q arbitrary: w es)
    case (Cons j q)
    show ?case
    proof (cases "is_expired c j")
      case True
      obtain r2 w2 es2 where eq: "get_next_loop c (untrack_pending_key (job_key j) w) q = (r2, w2, es2)"
        by (metis prod_cases3)
      with Cons.prems True have "r2 = r" "w2 = w'" by (auto simp: Let_def case_prod_beta)
      with Cons.IH eq have "pending w' k \<le> pending (untrack_pending_key (job_key j) w) k" by blast
      then show ?thesis by (rule le_trans) simp
    qed (use Cons.prems in auto)
  qed auto
  with assms show ?thesis by (simp add: get_next_non_expired_job_def)
qed

lemma dispatch_job_pending: "pending (fst (dispatch_job e j w)) k \<le> pending w k"
  by (auto simp: dispatch_job_def Let_def split: send_outcome.splits)

lemma shed_step_pending: "pending (fst (shed_step c w)) k \<le> pending w k"
proof -
  obtain r w1 es where g: "get_next_non_expired_job c w = (r, w1, es)" by (metis prod_cases3)
  with get_next_pending [OF g, of k] show ?thesis
    by (cases r) (auto simp: shed_step_def Let_def case_prod_beta)
qed

lemma shed_oldest_pending: "pending (fst (shed_oldest c limit w)) k \<le> pending w k"
  by (rule shed_oldest_rule) (auto intro: le_trans [OF shed_step_pending])

lemma dispatch_next_pending: "pending (fst (dispatch_next e w)) k \<le> pending w k"
  by (cases rule: dispatch_next_cases [of e w])
    (auto dest: get_next_pending intro: le_trans [OF dispatch_job_pending])

lemma enqueue_accepted_pending: "pending (fst (enqueue_accepted e j w)) k \<le> pending w k"
proof (cases rule: enqueue_accepted_cases [of w e j])
  case (older old w1 es d)
  then show ?thesis
    using le_trans [OF dispatch_job_pending, of "w1\<lparr>message_queue := message_queue w1 @ [j]\<rparr>"]
      get_next_pending [OF older(2), of k] by simp
next
  case (direct w1 es d)
  then show ?thesis using get_next_pending [OF direct(2), of k] by (auto intro: le_trans [OF dispatch_job_pending])
next
  case (shed limit)
  then show ?thesis
    using shed_oldest_pending [of "env_clock e" limit "w\<lparr>message_queue := message_queue w @ [j]\<rparr>" k] by simp
qed simp

lemma enqueue_job_pending:
  "pending (fst (enqueue_job e j w)) k \<le> pending w k + (if k = job_key j then 1 else 0)"
  using enqueue_accepted_pending [of e "fst (accept j)" "track_pending_key (job_key j) w" k]
  by (cases "k = job_key j") (simp_all add: enqueue_job_def case_prod_beta Let_def)

lemma worker_complete_pending: "pending (fst (snd (worker_complete e k' w))) k \<le> pending w k"
proof (cases "hm_get (curr_jobs w) k'")
  case (Some opts)
  then show ?thesis
    using dispatch_next_pending [of e "untrack_pending_key k' (w\<lparr>curr_jobs := hm_remove k' (curr_jobs w)\<rparr>)" k]
    by (auto simp: worker_complete_def intro: le_trans)
qed (simp add: worker_complete_def)

lemma pending_cong: "pending_key_counts w = pending_key_counts w' \<Longrightarrow> pending w k = pending w' k"
  by (simp add: pending_def)

lemma untrack_all_pending: "pending (untrack_all ks w) k \<le> pending w k"
proof (induction ks arbitrary: w)
  case (Cons a ks)
  have "pending (untrack_all ks (untrack_pending_key a w)) k \<le> pending (untrack_pending_key a w) k"
    by (rule Cons.IH)
  also have "\<dots> \<le> pending w k" by simp
  finally show ?case by (simp add: untrack_all_def)
qed (simp add: untrack_all_def)

lemma replace_worker_pending: "pending (fst (replace_worker e a w)) k \<le> pending w k"
proof -
  let ?w1 = "w\<lparr>heartbeat := None, curr_jobs := []\<rparr>" and ?ks = "hm_keys (curr_jobs w)"
  have "pending (fst (replace_worker e a w)) k \<le>
      pending (untrack_all ?ks ?w1\<lparr>w_actor := a, w_handle := True\<rparr>) k"
    unfolding replace_worker_def Let_def by (rule dispatch_next_pending)
  also have "\<dots> = pending (untrack_all ?ks ?w1) k"
    by (rule pending_cong) simp
  also have "\<dots> \<le> pending ?w1 k" by (rule untrack_all_pending)
  also have "\<dots> = pending w k" by (rule pending_cong) simp
  finally show ?thesis .
qed

section \<open>Properties\<close>

text \<open>
  C16. The accounting of a worker is exact after any sequence of operations, whatever the
  worker's actor does with the messages: at most one job is in flight, the counter of a key is
  the number of its queued jobs plus the one in flight, and \<open>has_pending_key\<close> answers whether
  there is such a job.
\<close>

theorem worker_accounting:
  fixes evs :: "(('k, 'm) env \<times> ('k, 'm) worker_event) list"
  shows "let w = fst (worker_run evs (worker_new name i a ds dh st)) in
    active_job_count w \<le> 1 \<and>
    (\<forall>k. (case hm_get (pending_key_counts w) k of None \<Rightarrow> 0 | Some n \<Rightarrow> n) =
          count_list (map job_key (message_queue w)) k + (if is_processing_key w k then 1 else 0)) \<and>
    (\<forall>k. has_pending_key w k \<longleftrightarrow> k \<in> job_key ` set (message_queue w) \<or> is_processing_key w k)"
proof -
  have "balanced {#} (fst (worker_run evs (worker_new name i a ds dh st)))"
    by (intro worker_run_balanced worker_new_balanced)
  then show ?thesis
    unfolding Let_def
    by (simp add: has_pending_key_iff) (simp add: balanced_def active_job_count_def pending_def)
qed


text \<open>
  C18. A worker is sent jobs in the order in which they were submitted: the sequence of the jobs
  cast to its actors (across restarts, failed sends and load shedding) followed by its queue
  is a subsequence of the submissions.
\<close>

theorem worker_fifo:
  fixes evs :: "(('k, 'm) env \<times> ('k, 'm) worker_event) list"
  shows "subseq (dispatched (snd (worker_run evs (worker_new name i a ds dh st))) @
      map tag (message_queue (fst (worker_run evs (worker_new name i a ds dh st))))) (submitted evs)"
  using worker_run_order [of evs "worker_new name i a ds dh st"] by (simp add: worker_new_def)

text \<open>
  C19. With a static limit, pongs that never raise it over \<open>L\<close> and a live actor, the queue of
  a worker is never longer than \<open>L\<close> in either discard mode, and the worker is never idle while a
  job is queued.
\<close>

theorem worker_queue_bound:
  fixes evs :: "(('k, 'm) env \<times> ('k, 'm) worker_event) list"
  assumes "\<forall>x\<in>set evs. delivers (fst x) \<and> ping_limit_le L (snd x)" and "limit \<le> L"
  shows "let w = fst (worker_run evs (worker_new name i a (WorkerStatic limit mode) dh st)) in
    queued_job_count w \<le> L \<and> (active_job_count w = 0 \<longrightarrow> is_available w)"
proof -
  have "limited L mode (worker_new name i a (WorkerStatic limit mode) dh st)"
    using assms(2) by (intro limitedI) (simp_all add: worker_new_def work_conserving_def)
  with assms(1) have "limited L mode (fst (worker_run evs (worker_new name i a (WorkerStatic limit mode) dh st)))"
    by (rule worker_run_limited)
  then show ?thesis
    by (auto simp: Let_def limited_def queued_job_count_def active_job_count_def is_available_def work_conserving_def)
qed

text \<open>A run of a worker with limit 1: three jobs, the first of which completes.\<close>

definition ex_clock :: clock where
  "ex_clock = \<lparr>clk_instant = 7, clk_system = 100\<rparr>"

definition ex_env :: "(nat, nat) env" where
  "ex_env = \<lparr>env_clock = ex_clock, env_deliver = (\<lambda>a msg. SendOk), env_spawn = (\<lambda>i. Inr (Local 9)),
     env_hash = (\<lambda>k. of_nat k), env_capacity = 0, env_limit = 1, env_hook = Inr ()\<rparr>"

definition ex_job :: "nat \<Rightarrow> (nat, nat) job" where
  "ex_job k = job_new ex_clock None k (10 * k)"

definition ex_run :: "((nat, nat) env \<times> (nat, nat) worker_event) list" where
  "ex_run = map (Pair ex_env)
     [EnqueueJob (ex_job 1), EnqueueJob (ex_job 2), EnqueueJob (ex_job 3), WorkerComplete 1]"


theorem worker_queue_bound_witness:
  "list_all (\<lambda>x. delivers (fst x) \<and> ping_limit_le 1 (snd x)) ex_run \<and>
   queued_job_count (fst (worker_run ex_run (worker_new ''f'' 0 (Local 1) (WorkerStatic 1 Newest) None None))) \<le> 1"
proof -
  have "\<forall>x\<in>set ex_run. delivers (fst x) \<and> ping_limit_le 1 (snd x)"
    by (simp add: ex_run_def ex_env_def delivers_def)
  then show ?thesis
    using worker_queue_bound [of ex_run 1 1 "''f''" 0 "Local 1" Newest None None]
    by (simp add: Let_def list_all_iff)
qed

text \<open>
  The limit needs a live actor. Nothing is in flight at a worker whose actor gives every message
  back, so \<open>enqueue_job\<close> returns before the load-shedding loop and the queue grows with every
  job: with limit 0 and mode \<open>Oldest\<close>, three jobs are queued.
\<close>

lemma dead_worker_grows:
  "queued_job_count (fst (worker_run
     (map (\<lambda>k. (ex_env\<lparr>env_deliver := (\<lambda>a msg. SendReturned)\<rparr>, EnqueueJob (ex_job k))) [1, 2, 3])
     (worker_new ''f'' 0 (Local 1) (WorkerStatic 0 Oldest) None None))) = 3"
  by code_simp

end
