(* ===== verification/Factory_Queues.thy ===== *)
theory Factory_Queues
  imports Factory_Worker
begin

text \<open>
  The queue of a factory (\<open>ractor/src/factory/queues.rs\<close>): the trait \<open>Queue\<close> as a record of
  operations, \<open>DefaultQueue\<close> and \<open>PriorityQueue\<close> as two values of it, and the contract of the
  trait as the locale \<open>job_queue\<close>, which both are shown to meet.
\<close>

section \<open>The trait\<close>

text \<open>
  \<open>push_back\<close> may panic: \<open>PriorityQueue\<close> indexes an array with a number the user's priority
  type supplies. A panic is \<open>None\<close>.
\<close>

record ('q, 'k, 'm) queue_ops =
  q_len :: "'q \<Rightarrow> nat"
  q_is_empty :: "'q \<Rightarrow> bool"
  q_pop_front :: "'q \<Rightarrow> ('k, 'm) job option \<times> 'q"
  q_discard_oldest :: "'q \<Rightarrow> ('k, 'm) job option \<times> 'q"
  q_peek :: "'q \<Rightarrow> ('k, 'm) job option"
  q_push_back :: "('k, 'm) job \<Rightarrow> 'q \<Rightarrow> 'q option"
  q_remove_expired_items ::
    "clock \<Rightarrow> ('k, 'm) discard_handler \<Rightarrow> 'q \<Rightarrow> nat \<times> 'q \<times> ('k, 'm) effect list"
  q_is_job_discardable :: "'q \<Rightarrow> 'k \<Rightarrow> bool"

text \<open>
  \<open>VecDeque::retain_mut\<close> with the closure of \<open>remove_expired_items\<close>: the jobs that stay, the
  expired ones as the handler left them, and the handler's calls. The removed jobs are dropped
  at the end, when the deque is truncated.
\<close>

fun retain_unexpired ::
    "clock \<Rightarrow> ('k, 'm) discard_handler \<Rightarrow> ('k, 'm) job list \<Rightarrow>
     ('k, 'm) job list \<times> ('k, 'm) job list \<times> ('k, 'm) effect list" where
  "retain_unexpired c h [] = ([], [], [])"
| "retain_unexpired c h (j # q) =
     (let (kept, gone, es) = retain_unexpired c h q
      in if is_expired c j
         then let (j1, es1) = call_discard h TtlExpired j in (kept, j1 # gone, es1 @ es)
         else (j # kept, gone, es))"

section \<open>DefaultQueue\<close>

type_synonym ('k, 'm) default_queue = "('k, 'm) job list"

fun dq_pop_front :: "('k, 'm) default_queue \<Rightarrow> ('k, 'm) job option \<times> ('k, 'm) default_queue" where
  "dq_pop_front [] = (None, [])"
| "dq_pop_front (j # q) = (Some j, q)"

fun dq_peek :: "('k, 'm) default_queue \<Rightarrow> ('k, 'm) job option" where
  "dq_peek [] = None"
| "dq_peek (j # q) = Some j"

definition dq_remove_expired_items ::
    "clock \<Rightarrow> ('k, 'm) discard_handler \<Rightarrow> ('k, 'm) default_queue \<Rightarrow>
     nat \<times> ('k, 'm) default_queue \<times> ('k, 'm) effect list" where
  "dq_remove_expired_items c h q =
     (let (kept, gone, es) = retain_unexpired c h q
      in (length q - length kept, kept, es @ map Dropped gone))"

definition default_queue_ops :: "(('k, 'm) default_queue, 'k, 'm) queue_ops" where
  "default_queue_ops =
     \<lparr>q_len = length, q_is_empty = (\<lambda>q. q = []), q_pop_front = dq_pop_front,
      q_discard_oldest = dq_pop_front, q_peek = dq_peek, q_push_back = (\<lambda>j q. Some (q @ [j])),
      q_remove_expired_items = dq_remove_expired_items, q_is_job_discardable = (\<lambda>q k. True)\<rparr>"

section \<open>Priorities\<close>

text \<open>The trait \<open>Priority\<close>: the default value and the index of a value.\<close>

record 'p priority_ops =
  p_default :: 'p
  p_get_index :: "'p \<Rightarrow> nat"

datatype standard_priority = Highest | High | Important | Normal | BestEffort

fun standard_index :: "standard_priority \<Rightarrow> nat" where
  "standard_index Highest = 0"
| "standard_index High = 1"
| "standard_index Important = 2"
| "standard_index Normal = 3"
| "standard_index BestEffort = 4"

definition standard_from :: "nat \<Rightarrow> standard_priority" where
  "standard_from v =
     (if v = 0 then Highest else if v = 1 then High else if v = 2 then Important
      else if v = 3 then Normal else if v = 4 then BestEffort else Normal)"

definition standard_size :: nat where
  "standard_size = 5"

definition standard_priority_ops :: "standard_priority priority_ops" where
  "standard_priority_ops = \<lparr>p_default = Normal, p_get_index = standard_index\<rparr>"

text \<open>\<open>BytesConvertable\<close> of \<open>StandardPriority\<close>: through \<open>u64\<close>.\<close>

definition standard_into_bytes :: "standard_priority \<Rightarrow> u8 list" where
  "standard_into_bytes p = num_into_bytes (of_nat (standard_index p) :: u64)"

definition standard_from_bytes :: "u8 list \<Rightarrow> standard_priority option" where
  "standard_from_bytes bs = map_option (\<lambda>v :: u64. standard_from (unat v)) (num_from_bytes bs)"

section \<open>PriorityQueue\<close>

record ('k, 'p) priority_manager =
  pm_is_discardable :: "'k \<Rightarrow> bool"
  pm_get_priority :: "'k \<Rightarrow> 'p option"

record ('k, 'm, 'p) priority_queue =
  pq_queues :: "('k, 'm) job list list"
  pq_manager :: "('k, 'p) priority_manager"

definition priority_queue_new :: "nat \<Rightarrow> ('k, 'p) priority_manager \<Rightarrow> ('k, 'm, 'p) priority_queue" where
  "priority_queue_new n pm = \<lparr>pq_queues = replicate n [], pq_manager = pm\<rparr>"

text \<open>The loop of \<open>pop_front\<close> over the array: the first queue that has a job gives it.\<close>

fun pop_first :: "'a list list \<Rightarrow> 'a option \<times> 'a list list" where
  "pop_first [] = (None, [])"
| "pop_first ((x # q) # qs) = (Some x, q # qs)"
| "pop_first ([] # qs) = (let (r, qs') = pop_first qs in (r, [] # qs'))"

fun peek_first :: "'a list list \<Rightarrow> 'a option" where
  "peek_first [] = None"
| "peek_first ((x # q) # qs) = Some x"
| "peek_first ([] # qs) = peek_first qs"

definition pq_pop_front ::
    "('k, 'm, 'p) priority_queue \<Rightarrow> ('k, 'm) job option \<times> ('k, 'm, 'p) priority_queue" where
  "pq_pop_front pq = (let (r, qs) = pop_first (pq_queues pq) in (r, pq\<lparr>pq_queues := qs\<rparr>))"

text \<open>The loop of \<open>discard_oldest\<close>: the same from the last index down.\<close>

definition pq_discard_oldest ::
    "('k, 'm, 'p) priority_queue \<Rightarrow> ('k, 'm) job option \<times> ('k, 'm, 'p) priority_queue" where
  "pq_discard_oldest pq =
     (let (r, qs) = pop_first (rev (pq_queues pq)) in (r, pq\<lparr>pq_queues := rev qs\<rparr>))"

definition pq_index :: "'p priority_ops \<Rightarrow> ('k, 'p) priority_manager \<Rightarrow> 'k \<Rightarrow> nat" where
  "pq_index po pm k =
     p_get_index po (case pm_get_priority pm k of None \<Rightarrow> p_default po | Some p \<Rightarrow> p)"

definition pq_push_back ::
    "'p priority_ops \<Rightarrow> ('k, 'm) job \<Rightarrow> ('k, 'm, 'p) priority_queue \<Rightarrow> ('k, 'm, 'p) priority_queue option"
  where
  "pq_push_back po j pq =
     (let idx = pq_index po (pq_manager pq) (job_key j)
      in if idx < length (pq_queues pq)
         then Some (pq\<lparr>pq_queues := (pq_queues pq)[idx := pq_queues pq ! idx @ [j]]\<rparr>)
         else None)"

fun retain_all ::
    "clock \<Rightarrow> ('k, 'm) discard_handler \<Rightarrow> ('k, 'm) job list list \<Rightarrow>
     nat \<times> ('k, 'm) job list list \<times> ('k, 'm) effect list" where
  "retain_all c h [] = (0, [], [])"
| "retain_all c h (q # qs) =
     (let (kept, gone, es) = retain_unexpired c h q; (n, qs', es') = retain_all c h qs
      in (length gone + n, kept # qs', es @ map Dropped gone @ es'))"

definition pq_remove_expired_items ::
    "clock \<Rightarrow> ('k, 'm) discard_handler \<Rightarrow> ('k, 'm, 'p) priority_queue \<Rightarrow>
     nat \<times> ('k, 'm, 'p) priority_queue \<times> ('k, 'm) effect list" where
  "pq_remove_expired_items c h pq =
     (let (n, qs, es) = retain_all c h (pq_queues pq) in (n, pq\<lparr>pq_queues := qs\<rparr>, es))"

definition priority_queue_ops ::
    "'p priority_ops \<Rightarrow> (('k, 'm, 'p) priority_queue, 'k, 'm) queue_ops" where
  "priority_queue_ops po =
     \<lparr>q_len = (\<lambda>pq. sum_list (map length (pq_queues pq))),
      q_is_empty = (\<lambda>pq. list_all (\<lambda>q. q = []) (pq_queues pq)),
      q_pop_front = pq_pop_front, q_discard_oldest = pq_discard_oldest,
      q_peek = (\<lambda>pq. peek_first (pq_queues pq)), q_push_back = pq_push_back po,
      q_remove_expired_items = pq_remove_expired_items,
      q_is_job_discardable = (\<lambda>pq k. pm_is_discardable (pq_manager pq) k)\<rparr>"

section \<open>The contract of a queue\<close>

text \<open>
  What a factory relies on. \<open>qlist\<close> is the order in which a queue gives its jobs, \<open>qok\<close> the
  invariant of the implementation. A push inserts the job somewhere and keeps the order of the
  others; \<open>discard_oldest\<close> takes a job out from somewhere.
\<close>

locale job_queue =
  fixes ops :: "('q, 'k, 'm) queue_ops"
    and qlist :: "'q \<Rightarrow> ('k, 'm) job list"
    and qok :: "'q \<Rightarrow> bool"
  assumes len_qlist: "q_len ops q = length (qlist q)"
    and is_empty_qlist: "q_is_empty ops q \<longleftrightarrow> qlist q = []"
    and peek_qlist: "q_peek ops q = (case qlist q of [] \<Rightarrow> None | j # js \<Rightarrow> Some j)"
    and pop_empty: "qlist q = [] \<Longrightarrow> q_pop_front ops q = (None, q)"
    and pop_qlist: "qlist q = j # js \<Longrightarrow>
      \<exists>q'. q_pop_front ops q = (Some j, q') \<and> qlist q' = js \<and> (qok q \<longrightarrow> qok q')"
    and discard_empty: "qlist q = [] \<Longrightarrow> q_discard_oldest ops q = (None, q)"
    and discard_qlist: "qlist q \<noteq> [] \<Longrightarrow>
      \<exists>j q' xs ys. q_discard_oldest ops q = (Some j, q') \<and> (qok q \<longrightarrow> qok q') \<and>
        qlist q = xs @ j # ys \<and> qlist q' = xs @ ys"
    and push_qlist: "q_push_back ops j q = Some q' \<Longrightarrow>
      \<exists>xs ys. qlist q = xs @ ys \<and> qlist q' = xs @ j # ys"
    and push_ok: "qok q \<Longrightarrow> \<exists>q'. q_push_back ops j q = Some q' \<and> qok q'"
    and remove_expired: "q_remove_expired_items ops c h q = (n, q', es) \<Longrightarrow>
      qlist q' = filter (\<lambda>j. \<not> is_expired c j) (qlist q) \<and>
      n = length (filter (is_expired c) (qlist q)) \<and> (qok q \<longrightarrow> qok q') \<and> dispatched es = [] \<and>
      (handler_keeps h \<longrightarrow> jobs_out es = tags (filter (is_expired c) (qlist q)))"
begin

lemma pop_cases:
  obtains (empty) "qlist q = []" "q_pop_front ops q = (None, q)"
  | (job) j js q' where "qlist q = j # js" "q_pop_front ops q = (Some j, q')" "qlist q' = js"
      "qok q \<longrightarrow> qok q'"
  by (cases "qlist q") (use pop_empty pop_qlist in blast)+

lemma discard_cases:
  obtains (empty) "qlist q = []" "q_discard_oldest ops q = (None, q)"
  | (job) j q' xs ys where "q_discard_oldest ops q = (Some j, q')" "qlist q = xs @ j # ys"
      "qlist q' = xs @ ys" "qok q \<longrightarrow> qok q'"
  by (cases "qlist q = []") (use discard_empty discard_qlist in blast)+

lemma push_tags: "q_push_back ops j q = Some q' \<Longrightarrow> tags (qlist q') = add_mset (tag j) (tags (qlist q))"
  by (auto dest!: push_qlist)

lemma push_length: "q_push_back ops j q = Some q' \<Longrightarrow> length (qlist q') = Suc (length (qlist q))"
  by (auto dest!: push_qlist)

end

lemma retain_unexpired_spec:
  assumes "retain_unexpired c h q = (kept, gone, es)"
  shows "kept = filter (\<lambda>j. \<not> is_expired c j) q \<and> length gone = length (filter (is_expired c) q) \<and>
    dispatched es = [] \<and> jobs_out es = {#} \<and>
    (handler_keeps h \<longrightarrow> tags gone = tags (filter (is_expired c) q))"
  using assms
proof (induction q arbitrary: kept gone es)
  case (Cons j q)
  obtain k g e where "retain_unexpired c h q = (k, g, e)" by (metis prod_cases3)
  with Cons show ?case
    by (cases "is_expired c j") (auto simp: case_prod_beta)
qed auto

lemma jobs_out_dropped [simp]: "jobs_out (map Dropped js) = tags js"
  by (induction js) auto

lemma dispatched_dropped [simp]: "dispatched (map Dropped js) = []"
  by (induction js) auto

lemma retain_all_spec:
  assumes "retain_all c h qs = (n, qs', es)"
  shows "qs' = map (filter (\<lambda>j. \<not> is_expired c j)) qs \<and>
    n = length (filter (is_expired c) (concat qs)) \<and> dispatched es = [] \<and>
    (handler_keeps h \<longrightarrow> jobs_out es = tags (filter (is_expired c) (concat qs)))"
  using assms
proof (induction qs arbitrary: n qs' es)
  case (Cons q qs)
  obtain k g e where r: "retain_unexpired c h q = (k, g, e)" by (metis prod_cases3)
  obtain m qs1 e1 where "retain_all c h qs = (m, qs1, e1)" by (metis prod_cases3)
  with Cons retain_unexpired_spec [OF r] show ?case
    by (auto simp: r)
qed auto

interpretation default_queue: job_queue default_queue_ops "\<lambda>q. q" "\<lambda>q. True"
proof (unfold_locales, goal_cases)
  case (7 q)
  then show ?case by (cases q) (auto simp: default_queue_ops_def intro: exI [of _ "[]"])
next
  case (8 j q q')
  then show ?case by (auto simp: default_queue_ops_def intro: exI [of _ q])
next
  case (10 c h q n q' es)
  obtain k g e where r: "retain_unexpired c h q = (k, g, e)" by (metis prod_cases3)
  have "length q - length (filter (\<lambda>j. \<not> is_expired c j) q) = length (filter (is_expired c) q)"
    using sum_length_filter_compl [of "is_expired c" q] by simp
  with 10 r retain_unexpired_spec [OF r] show ?case
    by (auto simp: default_queue_ops_def dq_remove_expired_items_def)
qed (auto simp: default_queue_ops_def split: list.splits)

lemma pop_first_spec:
  "(case concat qs of
      [] \<Rightarrow> pop_first qs = (None, qs)
    | x # xs \<Rightarrow> \<exists>qs'. pop_first qs = (Some x, qs') \<and> concat qs' = xs \<and> length qs' = length qs)"
proof (induction qs rule: pop_first.induct)
  case (3 qs)
  then show ?case by (cases "concat qs") (auto simp del: concat_eq_Nil_conv)
qed auto

lemma peek_first_spec: "peek_first qs = (case concat qs of [] \<Rightarrow> None | x # xs \<Rightarrow> Some x)"
  by (induction qs rule: peek_first.induct) auto

text \<open>From which queue the first job of the array comes, and what is left.\<close>

lemma pop_first_at:
  assumes "pop_first qs = (Some x, qs')"
  shows "\<exists>i q. i < length qs \<and> qs ! i = x # q \<and> qs' = qs[i := q] \<and> (\<forall>k<i. qs ! k = [])"
  using assms
proof (induction qs arbitrary: qs' rule: pop_first.induct)
  case (2 y q qs)
  then show ?case by (auto intro: exI [of _ 0])
next
  case (3 qs)
  then obtain qs1 where "pop_first qs = (Some x, qs1)" "qs' = [] # qs1"
    by (auto split: prod.splits)
  with 3(1) obtain i q where "i < length qs" "qs ! i = x # q" "qs1 = qs[i := q]" "\<forall>k<i. qs ! k = []"
    by blast
  then show ?case
    using \<open>qs' = [] # qs1\<close> by (intro exI [of _ "Suc i"]) (auto simp: less_Suc_eq_0_disj)
qed simp

lemma concat_update:
  "i < length qs \<Longrightarrow> concat (qs[i := q]) = concat (take i qs) @ q @ concat (drop (Suc i) qs)"
  by (simp add: upd_conv_take_nth_drop)

lemma concat_nth:
  "i < length qs \<Longrightarrow> concat qs = concat (take i qs) @ qs ! i @ concat (drop (Suc i) qs)"
  by (metis concat.simps(2) concat_append id_take_nth_drop)

text \<open>The same for \<open>discard_oldest\<close>, from the end of the array.\<close>

lemma pop_last_at:
  assumes "pop_first (rev qs) = (Some x, qs')"
  shows "\<exists>i q. i < length qs \<and> qs ! i = x # q \<and> rev qs' = qs[i := q] \<and> (\<forall>k<length qs. i < k \<longrightarrow> qs ! k = [])"
proof -
  obtain i q where i: "i < length (rev qs)" "rev qs ! i = x # q" "qs' = (rev qs)[i := q]"
    "\<forall>k<i. rev qs ! k = []"
    using pop_first_at [OF assms] by blast
  let ?i = "length qs - Suc i"
  have "rev qs' = qs[?i := q]" using i by (simp add: rev_update)
  moreover have "qs ! ?i = x # q" using i by (simp add: rev_nth)
  moreover have "qs ! k = []" if "k < length qs" "?i < k" for k
    using i(4) [rule_format, of "length qs - Suc k"] that i(1) by (simp add: rev_nth)
  ultimately show ?thesis using i(1) by (intro exI [of _ ?i]) auto
qed

definition pq_ok :: "'p priority_ops \<Rightarrow> ('k, 'm, 'p) priority_queue \<Rightarrow> bool" where
  "pq_ok po pq \<longleftrightarrow> (\<forall>k. pq_index po (pq_manager pq) k < length (pq_queues pq))"

lemma pop_first_length: "pop_first qs = (r, qs') \<Longrightarrow> length qs' = length qs"
  by (induction qs arbitrary: r qs' rule: pop_first.induct) (auto split: prod.splits)

interpretation priority_queue: job_queue "priority_queue_ops po" "\<lambda>pq. concat (pq_queues pq)" "pq_ok po"
  for po
proof (unfold_locales, goal_cases)
  case (1 pq)
  then show ?case by (simp add: priority_queue_ops_def length_concat)
next
  case (2 pq)
  then show ?case by (simp add: priority_queue_ops_def list_all_iff)
next
  case (3 pq)
  then show ?case by (simp add: priority_queue_ops_def peek_first_spec)
next
  case (4 pq)
  then show ?case
    using pop_first_spec [of "pq_queues pq"]
    by (simp add: priority_queue_ops_def pq_pop_front_def del: concat_eq_Nil_conv)
next
  case (5 pq j js)
  then show ?case
    using pop_first_spec [of "pq_queues pq"]
    by (auto simp: priority_queue_ops_def pq_pop_front_def pq_ok_def)
next
  case (6 pq)
  then have "concat (rev (pq_queues pq)) = []" by simp
  then show ?case
    using pop_first_spec [of "rev (pq_queues pq)"]
    by (simp add: priority_queue_ops_def pq_discard_oldest_def del: concat_eq_Nil_conv)
next
  case (7 pq)
  then have "concat (rev (pq_queues pq)) \<noteq> []" by simp
  then obtain x qs where p: "pop_first (rev (pq_queues pq)) = (Some x, qs)"
    using pop_first_spec [of "rev (pq_queues pq)"] by (auto split: list.splits)
  from pop_last_at [OF p] obtain i q where i: "i < length (pq_queues pq)" "pq_queues pq ! i = x # q"
    "rev qs = (pq_queues pq)[i := q]" by blast
  then have "concat (pq_queues pq) =
      concat (take i (pq_queues pq)) @ x # (q @ concat (drop (Suc i) (pq_queues pq)))"
    using concat_nth [OF i(1)] by simp
  with p i show ?case
    by (auto simp: priority_queue_ops_def pq_discard_oldest_def pq_ok_def concat_update)
next
  case (8 j pq pq')
  let ?i = "pq_index po (pq_manager pq) (job_key j)" and ?qs = "pq_queues pq"
  from 8 have i: "?i < length ?qs" "pq_queues pq' = ?qs[?i := ?qs ! ?i @ [j]]"
    by (auto simp: priority_queue_ops_def pq_push_back_def Let_def split: if_splits)
  then show ?case
    by (intro exI [of _ "concat (take ?i ?qs) @ ?qs ! ?i"] exI [of _ "concat (drop (Suc ?i) ?qs)"])
      (simp add: concat_update concat_nth [OF i(1)])
next
  case (9 pq j)
  then show ?case by (auto simp: priority_queue_ops_def pq_push_back_def pq_ok_def Let_def)
next
  case (10 c h pq n pq' es)
  obtain m qs e where r: "retain_all c h (pq_queues pq) = (m, qs, e)" by (metis prod_cases3)
  with 10 retain_all_spec [OF r] show ?case
    by (auto simp: priority_queue_ops_def pq_remove_expired_items_def filter_concat pq_ok_def)
qed

section \<open>Order of a priority queue\<close>

definition pq_job_index :: "'p priority_ops \<Rightarrow> ('k, 'm, 'p) priority_queue \<Rightarrow> ('k, 'm) job \<Rightarrow> nat" where
  "pq_job_index po pq j = pq_index po (pq_manager pq) (job_key j)"

text \<open>Every job is in the queue of its priority.\<close>

definition pq_buckets :: "'p priority_ops \<Rightarrow> ('k, 'm, 'p) priority_queue \<Rightarrow> bool" where
  "pq_buckets po pq \<longleftrightarrow>
     (\<forall>i<length (pq_queues pq). \<forall>j\<in>set (pq_queues pq ! i). pq_job_index po pq j = i)"

text \<open>The states a queue can be in.\<close>

inductive pq_reachable ::
    "'p priority_ops \<Rightarrow> nat \<Rightarrow> ('k, 'p) priority_manager \<Rightarrow> ('k, 'm, 'p) priority_queue \<Rightarrow> bool"
  for po n pm where
  new: "pq_reachable po n pm (priority_queue_new n pm)"
| push: "pq_reachable po n pm pq \<Longrightarrow> q_push_back (priority_queue_ops po) j pq = Some pq' \<Longrightarrow>
    pq_reachable po n pm pq'"
| pop: "pq_reachable po n pm pq \<Longrightarrow> q_pop_front (priority_queue_ops po) pq = (r, pq') \<Longrightarrow>
    pq_reachable po n pm pq'"
| discard: "pq_reachable po n pm pq \<Longrightarrow> q_discard_oldest (priority_queue_ops po) pq = (r, pq') \<Longrightarrow>
    pq_reachable po n pm pq'"
| expire: "pq_reachable po n pm pq \<Longrightarrow>
    q_remove_expired_items (priority_queue_ops po) c h pq = (m, pq', es) \<Longrightarrow> pq_reachable po n pm pq'"

lemma pq_buckets_update:
  assumes "pq_buckets po pq" and "\<forall>j\<in>set q. pq_job_index po pq j = i"
  shows "pq_buckets po (pq\<lparr>pq_queues := (pq_queues pq)[i := q]\<rparr>)"
  unfolding pq_buckets_def
proof (intro allI impI ballI)
  fix k j
  assume "k < length (pq_queues (pq\<lparr>pq_queues := (pq_queues pq)[i := q]\<rparr>))"
    and "j \<in> set (pq_queues (pq\<lparr>pq_queues := (pq_queues pq)[i := q]\<rparr>) ! k)"
  then have "k < length (pq_queues pq)" "j \<in> set ((pq_queues pq)[i := q] ! k)" by simp_all
  then have "pq_job_index po pq j = k"
    using assms by (cases "k = i") (simp_all add: pq_buckets_def)
  then show "pq_job_index po (pq\<lparr>pq_queues := (pq_queues pq)[i := q]\<rparr>) j = k"
    by (simp add: pq_job_index_def)
qed

lemma pq_buckets_at:
  "pq_buckets po pq \<Longrightarrow> i < length (pq_queues pq) \<Longrightarrow> pq_queues pq ! i = q \<Longrightarrow>
   \<forall>j\<in>set q. pq_job_index po pq j = i"
  by (auto simp: pq_buckets_def)

lemma pq_push_buckets:
  assumes "pq_push_back po j pq = Some pq'" and "pq_buckets po pq"
  shows "pq_buckets po pq'"
proof -
  let ?i = "pq_job_index po pq j"
  from assms(1) have i: "?i < length (pq_queues pq)"
    and p: "pq' = pq\<lparr>pq_queues := (pq_queues pq)[?i := pq_queues pq ! ?i @ [j]]\<rparr>"
    by (simp_all add: pq_push_back_def Let_def pq_job_index_def split: if_splits)
  show ?thesis
    unfolding p using pq_buckets_at [OF assms(2) i refl]
    by (intro pq_buckets_update [OF assms(2)]) simp
qed

lemma pq_pop_buckets:
  assumes "pq_pop_front pq = (r, pq')" and "pq_buckets po pq"
  shows "pq_buckets po pq'"
proof (cases r)
  case None
  with assms(1) show ?thesis
    using assms(2) pop_first_spec [of "pq_queues pq"]
    by (cases "concat (pq_queues pq)") (auto simp: pq_pop_front_def simp del: concat_eq_Nil_conv)
next
  case (Some x)
  with assms(1) obtain qs where p: "pop_first (pq_queues pq) = (Some x, qs)" "pq' = pq\<lparr>pq_queues := qs\<rparr>"
    by (auto simp: pq_pop_front_def split: prod.splits)
  from pop_first_at [OF p(1)] obtain i q where i: "i < length (pq_queues pq)" "pq_queues pq ! i = x # q"
    "qs = (pq_queues pq)[i := q]" by blast
  show ?thesis
    unfolding p(2) i(3) using pq_buckets_at [OF assms(2) i(1,2)]
    by (intro pq_buckets_update [OF assms(2)]) simp
qed

lemma pq_discard_buckets:
  assumes "pq_discard_oldest pq = (r, pq')" and "pq_buckets po pq"
  shows "pq_buckets po pq'"
proof (cases r)
  case None
  with assms(1) show ?thesis
    using assms(2) pop_first_spec [of "rev (pq_queues pq)"]
    by (cases "concat (rev (pq_queues pq))") (auto simp: pq_discard_oldest_def simp del: concat_eq_Nil_conv)
next
  case (Some x)
  with assms(1) obtain qs where p: "pop_first (rev (pq_queues pq)) = (Some x, qs)" "pq' = pq\<lparr>pq_queues := rev qs\<rparr>"
    by (auto simp: pq_discard_oldest_def split: prod.splits)
  from pop_last_at [OF p(1)] obtain i q where i: "i < length (pq_queues pq)" "pq_queues pq ! i = x # q"
    "rev qs = (pq_queues pq)[i := q]" by blast
  show ?thesis
    unfolding p(2) i(3) using pq_buckets_at [OF assms(2) i(1,2)]
    by (intro pq_buckets_update [OF assms(2)]) simp
qed

lemma pq_expire_buckets:
  assumes "pq_remove_expired_items c h pq = (m, pq', es)" and "pq_buckets po pq"
  shows "pq_buckets po pq'"
proof -
  obtain n qs e where r: "retain_all c h (pq_queues pq) = (n, qs, e)" by (metis prod_cases3)
  with assms retain_all_spec [OF r] show ?thesis
    by (auto simp: pq_remove_expired_items_def pq_buckets_def pq_job_index_def)
qed

lemma pq_reachable_buckets: "pq_reachable po n pm pq \<Longrightarrow> pq_buckets po pq"
  by (induction rule: pq_reachable.induct)
    (auto simp: priority_queue_ops_def priority_queue_new_def pq_buckets_def [of _ "\<lparr>pq_queues = _, pq_manager = _\<rparr>"]
      dest: pq_push_buckets pq_pop_buckets pq_discard_buckets pq_expire_buckets)

lemma sorted_buckets:
  assumes "\<forall>i<length qs. \<forall>j\<in>set (qs ! i). f j = n + i"
  shows "sorted (map f (concat qs)) \<and> (\<forall>j\<in>set (concat qs). n \<le> f j)"
  using assms
proof (induction qs arbitrary: n)
  case (Cons q qs)
  have q: "\<forall>j\<in>set q. f j = n" using Cons.prems by force
  then have "sorted (map f q)" by (induction q) auto
  moreover have "\<forall>i<length qs. \<forall>j\<in>set (qs ! i). f j = Suc n + i" using Cons.prems by force
  from Cons.IH [OF this] have "sorted (map f (concat qs))" "\<forall>j\<in>set (concat qs). Suc n \<le> f j"
    by blast+
  ultimately show ?case
    using q by (auto simp: sorted_append Suc_le_eq less_imp_le simp del: set_concat)
qed simp

lemma pq_sorted: "pq_buckets po pq \<Longrightarrow> sorted (map (pq_job_index po pq) (concat (pq_queues pq)))"
  using sorted_buckets [of "pq_queues pq" "pq_job_index po pq" 0] by (auto simp: pq_buckets_def)

lemma standard_from_index: "standard_from (standard_index p) = p"
  by (cases p) (simp_all add: standard_from_def)

lemma standard_index_less: "standard_index p < 5"
  by (cases p) auto

interpretation standard_priority_bytes: bytes_convertable standard_into_bytes standard_from_bytes "\<lambda>_. True"
proof
  fix p
  have "unat (of_nat (standard_index p) :: u64) = standard_index p"
    using standard_index_less [of p] by (simp add: unat_of_nat)
  then show "standard_from_bytes (standard_into_bytes p) = Some p"
    by (simp add: standard_from_bytes_def standard_into_bytes_def num_from_into standard_from_index)
qed

text \<open>A stable sort by a bounded key is the concatenation of the jobs of each key.\<close>

definition bucket :: "('a \<Rightarrow> nat) \<Rightarrow> 'a list \<Rightarrow> nat \<Rightarrow> 'a list" where
  "bucket f xs i = filter (\<lambda>x. i = f x) xs"

lemma filter_less_Suc_mset:
  "filter_mset (\<lambda>x. f x < Suc n) (mset xs) = filter_mset (\<lambda>x. f x < n) (mset xs) + mset (bucket f xs n)"
  by (induction xs) (auto simp: bucket_def)

lemma mset_buckets: "mset (concat (map (bucket f xs) [0..<n])) = mset (filter (\<lambda>x. f x < n) xs)"
  by (induction n) (simp_all add: filter_less_Suc_mset)

lemma filter_buckets:
  "filter (\<lambda>x. k = f x) (concat (map (bucket f xs) [0..<n])) = (if k < n then bucket f xs k else [])"
proof (induction n)
  case (Suc n)
  have "filter (\<lambda>x. k = f x) (bucket f xs n) = (if k = n then bucket f xs n else [])"
    by (auto simp: bucket_def filter_empty_conv intro: filter_cong)
  with Suc show ?case by (auto simp: less_Suc_eq)
qed simp

lemma sort_key_buckets:
  assumes "\<forall>x\<in>set xs. f x < n"
  shows "sort_key f xs = concat (map (bucket f xs) [0..<n])"
proof (rule properties_for_sort_key)
  show "mset (concat (map (bucket f xs) [0..<n])) = mset xs"
    unfolding mset_buckets using assms by (simp add: filter_id_conv [THEN iffD2])
  show "sorted (map f (concat (map (bucket f xs) [0..<n])))"
    using sorted_buckets [of "map (bucket f xs) [0..<n]" f 0] by (simp add: bucket_def)
  fix k assume "k \<in> set (concat (map (bucket f xs) [0..<n]))"
  then have "f k < n" by (auto simp: bucket_def)
  then show "filter (\<lambda>x. f k = f x) (concat (map (bucket f xs) [0..<n])) = filter (\<lambda>x. f k = f x) xs"
    by (simp add: filter_buckets bucket_def)
qed

primrec push_all :: "('q, 'k, 'm) queue_ops \<Rightarrow> ('k, 'm) job list \<Rightarrow> 'q \<Rightarrow> 'q option" where
  "push_all ops [] q = Some q"
| "push_all ops (j # js) q = (case q_push_back ops j q of None \<Rightarrow> None | Some q1 \<Rightarrow> push_all ops js q1)"

lemma pq_push_all:
  assumes "pq_ok po pq" and "pq_manager pq = pm" and "length (pq_queues pq) = n"
    and "\<forall>i<n. pq_queues pq ! i = bucket (\<lambda>j. pq_index po pm (job_key j)) js0 i"
  shows "\<exists>pq'. push_all (priority_queue_ops po) js pq = Some pq' \<and> length (pq_queues pq') = n \<and>
    (\<forall>i<n. pq_queues pq' ! i = bucket (\<lambda>j. pq_index po pm (job_key j)) (js0 @ js) i)"
  using assms
proof (induction js arbitrary: pq js0)
  case Nil
  then show ?case by auto
next
  case (Cons j js)
  let ?f = "\<lambda>j. pq_index po pm (job_key j)" and ?i = "pq_index po pm (job_key j)"
  let ?pq1 = "pq\<lparr>pq_queues := (pq_queues pq)[?i := pq_queues pq ! ?i @ [j]]\<rparr>"
  from Cons.prems have i: "?i < length (pq_queues pq)" by (auto simp: pq_ok_def)
  then have p: "q_push_back (priority_queue_ops po) j pq = Some ?pq1"
    using Cons.prems(2) by (simp add: priority_queue_ops_def pq_push_back_def Let_def)
  have "pq_queues ?pq1 ! k = bucket ?f (js0 @ [j]) k" if "k < n" for k
  proof (cases "k = ?i")
    case True
    with that i Cons.prems(4) show ?thesis by (simp add: bucket_def)
  next
    case False
    with that Cons.prems(4) show ?thesis by (simp add: bucket_def)
  qed
  with Cons.IH [of ?pq1 "js0 @ [j]"] Cons.prems(1-3) p show ?case
    by (simp add: pq_ok_def)
qed

lemma pq_pop_order:
  assumes "pq_buckets po pq" and "pq_pop_front pq = (Some j, pq')"
  shows "concat (pq_queues pq) = j # concat (pq_queues pq') \<and>
    (\<forall>x\<in>set (concat (pq_queues pq')). pq_job_index po pq j \<le> pq_job_index po pq x)"
proof -
  have c: "concat (pq_queues pq) = j # concat (pq_queues pq')"
    using assms(2) pop_first_spec [of "pq_queues pq"]
    by (cases "concat (pq_queues pq)") (auto simp: pq_pop_front_def simp del: concat_eq_Nil_conv split: prod.splits)
  with pq_sorted [OF assms(1)] show ?thesis by (auto simp del: set_concat)
qed

lemma pq_discard_order:
  assumes "pq_buckets po pq" and "pq_discard_oldest pq = (Some j, pq')"
  shows "\<exists>xs ys. concat (pq_queues pq) = xs @ j # ys \<and> concat (pq_queues pq') = xs @ ys \<and>
      (\<forall>x\<in>set xs. pq_job_index po pq x < pq_job_index po pq j) \<and>
      (\<forall>y\<in>set ys. pq_job_index po pq y = pq_job_index po pq j)"
proof -
  obtain qs where p: "pop_first (rev (pq_queues pq)) = (Some j, qs)" "pq_queues pq' = rev qs"
    using assms(2) by (auto simp: pq_discard_oldest_def split: prod.splits)
  obtain i q where i: "i < length (pq_queues pq)" "pq_queues pq ! i = j # q"
      "rev qs = (pq_queues pq)[i := q]" "\<forall>k<length (pq_queues pq). i < k \<longrightarrow> pq_queues pq ! k = []"
    using pop_last_at [OF p(1)] by blast
  have "concat (drop (Suc i) (pq_queues pq)) = []"
    using i(4) by (auto simp: in_set_conv_nth)
  then have "concat (pq_queues pq) = concat (take i (pq_queues pq)) @ j # q"
    "concat (pq_queues pq') = concat (take i (pq_queues pq)) @ q"
    using concat_nth [OF i(1)] i p(2) by (simp_all add: concat_update)
  moreover have "\<forall>x\<in>set (concat (take i (pq_queues pq))). pq_job_index po pq x < i"
  proof
    fix x assume "x \<in> set (concat (take i (pq_queues pq)))"
    then obtain k where "k < i" "x \<in> set (pq_queues pq ! k)"
      by (auto simp: in_set_conv_nth [of _ "take i (pq_queues pq)"])
    moreover from this(1) i(1) have "k < length (pq_queues pq)" by (rule less_trans)
    ultimately show "pq_job_index po pq x < i" using assms(1) by (simp add: pq_buckets_def)
  qed
  moreover have "\<forall>y\<in>set (j # q). pq_job_index po pq y = i"
    using pq_buckets_at [OF assms(1) i(1,2)] .
  ultimately show ?thesis by (auto simp del: set_concat)
qed



definition ex_pm :: "(nat, standard_priority) priority_manager" where
  "ex_pm = \<lparr>pm_is_discardable = (\<lambda>k. True), pm_get_priority = (\<lambda>k. if k < 9 then Some (standard_from k) else None)\<rparr>"



end
