(* ===== verification/Factory_Routing.thy ===== *)
theory Factory_Routing
  imports Factory_Queues
begin

text \<open>
  Routing of jobs to workers (\<open>ractor/src/factory/routing.rs\<close>, \<open>ractor/src/factory/hash.rs\<close>): the
  trait \<open>Router\<close> as a record of operations, its five implementations, and the contract the
  factory relies on as the locale \<open>router\<close>, which all of them meet.

  The worker pool is a hash map from worker ids to workers. Where the code iterates over it, the
  order of the association list stands for the arbitrary order of the hash map.
\<close>

type_synonym ('k, 'm) pool = "(nat \<times> ('k, 'm) worker) list"

datatype ('k, 'm) route_result =
    Handled
  | Backlog "('k, 'm) job"
  | RateLimited "('k, 'm) job"

record ('r, 'k, 'm) router_ops =
  r_route_message ::
    "('k, 'm) env \<Rightarrow> ('k, 'm) job \<Rightarrow> nat \<Rightarrow> nat option \<Rightarrow> ('k, 'm) pool \<Rightarrow> 'r \<Rightarrow>
     processing_err + (('k, 'm) route_result \<times> 'r \<times> ('k, 'm) pool \<times> ('k, 'm) effect list)"
  r_choose_target_worker ::
    "('k, 'm) env \<Rightarrow> ('k, 'm) job \<Rightarrow> nat \<Rightarrow> nat option \<Rightarrow> ('k, 'm) pool \<Rightarrow> 'r \<Rightarrow> nat option \<times> 'r"
  r_is_factory_queueing :: "'r \<Rightarrow> bool"
  r_on_worker_availability_change :: "nat \<Rightarrow> bool \<Rightarrow> 'r \<Rightarrow> 'r"

section \<open>The body of \<open>route_message\<close>\<close>

text \<open>
  All routers have the same \<open>route_message\<close>: choose a worker, look it up and enqueue the job
  there; give the job back when there is none.
\<close>

definition route_via ::
    "(('k, 'm) env \<Rightarrow> ('k, 'm) job \<Rightarrow> nat \<Rightarrow> nat option \<Rightarrow> ('k, 'm) pool \<Rightarrow> 'r \<Rightarrow> nat option \<times> 'r) \<Rightarrow>
     ('k, 'm) env \<Rightarrow> ('k, 'm) job \<Rightarrow> nat \<Rightarrow> nat option \<Rightarrow> ('k, 'm) pool \<Rightarrow> 'r \<Rightarrow>
     processing_err + (('k, 'm) route_result \<times> 'r \<times> ('k, 'm) pool \<times> ('k, 'm) effect list)" where
  "route_via pick e j pool_size hint pool r =
     (case pick e j pool_size hint pool r of
        (None, r1) \<Rightarrow> Inr (Backlog j, r1, pool, [])
      | (Some i, r1) \<Rightarrow>
          (case hm_get pool i of
             Some w \<Rightarrow>
               (let (w1, es) = enqueue_job e j w in Inr (Handled, r1, hm_insert i w1 pool, es))
           | None \<Rightarrow> Inr (Backlog j, r1, pool, [])))"

section \<open>KeyPersistentRouting\<close>

definition hash_with_max :: "('k \<Rightarrow> u64) \<Rightarrow> 'k \<Rightarrow> nat \<Rightarrow> nat" where
  "hash_with_max h k excluded_max = unat (h k mod of_nat excluded_max)"

definition find_wid :: "(('k, 'm) worker \<Rightarrow> bool) \<Rightarrow> ('k, 'm) pool \<Rightarrow> nat option" where
  "find_wid P pool = map_option fst (find (\<lambda>(i, w). P w) pool)"

definition kp_choose_target_worker ::
    "('k, 'm) env \<Rightarrow> ('k, 'm) job \<Rightarrow> nat \<Rightarrow> nat option \<Rightarrow> ('k, 'm) pool \<Rightarrow> unit \<Rightarrow> nat option \<times> unit" where
  "kp_choose_target_worker e j pool_size hint pool r =
     (case find_wid (\<lambda>w. has_pending_key w (job_key j)) pool of
        Some i \<Rightarrow> (Some i, r)
      | None \<Rightarrow>
          let target =
            (case hint of
               Some h \<Rightarrow>
                 if hm_contains pool h then Some h
                 else if pool_size = 0 then None
                 else Some (hash_with_max (env_hash e) (job_key j) pool_size)
             | None \<Rightarrow>
                 if pool_size = 0 then None
                 else Some (hash_with_max (env_hash e) (job_key j) pool_size))
          in (case target of
                None \<Rightarrow> (None, r)
              | Some i \<Rightarrow> (if hm_contains pool i then Some i else None, r)))"

definition key_persistent_ops :: "(unit, 'k, 'm) router_ops" where
  "key_persistent_ops =
     \<lparr>r_route_message = route_via kp_choose_target_worker,
      r_choose_target_worker = kp_choose_target_worker,
      r_is_factory_queueing = (\<lambda>r. False),
      r_on_worker_availability_change = (\<lambda>i a r. r)\<rparr>"

section \<open>QueuerRouting\<close>

record queuer =
  available_workers :: "nat list"
  worker_in_queue :: "bool list"

definition queuer_default :: queuer where
  "queuer_default = \<lparr>available_workers = [], worker_in_queue = []\<rparr>"

text \<open>The loop that pops from the deque and skips stale entries.\<close>

fun pop_available ::
    "('k, 'm) pool \<Rightarrow> nat list \<Rightarrow> bool list \<Rightarrow> nat option \<times> nat list \<times> bool list" where
  "pop_available pool [] wiq = (None, [], wiq)"
| "pop_available pool (i # aw) wiq =
     (let wiq1 = (if i < length wiq then wiq[i := False] else wiq)
      in case hm_get pool i of
           Some w \<Rightarrow> if is_available w then (Some i, aw, wiq1) else pop_available pool aw wiq1
         | None \<Rightarrow> pop_available pool aw wiq1)"

definition pop_worker :: "('k, 'm) pool \<Rightarrow> queuer \<Rightarrow> nat option \<times> queuer" where
  "pop_worker pool r =
     (let (target, aw, wiq) = pop_available pool (available_workers r) (worker_in_queue r)
      in (target, \<lparr>available_workers = aw, worker_in_queue = wiq\<rparr>))"

definition hint_satisfies :: "(('k, 'm) worker \<Rightarrow> bool) \<Rightarrow> nat option \<Rightarrow> ('k, 'm) pool \<Rightarrow> bool" where
  "hint_satisfies P hint pool =
     (case Option.bind hint (hm_get pool) of Some w \<Rightarrow> P w | None \<Rightarrow> False)"

definition queuer_choose_target_worker ::
    "('k, 'm) env \<Rightarrow> ('k, 'm) job \<Rightarrow> nat \<Rightarrow> nat option \<Rightarrow> ('k, 'm) pool \<Rightarrow> queuer \<Rightarrow> nat option \<times> queuer"
  where
  "queuer_choose_target_worker e j pool_size hint pool r =
     (if hint_satisfies is_available hint pool then (hint, r) else pop_worker pool r)"

definition queuer_on_worker_availability_change :: "nat \<Rightarrow> bool \<Rightarrow> queuer \<Rightarrow> queuer" where
  "queuer_on_worker_availability_change i available r =
     (let wiq = worker_in_queue r;
          wiq1 = (if i \<ge> length wiq then wiq @ replicate (i + 1 - length wiq) False else wiq)
      in if available then
           if \<not> wiq1 ! i
           then \<lparr>available_workers = available_workers r @ [i], worker_in_queue = wiq1[i := True]\<rparr>
           else r\<lparr>worker_in_queue := wiq1\<rparr>
         else r\<lparr>worker_in_queue := wiq1[i := False]\<rparr>)"

definition queuer_ops :: "(queuer, 'k, 'm) router_ops" where
  "queuer_ops =
     \<lparr>r_route_message = route_via queuer_choose_target_worker,
      r_choose_target_worker = queuer_choose_target_worker,
      r_is_factory_queueing = (\<lambda>r. True),
      r_on_worker_availability_change = queuer_on_worker_availability_change\<rparr>"

section \<open>StickyQueuerRouting\<close>

definition sticky_choose_target_worker ::
    "('k, 'm) env \<Rightarrow> ('k, 'm) job \<Rightarrow> nat \<Rightarrow> nat option \<Rightarrow> ('k, 'm) pool \<Rightarrow> queuer \<Rightarrow> nat option \<times> queuer"
  where
  "sticky_choose_target_worker e j pool_size hint pool r =
     (if hint_satisfies (\<lambda>w. is_processing_key w (job_key j)) hint pool then (hint, r)
      else
        case find_wid (\<lambda>w. is_processing_key w (job_key j)) pool of
          Some i \<Rightarrow> (Some i, r)
        | None \<Rightarrow>
            if hint_satisfies is_available hint pool then (hint, r) else pop_worker pool r)"

definition sticky_queuer_ops :: "(queuer, 'k, 'm) router_ops" where
  "sticky_queuer_ops =
     \<lparr>r_route_message = route_via sticky_choose_target_worker,
      r_choose_target_worker = sticky_choose_target_worker,
      r_is_factory_queueing = (\<lambda>r. True),
      r_on_worker_availability_change = queuer_on_worker_availability_change\<rparr>"

section \<open>RoundRobinRouting\<close>

record round_robin =
  last_worker :: nat

definition rr_choose_target_worker ::
    "('k, 'm) env \<Rightarrow> ('k, 'm) job \<Rightarrow> nat \<Rightarrow> nat option \<Rightarrow> ('k, 'm) pool \<Rightarrow> round_robin \<Rightarrow>
     nat option \<times> round_robin" where
  "rr_choose_target_worker e j pool_size hint pool r =
     (if pool_size = 0 then (None, r)
      else if hint_satisfies is_available hint pool then (hint, r)
      else
        let key = last_worker r + 1;
            key1 = (if key \<ge> pool_size then 0 else key)
        in (if hm_contains pool key1 then Some key1 else None, r\<lparr>last_worker := key1\<rparr>))"

definition round_robin_ops :: "(round_robin, 'k, 'm) router_ops" where
  "round_robin_ops =
     \<lparr>r_route_message = route_via rr_choose_target_worker,
      r_choose_target_worker = rr_choose_target_worker,
      r_is_factory_queueing = (\<lambda>r. False),
      r_on_worker_availability_change = (\<lambda>i a r. r)\<rparr>"

section \<open>CustomRouting\<close>

record 'k custom_routing =
  hasher :: "'k \<Rightarrow> nat \<Rightarrow> nat"

definition custom_choose_target_worker ::
    "('k, 'm) env \<Rightarrow> ('k, 'm) job \<Rightarrow> nat \<Rightarrow> nat option \<Rightarrow> ('k, 'm) pool \<Rightarrow> 'k custom_routing \<Rightarrow>
     nat option \<times> 'k custom_routing" where
  "custom_choose_target_worker e j pool_size hint pool r =
     (if pool_size = 0 then (None, r)
      else
        let key = hasher r (job_key j) pool_size mod pool_size
        in (if hm_contains pool key then Some key else None, r))"

definition custom_ops :: "('k custom_routing, 'k, 'm) router_ops" where
  "custom_ops =
     \<lparr>r_route_message = route_via custom_choose_target_worker,
      r_choose_target_worker = custom_choose_target_worker,
      r_is_factory_queueing = (\<lambda>r. False),
      r_on_worker_availability_change = (\<lambda>i a r. r)\<rparr>"

section \<open>The contract of a router\<close>

text \<open>
  What the factory relies on: a chosen worker is in the pool; routing a job enqueues it at one
  worker of the pool, or gives the job back and leaves the pool alone; and a job that has a
  target is not given back as \<open>Backlog\<close>, as long as the pool has every worker below its size.
\<close>

definition covers :: "nat \<Rightarrow> ('k, 'm) pool \<Rightarrow> bool" where
  "covers n pool \<longleftrightarrow> (\<forall>i<n. hm_contains pool i)"

definition routed_to ::
    "('k, 'm) env \<Rightarrow> ('k, 'm) job \<Rightarrow> ('k, 'm) pool \<Rightarrow> nat \<Rightarrow> ('k, 'm) worker \<Rightarrow> ('k, 'm) pool \<Rightarrow>
     ('k, 'm) effect list \<Rightarrow> bool" where
  "routed_to e j pool i w pool' es \<longleftrightarrow>
     hm_get pool i = Some w \<and> pool' = hm_insert i (fst (enqueue_job e j w)) pool \<and>
     es = snd (enqueue_job e j w)"

locale router =
  fixes ops :: "('r, 'k, 'm) router_ops"
  assumes target_in_pool:
      "r_choose_target_worker ops e j n hint pool r = (Some i, r1) \<Longrightarrow> hm_contains pool i"
    and route_total: "\<exists>x. r_route_message ops e j n hint pool r = Inr x"
    and route_cases: "r_route_message ops e j n hint pool r = Inr (res, r1, pool1, es) \<Longrightarrow>
      res = Handled \<and> (\<exists>i w. routed_to e j pool i w pool1 es) \<or>
      (res = Backlog j \<or> res = RateLimited j) \<and> pool1 = pool \<and> es = []"
    and target_routed: "covers n pool \<Longrightarrow>
      r_choose_target_worker ops e j n hint pool r = (Some i, r1) \<Longrightarrow>
      r_route_message ops e j n (Some i) pool r1 = Inr (res, r2, pool2, es) \<Longrightarrow> res \<noteq> Backlog j'"

lemma route_via_total: "\<exists>x. route_via pick e j n hint pool r = Inr x"
  by (simp add: route_via_def case_prod_beta split: option.splits)

lemma route_via_cases:
  assumes "route_via pick e j n hint pool r = Inr (res, r1, pool1, es)"
  shows "res = Handled \<and> (\<exists>i w. routed_to e j pool i w pool1 es) \<or> res = Backlog j \<and> pool1 = pool \<and> es = []"
  using assms by (auto simp: route_via_def routed_to_def case_prod_beta split: option.splits prod.splits)

lemma route_via_target:
  assumes "pick e j n hint pool r = (Some i, r1)" and "hm_contains pool i"
  shows "\<exists>w. hm_get pool i = Some w \<and>
    route_via pick e j n hint pool r =
      Inr (Handled, r1, hm_insert i (fst (enqueue_job e j w)) pool, snd (enqueue_job e j w))"
  using assms by (auto simp: route_via_def case_prod_beta)

text \<open>For a router with \<open>route_via pick\<close>, two laws of \<open>pick\<close> give the contract.\<close>

lemma router_via:
  fixes ops :: "('r, 'k, 'm) router_ops"
  assumes "r_choose_target_worker ops = pick" and "r_route_message ops = route_via pick"
    and in_pool: "\<And>e j n hint pool r i r1. pick e j n hint pool r = (Some i, r1) \<Longrightarrow> hm_contains pool i"
    and again: "\<And>e j n hint pool r i r1. covers n pool \<Longrightarrow> pick e j n hint pool r = (Some i, r1) \<Longrightarrow>
      \<exists>i2 r2. pick e j n (Some i) pool r1 = (Some i2, r2)"
  shows "router ops"
proof (unfold_locales, unfold assms(1,2), goal_cases)
  case (1 e j n hint pool r i r1)
  then show ?case by (rule in_pool)
next
  case (2 e j n hint pool r)
  show ?case by (rule route_via_total)
next
  case (3 e j n hint pool r res r1 pool1 es)
  from route_via_cases [OF this] show ?case by blast
next
  case (4 n pool e j hint r i r1 res r2 pool2 es j')
  obtain i2 r3 where p: "pick e j n (Some i) pool r1 = (Some i2, r3)" using again [OF 4(1,2)] by blast
  from route_via_target [where pick = pick, OF p in_pool [OF p]] 4(3) show ?case by auto
qed

lemma find_wid_Some: "find_wid P pool = Some i \<Longrightarrow> \<exists>w. (i, w) \<in> set pool \<and> P w"
  by (force simp: find_wid_def find_Some_iff in_set_conv_nth)

lemma find_wid_contains: "find_wid P pool = Some i \<Longrightarrow> hm_contains pool i"
  by (auto dest!: find_wid_Some weak_map_of_SomeI)

lemma find_wid_None: "find_wid P pool = None \<longleftrightarrow> (\<forall>(i, w)\<in>set pool. \<not> P w)"
  by (force simp: find_wid_def find_None_iff)

lemma hint_satisfies_Some:
  "hint_satisfies P hint pool \<longleftrightarrow> (\<exists>i w. hint = Some i \<and> hm_get pool i = Some w \<and> P w)"
  by (cases hint) (auto simp: hint_satisfies_def split: option.splits)

lemma pop_available_Some:
  "pop_available pool aw wiq = (Some i, aw', wiq') \<Longrightarrow> \<exists>w. hm_get pool i = Some w \<and> is_available w"
  by (induction pool aw wiq rule: pop_available.induct) (auto simp: Let_def split: option.splits if_splits)

lemma pop_worker_Some:
  "pop_worker pool r = (Some i, r1) \<Longrightarrow> \<exists>w. hm_get pool i = Some w \<and> is_available w"
  by (auto simp: pop_worker_def dest: pop_available_Some split: prod.splits)

interpretation key_persistent: router key_persistent_ops
proof (rule router_via [where pick = kp_choose_target_worker])
  fix e :: "('k, 'm) env" and j n hint and pool :: "('k, 'm) pool" and r i r1
  assume k: "kp_choose_target_worker e j n hint pool r = (Some i, r1)"
  then show c: "hm_contains pool i"
    by (auto simp: kp_choose_target_worker_def dest: find_wid_contains split: option.splits if_splits)
  from c show "\<exists>i2 r2. kp_choose_target_worker e j n (Some i) pool r1 = (Some i2, r2)"
    by (auto simp: kp_choose_target_worker_def split: option.splits)
qed (simp_all add: key_persistent_ops_def)

interpretation queuer: router queuer_ops
proof (rule router_via [where pick = queuer_choose_target_worker])
  fix e :: "('k, 'm) env" and j n hint and pool :: "('k, 'm) pool" and r i r1
  assume k: "queuer_choose_target_worker e j n hint pool r = (Some i, r1)"
  then have c: "\<exists>w. hm_get pool i = Some w \<and> is_available w"
    by (auto simp: queuer_choose_target_worker_def hint_satisfies_Some dest: pop_worker_Some split: if_splits)
  then show "hm_contains pool i" by auto
  from c show "\<exists>i2 r2. queuer_choose_target_worker e j n (Some i) pool r1 = (Some i2, r2)"
    by (auto simp: queuer_choose_target_worker_def hint_satisfies_Some)
qed (simp_all add: queuer_ops_def)

interpretation sticky_queuer: router sticky_queuer_ops
proof (rule router_via [where pick = sticky_choose_target_worker])
  fix e :: "('k, 'm) env" and j n hint and pool :: "('k, 'm) pool" and r i r1
  assume k: "sticky_choose_target_worker e j n hint pool r = (Some i, r1)"
  then show "hm_contains pool i"
    by (auto simp: sticky_choose_target_worker_def hint_satisfies_Some
        dest: pop_worker_Some find_wid_contains split: if_splits option.splits)
  have "find_wid (\<lambda>w. is_processing_key w (job_key j)) pool \<noteq> None \<or>
      (\<exists>w. hm_get pool i = Some w \<and> (is_processing_key w (job_key j) \<or> is_available w))"
    using k by (auto simp: sticky_choose_target_worker_def hint_satisfies_Some
        dest: pop_worker_Some split: if_splits option.splits)
  then show "\<exists>i2 r2. sticky_choose_target_worker e j n (Some i) pool r1 = (Some i2, r2)"
    by (auto simp: sticky_choose_target_worker_def hint_satisfies_Some split: option.splits)
qed (simp_all add: sticky_queuer_ops_def)

interpretation round_robin: router round_robin_ops
proof (rule router_via [where pick = rr_choose_target_worker])
  fix e :: "('k, 'm) env" and j n hint and pool :: "('k, 'm) pool" and r i r1
  assume k: "rr_choose_target_worker e j n hint pool r = (Some i, r1)"
  then show "hm_contains pool i"
    by (auto simp: rr_choose_target_worker_def hint_satisfies_Some Let_def split: if_splits)
  assume "covers n pool"
  with k show "\<exists>i2 r2. rr_choose_target_worker e j n (Some i) pool r1 = (Some i2, r2)"
    by (auto simp: rr_choose_target_worker_def covers_def Let_def split: if_splits)
qed (simp_all add: round_robin_ops_def)

interpretation custom: router custom_ops
proof (rule router_via [where pick = custom_choose_target_worker])
  fix e :: "('k, 'm) env" and j n hint and pool :: "('k, 'm) pool" and r i r1
  assume k: "custom_choose_target_worker e j n hint pool r = (Some i, r1)"
  then show "hm_contains pool i"
    by (auto simp: custom_choose_target_worker_def Let_def split: if_splits)
  from k show "\<exists>i2 r2. custom_choose_target_worker e j n (Some i) pool r1 = (Some i2, r2)"
    by (auto simp: custom_choose_target_worker_def Let_def split: if_splits)
qed (simp_all add: custom_ops_def)

section \<open>Routers that track available workers\<close>

text \<open>
  A router that keeps a list of available workers may forget a worker only when it is not
  available, or when it has just been given the job; and it gives a job back only when no
  worker it tracks is available.
\<close>

definition avail :: "('k, 'm) pool \<Rightarrow> nat \<Rightarrow> bool" where
  "avail pool i = (case hm_get pool i of Some w \<Rightarrow> is_available w | None \<Rightarrow> False)"

locale tracking_router = router ops
  for ops :: "('r, 'k, 'm) router_ops" +
  fixes tracked :: "'r \<Rightarrow> nat set"
    and rok :: "'r \<Rightarrow> bool"
  assumes choose_rok: "rok r \<Longrightarrow> r_choose_target_worker ops e j n hint pool r = (t, r1) \<Longrightarrow> rok r1"
    and choose_tracked: "rok r \<Longrightarrow> r_choose_target_worker ops e j n hint pool r = (t, r1) \<Longrightarrow>
      k \<in> tracked r \<Longrightarrow> avail pool k \<Longrightarrow> t \<noteq> None \<and> (k \<in> tracked r1 \<or> t = Some k)"
    and route_rok: "rok r \<Longrightarrow> r_route_message ops e j n hint pool r = Inr (res, r1, pool1, es) \<Longrightarrow> rok r1"
    and route_tracked: "rok r \<Longrightarrow> r_route_message ops e j n hint pool r = Inr (res, r1, pool1, es) \<Longrightarrow>
      k \<in> tracked r \<Longrightarrow> avail pool k \<Longrightarrow>
      (\<forall>j'. res \<noteq> Backlog j') \<and> (k \<in> tracked r1 \<or> res = Handled \<and> (\<exists>w. routed_to e j pool k w pool1 es))"
    and target_kept: "rok r \<Longrightarrow> r_choose_target_worker ops e j n hint pool r = (Some i, r1) \<Longrightarrow>
      r_route_message ops e j n (Some i) pool r1 = Inr (res, r2, pool2, es) \<Longrightarrow> avail pool i \<Longrightarrow>
      i \<in> tracked r2 \<or> res = Handled \<and> (\<exists>w. routed_to e j pool i w pool2 es)"
    and available_rok: "rok r \<Longrightarrow> rok (r_on_worker_availability_change ops i b r)"
    and available_tracked: "rok r \<Longrightarrow>
      tracked (r_on_worker_availability_change ops i b r) \<supseteq> (if b then insert i (tracked r) else tracked r)"

definition deque_ok :: "queuer \<Rightarrow> bool" where
  "deque_ok r \<longleftrightarrow> (\<forall>i<length (worker_in_queue r). worker_in_queue r ! i \<longrightarrow> i \<in> set (available_workers r))"

lemma pop_available_deque:
  assumes "pop_available pool aw wiq = (t, aw', wiq')"
    and "\<forall>i<length wiq. wiq ! i \<longrightarrow> i \<in> set aw"
  shows "\<forall>i<length wiq'. wiq' ! i \<longrightarrow> i \<in> set aw'"
  using assms
proof (induction pool aw wiq rule: pop_available.induct)
  case (2 pool i aw wiq)
  let ?wiq1 = "if i < length wiq then wiq[i := False] else wiq"
  have "\<forall>k<length ?wiq1. ?wiq1 ! k \<longrightarrow> k \<in> set aw"
    using 2(4) by (auto simp: nth_list_update split: if_splits)
  with 2 show ?case by (auto simp: Let_def split: option.splits if_splits)
qed auto

lemma pop_available_tracked:
  assumes "pop_available pool aw wiq = (t, aw', wiq')" and "k \<in> set aw" and "avail pool k"
  shows "t \<noteq> None \<and> (k \<in> set aw' \<or> t = Some k)"
  using assms
proof (induction pool aw wiq rule: pop_available.induct)
  case (2 pool i aw wiq)
  then show ?case
    by (cases "hm_get pool i") (auto simp: Let_def avail_def split: if_splits)
qed auto

lemma pop_worker_ok: "pop_worker pool r = (t, r1) \<Longrightarrow> deque_ok r \<Longrightarrow> deque_ok r1"
  by (auto simp: pop_worker_def deque_ok_def dest: pop_available_deque split: prod.splits)

lemma pop_worker_tracked:
  "pop_worker pool r = (t, r1) \<Longrightarrow> k \<in> set (available_workers r) \<Longrightarrow> avail pool k \<Longrightarrow>
   t \<noteq> None \<and> (k \<in> set (available_workers r1) \<or> t = Some k)"
  by (auto simp: pop_worker_def dest: pop_available_tracked split: prod.splits)

lemma queuer_change_ok: "deque_ok r \<Longrightarrow> deque_ok (queuer_on_worker_availability_change i b r)"
  by (auto simp: deque_ok_def queuer_on_worker_availability_change_def Let_def nth_append
      nth_list_update split: if_splits)

lemma queuer_change_tracked:
  assumes "deque_ok r"
  shows "set (available_workers (queuer_on_worker_availability_change i b r)) \<supseteq>
    (if b then insert i (set (available_workers r)) else set (available_workers r))"
  using assms
  by (auto simp: deque_ok_def queuer_on_worker_availability_change_def Let_def nth_append
      split: if_splits)

text \<open>From a choice that tracks to the whole contract, for the routers with \<open>route_via\<close>.\<close>

lemma route_via_Some:
  assumes "route_via pick e j n hint pool r = Inr (res, r1, pool1, es)"
    and "pick e j n hint pool r = (Some k, r2)" and "avail pool k"
  shows "res = Handled \<and> r1 = r2 \<and> (\<exists>w. routed_to e j pool k w pool1 es)"
  using assms
  by (auto simp: route_via_def routed_to_def avail_def case_prod_beta split: option.splits)

lemma route_via_state:
  "route_via pick e j n hint pool r = Inr (res, r1, pool1, es) \<Longrightarrow> r1 = snd (pick e j n hint pool r)"
  by (auto simp: route_via_def case_prod_beta split: option.splits prod.splits)

lemma route_via_Backlog:
  "route_via pick e j n hint pool r = Inr (res, r1, pool1, es) \<Longrightarrow> res \<noteq> Handled \<Longrightarrow>
   fst (pick e j n hint pool r) = Some i \<Longrightarrow> hm_get pool i = None"
  by (auto simp: route_via_def case_prod_beta split: option.splits prod.splits)

lemma tracking_via:
  fixes ops :: "(queuer, 'k, 'm) router_ops"
  assumes "router ops" and ops: "r_choose_target_worker ops = pick" "r_route_message ops = route_via pick"
      "r_on_worker_availability_change ops = queuer_on_worker_availability_change"
    and ok: "\<And>e j n hint pool r t r1. deque_ok r \<Longrightarrow> pick e j n hint pool r = (t, r1) \<Longrightarrow> deque_ok r1"
    and tr: "\<And>e j n hint pool r t r1 k. pick e j n hint pool r = (t, r1) \<Longrightarrow>
      k \<in> set (available_workers r) \<Longrightarrow> avail pool k \<Longrightarrow>
      t \<noteq> None \<and> (k \<in> set (available_workers r1) \<or> t = Some k)"
    and again: "\<And>e j n hint pool r i r1. pick e j n hint pool r = (Some i, r1) \<Longrightarrow> avail pool i \<Longrightarrow>
      pick e j n (Some i) pool r1 = (Some i, r1)"
  shows "tracking_router ops (\<lambda>r. set (available_workers r)) deque_ok"
proof (intro tracking_router.intro tracking_router_axioms.intro, fact assms(1), unfold ops, goal_cases)
  case (1 r e j n hint pool t r1)
  then show ?case by (rule ok)
next
  case (2 r e j n hint pool t r1 k)
  then show ?case by (intro tr)
next
  case (3 r e j n hint pool res r1 pool1 es)
  then show ?case using ok [of r e j n hint pool] route_via_state by (metis prod.collapse)
next
  case (4 r e j n hint pool res r1 pool1 es k)
  obtain t r2 where p: "pick e j n hint pool r = (t, r2)" by force
  from tr [OF p 4(3,4)] obtain i where i: "t = Some i" "k \<in> set (available_workers r2) \<or> i = k" by auto
  from router.target_in_pool [OF assms(1), of e j n hint pool r i r2] p i(1)
  have "hm_get pool i \<noteq> None" by (simp add: ops)
  with route_via_Backlog [OF 4(2)] p i(1) have "res = Handled" by force
  moreover have "r1 = r2" using route_via_state [OF 4(2)] p by simp
  ultimately show ?case
    using i route_via_Some [OF 4(2), of k r2] p 4(4) by auto
next
  case (5 r e j n hint pool i r1 res r2 pool2 es)
  from route_via_Some [OF 5(3) again [OF 5(2,4)] 5(4)] show ?case by blast
next
  case (6 r i b)
  then show ?case by (rule queuer_change_ok)
next
  case (7 r i b)
  then show ?case by (rule queuer_change_tracked)
qed

interpretation queuer_tracking: tracking_router queuer_ops "\<lambda>r. set (available_workers r)" deque_ok
proof (rule tracking_via [where pick = queuer_choose_target_worker])
  fix e :: "('k, 'm) env" and j n hint and pool :: "('k, 'm) pool" and r t r1
  assume p: "queuer_choose_target_worker e j n hint pool r = (t, r1)"
  then show "deque_ok r \<Longrightarrow> deque_ok r1"
    by (auto simp: queuer_choose_target_worker_def dest: pop_worker_ok split: if_splits)
  fix k
  assume "k \<in> set (available_workers r)" "avail pool k"
  with p show "t \<noteq> None \<and> (k \<in> set (available_workers r1) \<or> t = Some k)"
    by (auto simp: queuer_choose_target_worker_def hint_satisfies_Some dest: pop_worker_tracked split: if_splits)
next
  fix e :: "('k, 'm) env" and j n hint and pool :: "('k, 'm) pool" and r i r1
  assume "avail pool i"
  then show "queuer_choose_target_worker e j n (Some i) pool r1 = (Some i, r1)"
    by (auto simp: queuer_choose_target_worker_def hint_satisfies_Some avail_def split: option.splits)
qed (simp_all add: queuer_ops_def queuer.router_axioms [unfolded queuer_ops_def])

interpretation sticky_tracking: tracking_router sticky_queuer_ops "\<lambda>r. set (available_workers r)" deque_ok
proof (rule tracking_via [where pick = sticky_choose_target_worker])
  fix e :: "('k, 'm) env" and j n hint and pool :: "('k, 'm) pool" and r t r1
  assume p: "sticky_choose_target_worker e j n hint pool r = (t, r1)"
  then show "deque_ok r \<Longrightarrow> deque_ok r1"
    by (auto simp: sticky_choose_target_worker_def dest: pop_worker_ok split: if_splits option.splits)
  fix k
  assume "k \<in> set (available_workers r)" "avail pool k"
  note k = this
  show "t \<noteq> None \<and> (k \<in> set (available_workers r1) \<or> t = Some k)"
  proof (cases "find_wid (\<lambda>w. is_processing_key w (job_key j)) pool")
    case None
    with p k show ?thesis
      by (auto simp: sticky_choose_target_worker_def hint_satisfies_Some dest: pop_worker_tracked split: if_splits)
  next
    case (Some a)
    with p have "r1 = r" "t = Some a \<or> t = hint \<and> hint \<noteq> None"
      by (auto simp: sticky_choose_target_worker_def hint_satisfies_Some split: if_splits)
    with k show ?thesis by auto
  qed
next
  fix e :: "('k, 'm) env" and j n hint and pool :: "('k, 'm) pool" and r i r1
  assume p: "sticky_choose_target_worker e j n hint pool r = (Some i, r1)" and "avail pool i"
  then have "\<not> hint_satisfies (\<lambda>w. is_processing_key w (job_key j)) (Some i) pool"
    "hint_satisfies is_available (Some i) pool"
    by (auto simp: hint_satisfies_Some avail_def is_processing_key_def is_available_def split: option.splits)
  with p show "sticky_choose_target_worker e j n (Some i) pool r1 = (Some i, r1)"
    by (auto simp: sticky_choose_target_worker_def hint_satisfies_Some split: option.splits if_splits)
qed (simp_all add: sticky_queuer_ops_def sticky_queuer.router_axioms [unfolded sticky_queuer_ops_def])

section \<open>Exclusive keys\<close>

text \<open>The jobs of key \<open>k\<close> at worker \<open>i\<close>; no two workers of a pool have a job of the same key.\<close>

definition pool_pending :: "('k, 'm) pool \<Rightarrow> nat \<Rightarrow> 'k \<Rightarrow> nat" where
  "pool_pending pool i k = (case hm_get pool i of None \<Rightarrow> 0 | Some w \<Rightarrow> pending w k)"

definition key_exclusive :: "('k, 'm) pool \<Rightarrow> bool" where
  "key_exclusive pool \<longleftrightarrow>
     (\<forall>k i1 i2. pool_pending pool i1 k \<noteq> 0 \<longrightarrow> pool_pending pool i2 k \<noteq> 0 \<longrightarrow> i1 = i2)"

lemma pool_pending_insert [simp]:
  "pool_pending (hm_insert i w pool) i' k = (if i' = i then pending w k else pool_pending pool i' k)"
  by (simp add: pool_pending_def)

lemma pool_pending_remove [simp]:
  "pool_pending (hm_remove i pool) i' k = (if i' = i then 0 else pool_pending pool i' k)"
  by (simp add: pool_pending_def restrict_map_def)

lemma key_exclusive_le:
  assumes "key_exclusive pool" and "\<And>i k. pool_pending pool' i k \<le> pool_pending pool i k"
  shows "key_exclusive pool'"
  using assms unfolding key_exclusive_def by (metis le_zero_eq)

lemma key_exclusive_update:
  assumes "key_exclusive pool" and "hm_get pool i = Some w" and "\<And>k. pending w' k \<le> pending w k"
  shows "key_exclusive (hm_insert i w' pool)"
  using assms by (intro key_exclusive_le [OF assms(1)]) (simp add: pool_pending_def)

lemma key_exclusive_remove: "key_exclusive pool \<Longrightarrow> key_exclusive (hm_remove i pool)"
  by (erule key_exclusive_le) simp

lemma key_exclusive_new: "key_exclusive pool \<Longrightarrow> (\<And>k. pending w k = 0) \<Longrightarrow> key_exclusive (hm_insert i w pool)"
  by (erule key_exclusive_le) simp

text \<open>
  A worker that may receive a job of key \<open>k\<close>: the one that has pending jobs of that key, if
  there is one.
\<close>

definition owns_key :: "('k, 'm) pool \<Rightarrow> nat \<Rightarrow> 'k \<Rightarrow> bool" where
  "owns_key pool i k \<longleftrightarrow> (\<forall>i'. pool_pending pool i' k \<noteq> 0 \<longrightarrow> i' = i)"

lemma key_exclusive_enqueue:
  assumes "key_exclusive pool" and "hm_get pool i = Some w" and "owns_key pool i (job_key j)"
  shows "key_exclusive (hm_insert i (fst (enqueue_job e j w)) pool)"
  unfolding key_exclusive_def
proof (intro allI impI)
  fix k i1 i2
  let ?pool = "hm_insert i (fst (enqueue_job e j w)) pool"
  assume 1: "pool_pending ?pool i1 k \<noteq> 0" and 2: "pool_pending ?pool i2 k \<noteq> 0"
  have "pool_pending pool i' k \<noteq> 0 \<or> i' = i \<and> k = job_key j" if "pool_pending ?pool i' k \<noteq> 0" for i'
    using that enqueue_job_pending [of e j w k] assms(2)
    by (auto simp: pool_pending_def split: if_splits)
  from this [OF 1] this [OF 2] show "i1 = i2"
    using assms(1,3) unfolding key_exclusive_def owns_key_def by blast
qed

lemma kp_owner:
  assumes "kp_choose_target_worker e j n hint pool r = (Some i, r1)" and "key_exclusive pool"
    and "hm_wf pool" and wf: "\<And>i w. hm_get pool i = Some w \<Longrightarrow> counts_wf w"
  shows "owns_key pool i (job_key j)"
proof (cases "find_wid (\<lambda>w. has_pending_key w (job_key j)) pool")
  case None
  have "pool_pending pool i' (job_key j) = 0" for i'
  proof (cases "hm_get pool i'")
    case (Some w)
    with None have "\<not> has_pending_key w (job_key j)"
      by (auto simp: find_wid_None dest: map_of_SomeD)
    with wf [OF Some] Some show ?thesis by (simp add: pool_pending_def has_pending_key_pos)
  qed (simp add: pool_pending_def)
  then show ?thesis by (simp add: owns_key_def)
next
  case (Some a)
  then have "a = i" using assms(1) by (simp add: kp_choose_target_worker_def)
  obtain w where w: "hm_get pool a = Some w" "has_pending_key w (job_key j)"
    using find_wid_Some [OF Some] assms(3) by (auto simp: map_of_eq_Some_iff)
  with wf [OF w(1)] have "pool_pending pool a (job_key j) \<noteq> 0"
    by (simp add: pool_pending_def has_pending_key_pos)
  with assms(2) \<open>a = i\<close> show ?thesis by (auto simp: owns_key_def key_exclusive_def)
qed

text \<open>
  Sticky routing looks at the keys in flight only. That is enough when messages are delivered:
  then a worker holds jobs of one key at a time, and it is working on it.
\<close>

definition one_key :: "('k, 'm) worker \<Rightarrow> bool" where
  "one_key w \<longleftrightarrow> (\<forall>k k'. pending w k \<noteq> 0 \<longrightarrow> pending w k' \<noteq> 0 \<longrightarrow> k = k')"

lemma one_key_le: "one_key w \<Longrightarrow> (\<And>k. pending w' k \<le> pending w k) \<Longrightarrow> one_key w'"
  unfolding one_key_def by (metis le_zero_eq)

lemma one_key_enqueue:
  assumes "one_key w" and "(\<forall>k. pending w k = 0) \<or> pending w (job_key j) \<noteq> 0"
  shows "one_key (fst (enqueue_job e j w))"
  unfolding one_key_def
proof (intro allI impI)
  fix k k'
  assume *: "pending (fst (enqueue_job e j w)) k \<noteq> 0" "pending (fst (enqueue_job e j w)) k' \<noteq> 0"
  have "pending w k1 \<noteq> 0 \<or> k1 = job_key j" if "pending (fst (enqueue_job e j w)) k1 \<noteq> 0" for k1
    using that enqueue_job_pending [of e j w k1] by (auto split: if_splits)
  from this [OF *(1)] this [OF *(2)] show "k = k'"
    using assms unfolding one_key_def by metis
qed

lemma one_key_processing:
  assumes "balanced {#} w" and "work_conserving w" and "one_key w"
  shows "pending w k \<noteq> 0 \<longleftrightarrow> is_processing_key w k"
proof
  assume p: "pending w k \<noteq> 0"
  have "counts_wf w" using assms(1) by (simp add: balanced_def)
  with p have "k \<in> job_key ` set (message_queue w) \<or> is_processing_key w k"
    using has_pending_key_iff [OF assms(1), of k] by (simp add: has_pending_key_pos)
  moreover have "is_processing_key w k" if "message_queue w \<noteq> []"
  proof -
    from that assms(2) obtain k1 opts cj where "curr_jobs w = (k1, opts) # cj"
      by (cases "curr_jobs w") (auto simp: work_conserving_def)
    then have "is_processing_key w k1" by (simp add: is_processing_key_def)
    moreover from this have "pending w k1 \<noteq> 0" using assms(1) by (simp add: balanced_def)
    ultimately show ?thesis using p assms(3) by (auto simp: one_key_def)
  qed
  ultimately show "is_processing_key w k" by force
qed (use assms(1) in \<open>simp add: balanced_def\<close>)

definition sticky_worker :: "('k, 'm) worker \<Rightarrow> bool" where
  "sticky_worker w \<longleftrightarrow> balanced {#} w \<and> work_conserving w \<and> one_key w"

lemma available_no_pending:
  assumes "balanced {#} w" and "is_available w"
  shows "pending w k = 0"
  using assms by (simp add: balanced_def is_available_def is_processing_key_def)

lemma sticky_owner:
  assumes "sticky_choose_target_worker e j n hint pool r = (Some i, r1)" and "key_exclusive pool"
    and "hm_wf pool" and st: "\<And>i w. hm_get pool i = Some w \<Longrightarrow> sticky_worker w"
  shows "owns_key pool i (job_key j) \<and>
    (\<exists>w. hm_get pool i = Some w \<and> ((\<forall>k. pending w k = 0) \<or> pending w (job_key j) \<noteq> 0))"
proof -
  have iff: "pending w k \<noteq> 0 \<longleftrightarrow> is_processing_key w k" if "hm_get pool i' = Some w" for i' w k
    using one_key_processing [of w k] st [OF that] by (auto simp: sticky_worker_def)
  consider (proc) w where "hm_get pool i = Some w" "is_processing_key w (job_key j)"
    | (free) w where "hm_get pool i = Some w" "is_available w"
        "find_wid (\<lambda>w. is_processing_key w (job_key j)) pool = None"
    using assms(1,3)
    by (auto simp: sticky_choose_target_worker_def hint_satisfies_Some map_of_eq_Some_iff
        dest: pop_worker_Some find_wid_Some split: if_splits option.splits)
  then show ?thesis
  proof cases
    case proc
    with iff have p: "pending w (job_key j) \<noteq> 0" by blast
    with proc(1) assms(2) have "owns_key pool i (job_key j)"
      by (auto simp: owns_key_def key_exclusive_def pool_pending_def)
    with p proc(1) show ?thesis by blast
  next
    case free
    have "pool_pending pool i' (job_key j) = 0" for i'
    proof (cases "hm_get pool i'")
      case (Some w')
      with free(3) have "\<not> is_processing_key w' (job_key j)" by (auto simp: find_wid_None dest: map_of_SomeD)
      with iff [OF Some] Some show ?thesis by (auto simp: pool_pending_def)
    qed (simp add: pool_pending_def)
    moreover have "\<forall>k. pending w k = 0"
      using st [OF free(1)] free(2) available_no_pending by (auto simp: sticky_worker_def)
    ultimately show ?thesis using free(1) by (auto simp: owns_key_def)
  qed
qed

section \<open>Hashing and round robin\<close>

lemma hash_with_max_less:
  assumes "0 < n" and "n < 2 ^ 64"
  shows "hash_with_max h k n < n"
proof -
  have "unat (of_nat n :: u64) = n" using assms by (simp add: unat_of_nat)
  moreover have "unat (h k mod of_nat n) < unat (of_nat n :: u64)"
    using assms calculation by (simp add: unat_mod)
  ultimately show ?thesis by (simp add: hash_with_max_def)
qed

text \<open>The workers chosen for a sequence of jobs, when nothing else happens.\<close>

primrec rr_targets ::
    "('k, 'm) env \<Rightarrow> nat \<Rightarrow> ('k, 'm) pool \<Rightarrow> ('k, 'm) job list \<Rightarrow> round_robin \<Rightarrow> nat option list" where
  "rr_targets e n pool [] r = []"
| "rr_targets e n pool (j # js) r =
     (let (t, r1) = rr_choose_target_worker e j n None pool r in t # rr_targets e n pool js r1)"

text \<open>
  C22. Round robin deals the jobs to the workers of the pool in turn: the \<open>m\<close>-th job after
  worker \<open>last_worker\<close> goes to worker \<open>last_worker + m\<close> modulo the size of the pool.
\<close>

theorem round_robin_fair:
  assumes "covers n pool" and "last_worker r < n"
  shows "rr_targets e n pool js r = map (\<lambda>m. Some ((last_worker r + 1 + m) mod n)) [0..<length js]"
  using assms(2)
proof (induction js arbitrary: r)
  case (Cons j js)
  let ?k = "(last_worker r + 1) mod n"
  have k: "(if last_worker r + 1 \<ge> n then 0 else last_worker r + 1) = ?k"
    using Cons.prems by (auto simp: mod_Suc)
  have "hm_contains pool ?k" using assms(1) Cons.prems by (simp add: covers_def)
  then have c: "rr_choose_target_worker e j n None pool r = (Some ?k, r\<lparr>last_worker := ?k\<rparr>)"
    unfolding rr_choose_target_worker_def Let_def k using Cons.prems by (simp add: hint_satisfies_def)
  have "rr_targets e n pool js (r\<lparr>last_worker := ?k\<rparr>) = map (\<lambda>m. Some ((?k + 1 + m) mod n)) [0..<length js]"
    using Cons.IH [of "r\<lparr>last_worker := ?k\<rparr>"] Cons.prems by simp
  also have "\<dots> = map (\<lambda>m. Some ((last_worker r + 1 + Suc m) mod n)) [0..<length js]"
    using mod_add_left_eq [of "last_worker r + 1" n "1 + m" for m] by simp
  finally show ?case
    unfolding rr_targets.simps c by (simp add: upt_conv_Cons map_Suc_upt [symmetric] del: upt_Suc)
qed simp

theorem round_robin_fair_witness:
  "rr_targets ex_env 3 (map (\<lambda>i. (i, worker_new ''f'' i (Local (of_nat i)) WorkerNone None None)) [0..<3])
     (map ex_job [5, 6, 7, 8]) \<lparr>last_worker = 1\<rparr> = [Some 2, Some 0, Some 1, Some 2]"
proof -
  let ?pool = "map (\<lambda>i. (i, worker_new ''f'' i (Local (of_nat i)) WorkerNone None None :: (nat, nat) worker)) [0..<3]"
  have "covers 3 ?pool" by (simp add: covers_def upt_rec numeral_eq_Suc less_Suc_eq)
  from round_robin_fair [OF this, of "\<lparr>last_worker = 1\<rparr>" ex_env "map ex_job [5, 6, 7, 8]"]
  show ?thesis by (simp add: upt_rec)
qed

end
