(* ===== verification/Factory_Ratelim.thy ===== *)
theory Factory_Ratelim
  imports Factory_Routing
begin

text \<open>
  Rate limiting (\<open>ractor/src/factory/ratelim.rs\<close>): the router that wraps another router and a
  rate limiter, which meets the router contract whenever the wrapped one does, and the
  leaky-bucket limiter.
\<close>

section \<open>RateLimitedRouter\<close>

record 'l limiter_ops =
  l_check :: "clock \<Rightarrow> 'l \<Rightarrow> bool \<times> 'l"
  l_bump :: "'l \<Rightarrow> 'l"

record ('r, 'l) rate_limited =
  rl_router :: 'r
  rl_limiter :: 'l

definition rl_route_message ::
    "('r, 'k, 'm) router_ops \<Rightarrow> 'l limiter_ops \<Rightarrow>
     ('k, 'm) env \<Rightarrow> ('k, 'm) job \<Rightarrow> nat \<Rightarrow> nat option \<Rightarrow> ('k, 'm) pool \<Rightarrow> ('r, 'l) rate_limited \<Rightarrow>
     processing_err +
       (('k, 'm) route_result \<times> ('r, 'l) rate_limited \<times> ('k, 'm) pool \<times> ('k, 'm) effect list)" where
  "rl_route_message rops lops e j n hint pool r =
     (let (ok, l1) = l_check lops (env_clock e) (rl_limiter r)
      in if \<not> ok then
           let inner =
             (case hint of
                Some i \<Rightarrow>
                  if avail pool i then r_on_worker_availability_change rops i True (rl_router r)
                  else rl_router r
              | None \<Rightarrow> rl_router r)
           in Inr (RateLimited j, \<lparr>rl_router = inner, rl_limiter = l1\<rparr>, pool, [])
         else
           (case r_route_message rops e j n hint pool (rl_router r) of
              Inl err \<Rightarrow> Inl err
            | Inr (res, r1, pool1, es) \<Rightarrow>
                let l2 = (case res of Handled \<Rightarrow> l_bump lops l1 | _ \<Rightarrow> l1)
                in Inr (res, \<lparr>rl_router = r1, rl_limiter = l2\<rparr>, pool1, es)))"

definition rl_choose_target_worker ::
    "('r, 'k, 'm) router_ops \<Rightarrow>
     ('k, 'm) env \<Rightarrow> ('k, 'm) job \<Rightarrow> nat \<Rightarrow> nat option \<Rightarrow> ('k, 'm) pool \<Rightarrow> ('r, 'l) rate_limited \<Rightarrow>
     nat option \<times> ('r, 'l) rate_limited" where
  "rl_choose_target_worker rops e j n hint pool r =
     (let (t, r1) = r_choose_target_worker rops e j n hint pool (rl_router r)
      in (t, r\<lparr>rl_router := r1\<rparr>))"

definition rl_on_worker_availability_change ::
    "('r, 'k, 'm) router_ops \<Rightarrow> nat \<Rightarrow> bool \<Rightarrow> ('r, 'l) rate_limited \<Rightarrow> ('r, 'l) rate_limited" where
  "rl_on_worker_availability_change rops i a r =
     r\<lparr>rl_router := r_on_worker_availability_change rops i a (rl_router r)\<rparr>"

definition rate_limited_ops ::
    "('r, 'k, 'm) router_ops \<Rightarrow> 'l limiter_ops \<Rightarrow> (('r, 'l) rate_limited, 'k, 'm) router_ops" where
  "rate_limited_ops rops lops =
     \<lparr>r_route_message = rl_route_message rops lops,
      r_choose_target_worker = rl_choose_target_worker rops,
      r_is_factory_queueing = (\<lambda>r. r_is_factory_queueing rops (rl_router r)),
      r_on_worker_availability_change = rl_on_worker_availability_change rops\<rparr>"

section \<open>LeakyBucketRateLimiter\<close>

text \<open>
  \<open>Instant::checked_add\<close>: instants are bounded (a signed 64-bit number of seconds and a
  nanosecond part). \<open>MAX_LB_BALANCE\<close> is \<open>isize::MAX\<close>.
\<close>

definition instant_max :: instant where
  "instant_max = (2 ^ 63 - 1) * 1000000000 + 999999999"

definition checked_add :: "instant \<Rightarrow> duration \<Rightarrow> instant option" where
  "checked_add t d = (if t + d \<le> instant_max then Some (t + d) else None)"

definition max_lb_balance :: nat where
  "max_lb_balance = 2 ^ 63 - 1"

record leaky_bucket =
  lb_refill :: nat
  lb_interval :: duration
  lb_max :: nat
  lb_balance :: nat
  lb_deadline :: "instant option"

definition leaky_bucket_new :: "clock \<Rightarrow> nat \<Rightarrow> duration \<Rightarrow> nat \<Rightarrow> nat option \<Rightarrow> leaky_bucket" where
  "leaky_bucket_new c refill interval mx initial =
     \<lparr>lb_refill = refill, lb_interval = interval, lb_max = mx,
      lb_balance = min (case initial of None \<Rightarrow> mx | Some i \<Rightarrow> i) mx,
      lb_deadline = checked_add (clk_instant c) interval\<rparr>"

definition lb_refresh :: "instant \<Rightarrow> leaky_bucket \<Rightarrow> leaky_bucket" where
  "lb_refresh now b =
     (case lb_deadline b of
        None \<Rightarrow> b
      | Some deadline \<Rightarrow>
          if now < deadline then b
          else if lb_interval b = 0 then
            b\<lparr>lb_balance := min (sat_add (lb_balance b) (lb_refill b)) (lb_max b), lb_deadline := Some now\<rparr>
          else
            let since = now - deadline;
                periods = min (since div lb_interval b + 1) usize_max;
                tokens = min (sat_mul periods (lb_refill b)) max_lb_balance;
                rest = since mod lb_interval b
            in b\<lparr>lb_deadline := checked_add now (lb_interval b - rest),
                 lb_balance := min (sat_add (lb_balance b) tokens) (lb_max b)\<rparr>)"

definition lb_check :: "clock \<Rightarrow> leaky_bucket \<Rightarrow> bool \<times> leaky_bucket" where
  "lb_check c b = (let b1 = lb_refresh (clk_instant c) b in (lb_balance b1 > 0, b1))"

definition lb_bump :: "leaky_bucket \<Rightarrow> leaky_bucket" where
  "lb_bump b = (if lb_balance b > 0 then b\<lparr>lb_balance := lb_balance b - 1\<rparr> else b)"

definition leaky_bucket_ops :: "leaky_bucket limiter_ops" where
  "leaky_bucket_ops = \<lparr>l_check = lb_check, l_bump = lb_bump\<rparr>"

section \<open>The wrapped router keeps the contract\<close>

locale limited_router = router ops
  for ops :: "('r, 'k, 'm) router_ops" +
  fixes lops :: "'l limiter_ops"

lemma rl_route_Inr:
  assumes "rl_route_message rops lops e j n hint pool r = Inr (res, r1, pool1, es)"
  obtains (limited) "\<not> fst (l_check lops (env_clock e) (rl_limiter r))" "res = RateLimited j" "pool1 = pool"
      "es = []" "rl_limiter r1 = snd (l_check lops (env_clock e) (rl_limiter r))"
      "rl_router r1 =
        (case hint of
           Some i \<Rightarrow> if avail pool i then r_on_worker_availability_change rops i True (rl_router r) else rl_router r
         | None \<Rightarrow> rl_router r)"
  | (routed) "fst (l_check lops (env_clock e) (rl_limiter r))"
      "r_route_message rops e j n hint pool (rl_router r) = Inr (res, rl_router r1, pool1, es)"
      "rl_limiter r1 =
        (let l = snd (l_check lops (env_clock e) (rl_limiter r)) in if res = Handled then l_bump lops l else l)"
  using assms
  by (cases "fst (l_check lops (env_clock e) (rl_limiter r))")
    (force simp: rl_route_message_def case_prod_beta Let_def split: sum.splits route_result.splits)+

lemma rl_choose_eq:
  "rl_choose_target_worker rops e j n hint pool r = (t, r1) \<longleftrightarrow>
   (\<exists>x. r_choose_target_worker rops e j n hint pool (rl_router r) = (t, x) \<and> r1 = r\<lparr>rl_router := x\<rparr>)"
  by (auto simp: rl_choose_target_worker_def split: prod.splits)

sublocale limited_router \<subseteq> limited: router "rate_limited_ops ops lops"
proof (unfold_locales, unfold rate_limited_ops_def router_ops.simps, goal_cases)
  case (1 e j n hint pool r i r1)
  then show ?case by (auto simp: rl_choose_eq dest: target_in_pool)
next
  case (2 e j n hint pool r)
  obtain res r1 pool1 es where "r_route_message ops e j n hint pool (rl_router r) = Inr (res, r1, pool1, es)"
    using route_total [of e j n hint pool "rl_router r"] by (metis prod_cases4)
  then show ?case by (simp add: rl_route_message_def case_prod_beta Let_def)
next
  case (3 e j n hint pool r res r1 pool1 es)
  then show ?case by (cases rule: rl_route_Inr) (auto dest: route_cases)
next
  case (4 n pool e j hint r i r1 res r2 pool2 es j')
  from 4(3) show ?case
  proof (cases rule: rl_route_Inr)
    case routed
    with 4(1,2) show ?thesis by (auto simp: rl_choose_eq dest: target_routed)
  qed simp
qed

locale limited_tracking = tracking_router ops tracked rok
  for ops :: "('r, 'k, 'm) router_ops" and tracked rok +
  fixes lops :: "'l limiter_ops"

sublocale limited_tracking \<subseteq> limited_router ops lops
  by unfold_locales

sublocale limited_tracking \<subseteq> limited_tracks:
  tracking_router "rate_limited_ops ops lops" "\<lambda>r. tracked (rl_router r)" "\<lambda>r. rok (rl_router r)"
proof (unfold_locales, unfold rate_limited_ops_def router_ops.simps, goal_cases)
  case (1 r e j n hint pool t r1)
  then show ?case by (auto simp: rl_choose_eq dest: choose_rok)
next
  case (2 r e j n hint pool t r1 k)
  then show ?case using choose_tracked by (fastforce simp: rl_choose_eq)
next
  case (3 r e j n hint pool res r1 pool1 es)
  from 3(2) show ?case
  proof (cases rule: rl_route_Inr)
    case limited
    with 3(1) show ?thesis by (auto simp: available_rok split: option.splits)
  next
    case routed
    with 3(1) show ?thesis by (auto dest: route_rok)
  qed
next
  case (4 r e j n hint pool res r1 pool1 es k)
  from 4(2) show ?case
  proof (cases rule: rl_route_Inr)
    case limited
    with 4(1,3) show ?thesis using available_tracked [where r = "rl_router r" and b = True] by (auto split: option.splits)
  next
    case routed
    from route_tracked [OF 4(1) routed(2) 4(3,4)] show ?thesis .
  qed
next
  case (5 r e j n hint pool i r1 res r2 pool2 es)
  from 5(2) obtain x where c: "r_choose_target_worker ops e j n hint pool (rl_router r) = (Some i, x)"
      "rl_router r1 = x" by (auto simp: rl_choose_eq)
  from 5(3) show ?case
  proof (cases rule: rl_route_Inr)
    case limited
    with 5(4) available_tracked [where r = "rl_router r1" and i = i and b = True] choose_rok [OF 5(1) c(1)] c(2)
    show ?thesis by simp
  next
    case routed
    from target_kept [OF 5(1) c(1) routed(2) [unfolded c(2)] 5(4)] show ?thesis .
  qed
next
  case (6 r i b)
  then show ?case by (simp add: rl_on_worker_availability_change_def available_rok)
next
  case (7 r b i)
  then show ?case using available_tracked [where r = "rl_router r" and i = i and b = b] by (simp add: rl_on_worker_availability_change_def)
qed

interpretation leaky_queuer: limited_tracking queuer_ops "\<lambda>r. set (available_workers r)" deque_ok leaky_bucket_ops
  by unfold_locales

interpretation leaky_key_persistent: limited_router key_persistent_ops leaky_bucket_ops
  by unfold_locales

section \<open>Leaky bucket: tokens\<close>

text \<open>The refills that are due at \<open>t\<close>: one at the deadline and one per interval after it.\<close>

definition lb_due :: "leaky_bucket \<Rightarrow> instant \<Rightarrow> nat" where
  "lb_due b t =
     (case lb_deadline b of None \<Rightarrow> 0 | Some d \<Rightarrow> if t < d then 0 else (t - d) div lb_interval b + 1)"

definition lb_ok :: "leaky_bucket \<Rightarrow> bool" where
  "lb_ok b \<longleftrightarrow> lb_balance b \<le> lb_max b"

lemma lb_refresh_fields [simp]:
  "lb_refill (lb_refresh t b) = lb_refill b" "lb_interval (lb_refresh t b) = lb_interval b"
  "lb_max (lb_refresh t b) = lb_max b"
  by (simp_all add: lb_refresh_def Let_def split: option.splits)

lemma lb_refresh_ok: "lb_ok b \<Longrightarrow> lb_ok (lb_refresh t b)"
  by (simp add: lb_ok_def lb_refresh_def Let_def split: option.splits)

lemma lb_bump_ok: "lb_ok b \<Longrightarrow> lb_ok (lb_bump b)"
  by (auto simp: lb_ok_def lb_bump_def)

lemma tokens_le: "min (sat_mul (min p usize_max) r) max_lb_balance \<le> p * r"
  by (simp add: sat_mul_def min_le_iff_disj)

lemma lb_refresh_balance_le:
  assumes "0 < lb_interval b"
  shows "lb_balance (lb_refresh t b) \<le> lb_balance b + lb_due b t * lb_refill b"
proof (cases "lb_deadline b")
  case (Some d)
  let ?p = "(t - d) div lb_interval b + 1"
  have "sat_add (lb_balance b) (min (sat_mul (min ?p usize_max) (lb_refill b)) max_lb_balance) \<le>
      lb_balance b + ?p * lb_refill b"
    using tokens_le [of ?p "lb_refill b"] by (simp add: sat_add_def)
  then show ?thesis
    using Some assms by (simp add: lb_refresh_def lb_due_def Let_def min_le_iff_disj)
qed (simp add: lb_refresh_def lb_due_def)

text \<open>A refresh moves the deadline to the first one after \<open>t\<close>, on the same grid: no drift.\<close>

lemma next_deadline:
  assumes "d \<le> t" and "0 < (i :: nat)"
  shows "t + (i - (t - d) mod i) = d + ((t - d) div i + 1) * i"
proof -
  have "t = d + ((t - d) div i * i + (t - d) mod i)" using assms(1) by simp
  moreover have "(t - d) mod i < i" using assms(2) by simp
  ultimately show ?thesis by (metis (no_types, lifting) add.assoc add_mult_distrib le_add_diff_inverse less_imp_le mult_1)
qed

lemma lb_refresh_deadline:
  assumes "lb_deadline b = Some d" and "d \<le> t" and "0 < lb_interval b"
  shows "lb_deadline (lb_refresh t b) =
    (let d' = d + lb_due b t * lb_interval b in if d' \<le> instant_max then Some d' else None)"
  using assms next_deadline [OF assms(2,3)]
  by (simp add: lb_refresh_def lb_due_def Let_def checked_add_def)

lemma div_split:
  assumes "0 < (i :: nat)" and "d \<le> t1" and "t1 \<le> t2"
  defines "p1 \<equiv> (t1 - d) div i + 1"
  shows "(t2 - d) div i + 1 = p1 + (if t2 < d + p1 * i then 0 else (t2 - (d + p1 * i)) div i + 1)"
proof (cases "t2 < d + p1 * i")
  case True
  then have "t2 - d < p1 * i" using assms(2,3) by linarith
  then have "(t2 - d) div i < p1" using assms(1) by (simp add: div_less_iff_less_mult)
  moreover have "(t1 - d) div i \<le> (t2 - d) div i" using assms(3) by (simp add: div_le_mono)
  ultimately have "(t2 - d) div i + 1 = p1" unfolding p1_def by linarith
  with True show ?thesis by simp
next
  case False
  define x where "x = t2 - (d + p1 * i)"
  with False have "t2 - d = x + p1 * i" by simp
  then have "(t2 - d) div i = p1 + x div i" using assms(1) by simp
  with False show ?thesis by (simp add: x_def)
qed

lemma lb_due_refresh_Some:
  assumes "0 < lb_interval b" and "t1 \<le> t2" and d: "lb_deadline b = Some d" "d \<le> t1"
  shows "lb_due b t1 + lb_due (lb_refresh t1 b) t2 \<le> lb_due b t2"
    and "lb_deadline (lb_refresh t1 b) \<noteq> None \<Longrightarrow> lb_due b t1 + lb_due (lb_refresh t1 b) t2 = lb_due b t2"
proof -
  define p where "p = lb_due b t1"
  define d1 where "d1 = d + p * lb_interval b"
  let ?b1 = "lb_refresh t1 b"
  have p: "p = (t1 - d) div lb_interval b + 1" and due2: "lb_due b t2 = (t2 - d) div lb_interval b + 1"
    using d assms(2) by (simp_all add: lb_due_def p_def)
  have dl: "lb_deadline ?b1 = (if d1 \<le> instant_max then Some d1 else None)"
    using lb_refresh_deadline [OF d assms(1)] by (simp add: p_def d1_def Let_def)
  have "lb_due b t2 = p + (if t2 < d1 then 0 else (t2 - d1) div lb_interval b + 1)"
    unfolding due2 d1_def p by (rule div_split [OF assms(1) d(2) assms(2)])
  moreover have "lb_due ?b1 t2 =
      (if d1 \<le> instant_max then if t2 < d1 then 0 else (t2 - d1) div lb_interval b + 1 else 0)"
    unfolding lb_due_def dl lb_refresh_fields by (simp only: option.case if_split) simp
  ultimately show "lb_due b t1 + lb_due ?b1 t2 \<le> lb_due b t2"
    and "lb_deadline ?b1 \<noteq> None \<Longrightarrow> lb_due b t1 + lb_due ?b1 t2 = lb_due b t2"
    unfolding p_def [symmetric] dl by (simp_all split: if_splits)
qed

lemma lb_refresh_early:
  assumes "\<not> (\<exists>d. lb_deadline b = Some d \<and> d \<le> t)"
  shows "lb_refresh t b = b" "lb_due b t = 0"
  using assms by (auto simp: lb_refresh_def lb_due_def split: option.splits)

lemma lb_due_refresh:
  assumes "0 < lb_interval b" and "t1 \<le> t2"
  shows "lb_due b t1 + lb_due (lb_refresh t1 b) t2 \<le> lb_due b t2"
proof (cases "\<exists>d. lb_deadline b = Some d \<and> d \<le> t1")
  case True
  then show ?thesis using lb_due_refresh_Some(1) [OF assms] by blast
next
  case False
  show ?thesis unfolding lb_refresh_early [OF False] by simp
qed

lemma lb_refresh_exact:
  assumes "lb_max b \<le> max_lb_balance" and "0 < lb_interval b" and "lb_ok b"
  shows "lb_balance (lb_refresh t b) = min (lb_balance b + lb_due b t * lb_refill b) (lb_max b)"
proof -
  have "min (sat_add x (min (sat_mul (min p usize_max) r) max_lb_balance)) m = min (x + p * r) m"
    if "m \<le> max_lb_balance" for x p r m :: nat
  proof (cases "p * r \<le> max_lb_balance")
    case True
    have "max_lb_balance \<le> usize_max" by (simp add: max_lb_balance_def usize_max_def)
    moreover have eq: "min p usize_max * r = p * r"
    proof (cases "r = 0")
      case False
      then have "p \<le> p * r" by simp
      with True calculation have "p \<le> usize_max" by linarith
      then show ?thesis by simp
    qed simp
    ultimately have "min (sat_mul (min p usize_max) r) max_lb_balance = p * r"
      unfolding sat_mul_def eq using True by simp
    then show ?thesis
      using that \<open>max_lb_balance \<le> usize_max\<close> by (simp add: sat_add_def min_def)
  next
    case False
    have u: "max_lb_balance \<le> usize_max" by (simp add: max_lb_balance_def usize_max_def)
    from False have "1 \<le> r" by (cases r) auto
    then have "usize_max \<le> usize_max * r" by simp
    from le_trans [OF u this] False have "max_lb_balance \<le> min p usize_max * r"
      by (cases "p \<le> usize_max") (simp_all only: min_absorb1 min_absorb2 nat_le_linear linorder_not_le less_imp_le)
    then have "min (sat_mul (min p usize_max) r) max_lb_balance = max_lb_balance"
      using u by (simp add: sat_mul_def min_def)
    then show ?thesis using that False u by (simp add: sat_add_def min_def)
  qed
  note exact = this [OF assms(1)]
  show ?thesis
  proof (cases "lb_deadline b")
    case (Some d)
    then show ?thesis
      using assms(2,3) exact by (simp add: lb_refresh_def lb_due_def Let_def lb_ok_def)
  qed (use assms(3) in \<open>simp add: lb_refresh_def lb_due_def lb_ok_def\<close>)
qed


text \<open>
  The calls of \<open>route_message\<close> on a rate-limited router, each with the inputs of its moment:
  the number of jobs it handed to workers, and the router after.
\<close>

primrec rl_serve ::
    "('r, 'k, 'm) router_ops \<Rightarrow> 'l limiter_ops \<Rightarrow>
     (('k, 'm) env \<times> ('k, 'm) job \<times> nat \<times> nat option \<times> ('k, 'm) pool) list \<Rightarrow>
     ('r, 'l) rate_limited \<Rightarrow> nat \<times> ('r, 'l) rate_limited" where
  "rl_serve rops lops [] r = (0, r)"
| "rl_serve rops lops (x # xs) r =
     (case x of (e, j, n, hint, pool) \<Rightarrow>
        (case rl_route_message rops lops e j n hint pool r of
           Inl err \<Rightarrow> (0, r)
         | Inr (res, r1, pool1, es) \<Rightarrow>
             (let (m, r2) = rl_serve rops lops xs r1 in ((case res of Handled \<Rightarrow> 1 | _ \<Rightarrow> 0) + m, r2))))"

definition call_time :: "('k, 'm) env \<times> 'x \<Rightarrow> instant" where
  "call_time x = clk_instant (env_clock (fst x))"

lemma lb_due_bump [simp]: "lb_due (lb_bump b) t = lb_due b t"
  by (simp add: lb_due_def lb_bump_def split: option.splits)

lemma lb_bump_balance: "0 < lb_balance b \<Longrightarrow> lb_balance b = Suc (lb_balance (lb_bump b))"
  by (simp add: lb_bump_def)

lemma lb_bump_fields [simp]:
  "lb_refill (lb_bump b) = lb_refill b" "lb_interval (lb_bump b) = lb_interval b"
  by (simp_all add: lb_bump_def)

lemma rl_limiter_step:
  assumes "rl_route_message rops leaky_bucket_ops e j n hint pool r = Inr (res, r1, pool1, es)"
  defines "b1 \<equiv> lb_refresh (clk_instant (env_clock e)) (rl_limiter r)"
  shows "(rl_limiter r1 = b1 \<and> res \<noteq> Handled) \<or> (res = Handled \<and> 0 < lb_balance b1 \<and> rl_limiter r1 = lb_bump b1)"
  using assms(1)
  by (cases rule: rl_route_Inr) (auto simp: leaky_bucket_ops_def lb_check_def Let_def b1_def)

lemma rl_serve_bound:
  assumes "0 < lb_interval (rl_limiter r)" and "sorted (map call_time xs)" and "\<forall>x\<in>set xs. call_time x \<le> t"
  shows "fst (rl_serve rops leaky_bucket_ops xs r) \<le>
    lb_balance (rl_limiter r) + lb_due (rl_limiter r) t * lb_refill (rl_limiter r)"
  using assms
proof (induction xs arbitrary: r)
  case (Cons x xs)
  obtain e j n hint pool where x: "x = (e, j, n, hint, pool)" by (metis prod_cases5)
  let ?b = "rl_limiter r" and ?t1 = "clk_instant (env_clock e)"
  show ?case
  proof (cases "rl_route_message rops leaky_bucket_ops e j n hint pool r")
    case (Inr y)
    obtain res r1 pool1 es where y: "y = (res, r1, pool1, es)" by (metis prod_cases4)
    let ?b1 = "lb_refresh ?t1 ?b"
    note step = rl_limiter_step [OF Inr [unfolded y]]
    have t1: "?t1 \<le> t" using Cons.prems(3) by (simp add: x call_time_def)
    have "lb_balance ?b1 + lb_due ?b1 t * lb_refill ?b \<le>
        lb_balance ?b + (lb_due ?b ?t1 + lb_due ?b1 t) * lb_refill ?b"
      using lb_refresh_balance_le [OF Cons.prems(1), of ?t1] by (simp add: add_mult_distrib)
    also have "\<dots> \<le> lb_balance ?b + lb_due ?b t * lb_refill ?b"
      using lb_due_refresh [OF Cons.prems(1) t1] by simp
    finally have le: "lb_balance ?b1 + lb_due ?b1 t * lb_refill ?b \<le> lb_balance ?b + lb_due ?b t * lb_refill ?b" .
    have ih: "fst (rl_serve rops leaky_bucket_ops xs r1) \<le>
        lb_balance (rl_limiter r1) + lb_due (rl_limiter r1) t * lb_refill (rl_limiter r1)"
      using Cons.IH [of r1] Cons.prems step by auto
    from step show ?thesis
    proof (elim disjE conjE)
      assume "rl_limiter r1 = ?b1" "res \<noteq> Handled"
      with ih le show ?thesis
        by (simp add: x Inr y case_prod_beta Let_def split: route_result.splits)
    next
      assume "res = Handled" "0 < lb_balance ?b1" "rl_limiter r1 = lb_bump ?b1"
      with ih le lb_bump_balance [of ?b1] show ?thesis
        by (simp add: x Inr y case_prod_beta Let_def)
    qed
  qed (simp add: x)
qed simp


definition ex_bucket :: leaky_bucket where
  "ex_bucket = leaky_bucket_new ex_clock 1 10 2 None"

definition ex_pool :: "nat \<Rightarrow> (nat, nat) pool" where
  "ex_pool n = map (\<lambda>i. (i, worker_new ''f'' i (Local (of_nat i)) WorkerNone None None)) [0..<n]"

definition ex_calls :: "((nat, nat) env \<times> (nat, nat) job \<times> nat \<times> nat option \<times> (nat, nat) pool) list" where
  "ex_calls = map (\<lambda>k. (ex_env, ex_job k, 1, None, ex_pool 1)) [1, 2, 3]"

lemma ex_bucket_simps:
  "lb_deadline ex_bucket = Some 17" "lb_interval ex_bucket = 10" "lb_balance ex_bucket = 2"
  "lb_refill ex_bucket = 1" "lb_max ex_bucket = 2"
  by (simp_all add: ex_bucket_def leaky_bucket_new_def checked_add_def instant_max_def ex_clock_def)



end
