(* ===== verification/Actor_Messages.thy ===== *)
theory Actor_Messages
  imports Actor_Id Serialization
begin

text \<open>
  Messages between actors and the errors around them (\<open>ractor/src/message.rs\<close>,
  \<open>ractor/src/actor/messages.rs\<close>, \<open>ractor/src/errors.rs\<close>): boxed messages and states, the trait
  \<open>Message\<close> with its two transports, supervision events, and the error types.

  \<open>Box<dyn Any>\<close> is a value with the id of its type; \<open>downcast\<close> compares the ids.
\<close>

section \<open>Dynamically typed values\<close>

type_synonym type_id = nat

datatype 'v dyn_any = DynAny type_id 'v

fun downcast :: "type_id \<Rightarrow> 'v dyn_any \<Rightarrow> 'v option" where
  "downcast t (DynAny t' v) = (if t = t' then Some v else None)"

record 'v boxed_state =
  bs_msg :: "'v dyn_any option"

definition boxed_state_new :: "type_id \<Rightarrow> 'v \<Rightarrow> 'v boxed_state" where
  "boxed_state_new t v = \<lparr>bs_msg = Some (DynAny t v)\<rparr>"

text \<open>\<open>take\<close> empties the box also when the type is wrong; \<open>None\<close> is \<open>BoxedDowncastErr\<close>.\<close>

definition boxed_state_take :: "type_id \<Rightarrow> 'v boxed_state \<Rightarrow> 'v option \<times> 'v boxed_state" where
  "boxed_state_take t b =
     ((case bs_msg b of None \<Rightarrow> None | Some m \<Rightarrow> downcast t m), b\<lparr>bs_msg := None\<rparr>)"

section \<open>Messages\<close>

datatype serialized_message =
    Cast string "u8 list" "u8 list option"
  | Call string "u8 list" nat "u8 list option"
  | CallReply u64 "u8 list"

record 'v boxed_message =
  bm_msg :: "'v dyn_any option"
  bm_serialized :: "serialized_message option"
  bm_span :: "nat option"

text \<open>The trait \<open>Message\<close> for a type \<open>'a\<close>, as a value of \<open>'v\<close> when it is boxed.\<close>

record ('a, 'v) message_ops =
  mt_id :: type_id
  mt_inj :: "'a \<Rightarrow> 'v"
  mt_proj :: "'v \<Rightarrow> 'a"
  mt_serializable :: bool
  mt_serialize :: "'a \<Rightarrow> serialized_message option"
  mt_deserialize :: "serialized_message \<Rightarrow> 'a option"

definition from_boxed :: "('a, 'v) message_ops \<Rightarrow> 'v boxed_message \<Rightarrow> 'a option" where
  "from_boxed ops m =
     (case bm_msg m of
        Some d \<Rightarrow> map_option (mt_proj ops) (downcast (mt_id ops) d)
      | None \<Rightarrow>
          (case bm_serialized m of Some s \<Rightarrow> mt_deserialize ops s | None \<Rightarrow> None))"

definition box_message ::
    "('a, 'v) message_ops \<Rightarrow> nat option \<Rightarrow> 'a \<Rightarrow> actor_id \<Rightarrow> 'v boxed_message option" where
  "box_message ops cur_span x i =
     (if mt_serializable ops \<and> \<not> is_local i then
        (case mt_serialize ops x of
           None \<Rightarrow> None
         | Some s \<Rightarrow> Some \<lparr>bm_msg = None, bm_serialized = Some s, bm_span = None\<rparr>)
      else if is_local i then
        Some \<lparr>bm_msg = Some (DynAny (mt_id ops) (mt_inj ops x)), bm_serialized = None, bm_span = cur_span\<rparr>
      else None)"

text \<open>The default methods of the trait, and the blanket implementation for byte-convertible types.\<close>

definition default_message_ops ::
    "type_id \<Rightarrow> ('a \<Rightarrow> 'v) \<Rightarrow> ('v \<Rightarrow> 'a) \<Rightarrow> ('a, 'v) message_ops" where
  "default_message_ops t wrap unwrap =
     \<lparr>mt_id = t, mt_inj = wrap, mt_proj = unwrap, mt_serializable = False,
      mt_serialize = (\<lambda>x. None), mt_deserialize = (\<lambda>s. None)\<rparr>"

definition bytes_message_ops ::
    "type_id \<Rightarrow> ('a \<Rightarrow> 'v) \<Rightarrow> ('v \<Rightarrow> 'a) \<Rightarrow> ('a \<Rightarrow> u8 list) \<Rightarrow> (u8 list \<Rightarrow> 'a option) \<Rightarrow>
     ('a, 'v) message_ops" where
  "bytes_message_ops t wrap unwrap into_bytes from_bytes =
     \<lparr>mt_id = t, mt_inj = wrap, mt_proj = unwrap, mt_serializable = True,
      mt_serialize = (\<lambda>x. Some (Cast [] (into_bytes x) None)),
      mt_deserialize = (\<lambda>s. case s of Cast v args md \<Rightarrow> from_bytes args | _ \<Rightarrow> None)\<rparr>"

section \<open>Stop messages, supervision events and signals\<close>

datatype stop_message = StopNormal | StopReason string

definition show_stop :: "stop_message \<Rightarrow> string" where
  "show_stop m = (case m of StopNormal \<Rightarrow> ''Stop'' | StopReason r \<Rightarrow> ''Stop (reason = '' @ r @ '')'')"

datatype group_change_message =
    GroupJoin string string "actor_id list"
  | GroupLeave string string "actor_id list"

fun change_group :: "group_change_message \<Rightarrow> string" where
  "change_group (GroupJoin sc gr cells) = gr"
| "change_group (GroupLeave sc gr cells) = gr"

fun change_scope :: "group_change_message \<Rightarrow> string" where
  "change_scope (GroupJoin sc gr cells) = sc"
| "change_scope (GroupLeave sc gr cells) = sc"

datatype pid_lifecycle_event = PidSpawn actor_id | PidTerminate actor_id

datatype 'v supervision_event =
    ActorStarted actor_id
  | ActorTerminated actor_id "'v boxed_state option" "string option"
  | ActorFailed actor_id string
  | ProcessGroupChanged group_change_message
  | PidLifecycleEvent pid_lifecycle_event

fun event_actor :: "'v supervision_event \<Rightarrow> actor_id option" where
  "event_actor (ActorStarted who) = Some who"
| "event_actor (ActorFailed who e) = Some who"
| "event_actor (ActorTerminated who s r) = Some who"
| "event_actor (ProcessGroupChanged c) = None"
| "event_actor (PidLifecycleEvent e) = None"

fun clone_no_data :: "'v supervision_event \<Rightarrow> 'v supervision_event" where
  "clone_no_data (ActorStarted who) = ActorStarted who"
| "clone_no_data (ActorFailed who what) = ActorFailed who what"
| "clone_no_data (ProcessGroupChanged what) = ProcessGroupChanged what"
| "clone_no_data (ActorTerminated who s msg) = ActorTerminated who None msg"
| "clone_no_data (PidLifecycleEvent e) = PidLifecycleEvent e"

datatype signal = Kill

definition show_signal :: "signal \<Rightarrow> string" where
  "show_signal s = ''killed''"

section \<open>Errors\<close>

datatype spawn_err =
    StartupFailed string
  | ActorAlreadyStarted
  | ActorAlreadyRegistered string

definition show_spawn_err :: "spawn_err \<Rightarrow> string" where
  "show_spawn_err e =
     (case e of
        StartupFailed m \<Rightarrow> ''Actor panicked during startup '' @ [CHR 0x27] @ m @ [CHR 0x27]
      | ActorAlreadyStarted \<Rightarrow> ''Actor cannot be re-started more than once''
      | ActorAlreadyRegistered n \<Rightarrow>
          ''Actor '' @ [CHR 0x27] @ n @ [CHR 0x27] @ '' is already registered in the actor registry'')"

datatype actor_registry_err = AlreadyRegistered string

fun spawn_err_of_registry :: "actor_registry_err \<Rightarrow> spawn_err" where
  "spawn_err_of_registry (AlreadyRegistered n) = ActorAlreadyRegistered n"

datatype actor_err = Cancelled | Failed string

definition show_actor_err :: "actor_err \<Rightarrow> string" where
  "show_actor_err e =
     (case e of
        Failed m \<Rightarrow> ''Actor panicked '' @ [CHR 0x27] @ m @ [CHR 0x27]
      | Cancelled \<Rightarrow> ''Actor operation cancelled'')"

datatype 't messaging_err = SendErr 't | ChannelClosed | InvalidActorType

fun messaging_err_map :: "('t \<Rightarrow> 'u) \<Rightarrow> 't messaging_err \<Rightarrow> 'u messaging_err" where
  "messaging_err_map f (SendErr e) = SendErr (f e)"
| "messaging_err_map f ChannelClosed = ChannelClosed"
| "messaging_err_map f InvalidActorType = InvalidActorType"

datatype 't ractor_err =
    SpawnError spawn_err
  | MessagingError "'t messaging_err"
  | ActorError actor_err
  | TimeoutError

fun has_message :: "'t ractor_err \<Rightarrow> bool" where
  "has_message (MessagingError (SendErr m)) = True"
| "has_message _ = False"

fun try_get_message :: "'t ractor_err \<Rightarrow> 't option" where
  "try_get_message (MessagingError (SendErr m)) = Some m"
| "try_get_message _ = None"

fun ractor_err_map :: "('t \<Rightarrow> 'u) \<Rightarrow> 't ractor_err \<Rightarrow> 'u ractor_err" where
  "ractor_err_map f (SpawnError e) = SpawnError e"
| "ractor_err_map f (MessagingError e) = MessagingError (messaging_err_map f e)"
| "ractor_err_map f (ActorError e) = ActorError e"
| "ractor_err_map f TimeoutError = TimeoutError"

section \<open>Boxing and unboxing\<close>

text \<open>
  The contract of a message type: unboxing a local value gives it back, and so does the wire
  format of the values \<open>ok\<close> accepts.
\<close>

locale message_type =
  fixes ops :: "('a, 'v) message_ops"
    and ok :: "'a \<Rightarrow> bool"
  assumes inj_proj: "mt_proj ops (mt_inj ops x) = x"
    and wire: "mt_serializable ops \<Longrightarrow> ok x \<Longrightarrow> mt_serialize ops x = Some s \<Longrightarrow> mt_deserialize ops s = Some x"
begin

lemma unbox_box:
  assumes "box_message ops span x i = Some m" and "ok x"
  shows "from_boxed ops m = Some x"
  using assms wire inj_proj
  by (auto simp: box_message_def from_boxed_def split: if_splits option.splits)

end

locale bytes_message = bytes_convertable into_bytes from_bytes ok
  for into_bytes :: "'a \<Rightarrow> u8 list" and from_bytes ok +
  fixes t :: type_id and wrap :: "'a \<Rightarrow> 'v" and unwrap :: "'v \<Rightarrow> 'a"
  assumes unwrap_wrap: "unwrap (wrap x) = x"

sublocale bytes_message \<subseteq> message_type "bytes_message_ops t wrap unwrap into_bytes from_bytes" ok
  by unfold_locales (auto simp: bytes_message_ops_def unwrap_wrap from_into)

interpretation u64_message: bytes_message num_into_bytes "num_from_bytes :: u8 list \<Rightarrow> u64 option"
    "\<lambda>_. True" 64 id id
  by unfold_locales simp

interpretation vec_char_message: bytes_message vec_char_into_bytes vec_char_from_bytes "list_all is_char" 101 id id
  by unfold_locales simp

interpretation local_message: message_type "default_message_ops t id id" "\<lambda>_. True" for t
  by unfold_locales (simp_all add: default_message_ops_def)



end
