(* ===== verification/Factory_Core.thy ===== *)
theory Factory_Core
  imports Factory_Ratelim Actor_Messages
begin

text \<open>
  The factory actor (\<open>ractor/src/factory/factoryimpl.rs\<close>): its state and every handler. The
  router and the queue are parameters, given by their records of operations.

  A handler returns the new state and its effects, or a fault: an error it returned, or a
  panic. The loops of the source that run as long as the queue gives jobs have the length of
  the queue as fuel; the lemmas of \<open>Factory_Moves\<close> show that it is enough.
\<close>

section \<open>Outcomes\<close>

datatype fault = ProcessingErr string | Panic string

type_synonym ('s, 'k, 'm) outcome = "fault + ('s \<times> ('k, 'm) effect list)"

definition and_then ::
    "('s, 'k, 'm) outcome \<Rightarrow> ('s \<Rightarrow> ('t, 'k, 'm) outcome) \<Rightarrow> ('t, 'k, 'm) outcome" where
  "and_then x f =
     (case x of
        Inl err \<Rightarrow> Inl err
      | Inr (s, es) \<Rightarrow> (case f s of Inl err \<Rightarrow> Inl err | Inr (s1, es1) \<Rightarrow> Inr (s1, es @ es1)))"

section \<open>State\<close>

datatype drain_state = NotDraining | Draining | Drained

record dead_mans_config =
  detection_timeout :: duration
  kill_worker :: bool

text \<open>
  The capacity controller and the lifecycle hooks are user objects whose answers are inputs of
  the handlers; the state only says whether they are there. \<open>dead_mans_check\<close> is the handle of
  the scheduled check.
\<close>

record ('r, 'q, 'k, 'm) factory =
  factory_name :: string
  pool_size :: nat
  f_pool :: "('k, 'm) pool"
  worker_by_actor :: "(actor_id \<times> nat) list"
  f_stats :: stats_layer
  f_router :: 'r
  f_queue :: 'q
  f_discard_handler :: "('k, 'm) discard_handler"
  f_discard_settings :: discard_settings
  f_drain_state :: drain_state
  dead_mans_switch :: "dead_mans_config option"
  dead_mans_check :: bool
  capacity_controller :: bool
  lifecycle_hooks :: bool

record ('k, 'm) update_settings_request =
  us_discard_handler :: "('k, 'm) discard_handler option"
  us_discard_settings :: "discard_settings option"
  us_dead_mans_switch :: "dead_mans_config option option"
  us_capacity_controller :: "bool option"
  us_lifecycle_hooks :: "bool option"
  us_stats :: "stats_layer option"
  us_worker_count :: "nat option"

datatype ('k, 'm) factory_message =
    Dispatch "('k, 'm) job"
  | Finished nat 'k
  | DoPings instant
  | Calculate
  | WorkerPong nat duration
  | IdentifyStuckWorkers
  | GetQueueDepth port
  | AdjustWorkerPool nat
  | GetAvailableCapacity port
  | GetNumActiveWorkers port
  | DrainRequests
  | UpdateSettings "('k, 'm) update_settings_request"

definition GLOBAL_WORKER_POOL_MAXIMUM :: nat where
  "GLOBAL_WORKER_POOL_MAXIMUM = 1000000"

definition PING_FREQUENCY :: duration where
  "PING_FREQUENCY = 10000 * 1000000"

definition CALCULATE_FREQUENCY :: duration where
  "CALCULATE_FREQUENCY = 100 * 1000000"

definition f_stat :: "('r, 'q, 'k, 'm) factory \<Rightarrow> stat_call \<Rightarrow> ('k, 'm) effect list" where
  "f_stat s call = stat (f_stats s) (factory_name s) call"

text \<open>A job the factory gives up: the discard handler sees it, and it is rejected or dropped.\<close>

definition discard_reject ::
    "('r, 'q, 'k, 'm) factory \<Rightarrow> discard_reason \<Rightarrow> ('k, 'm) job \<Rightarrow> ('k, 'm) effect list" where
  "discard_reject s reason j =
     (let (j1, es) = call_discard (f_discard_handler s) reason j in es @ reject j1)"

definition discard_drop ::
    "('r, 'q, 'k, 'm) factory \<Rightarrow> discard_reason \<Rightarrow> ('k, 'm) job \<Rightarrow> ('k, 'm) effect list" where
  "discard_drop s reason j =
     (let (j1, es) = call_discard (f_discard_handler s) reason j in es @ [Dropped j1])"

section \<open>Routing queued jobs\<close>

text \<open>The first loop of \<open>try_route_next_active_job\<close>: expired jobs at the head of the queue.\<close>

fun expire_head ::
    "('q, 'k, 'm) queue_ops \<Rightarrow> clock \<Rightarrow> nat \<Rightarrow> ('r, 'q, 'k, 'm) factory \<Rightarrow>
     ('r, 'q, 'k, 'm) factory \<times> ('k, 'm) effect list" where
  "expire_head qops c 0 s = (s, [])"
| "expire_head qops c (Suc n) s =
     (case q_peek qops (f_queue s) of
        None \<Rightarrow> (s, [])
      | Some j \<Rightarrow>
          if is_expired c j then
            (case q_pop_front qops (f_queue s) of
               (None, q) \<Rightarrow> (s\<lparr>f_queue := q\<rparr>, [])
             | (Some j1, q) \<Rightarrow>
                 let es = f_stat s (JobTtlExpired 1) @ discard_reject s TtlExpired j1;
                     (s1, es1) = expire_head qops c n (s\<lparr>f_queue := q\<rparr>)
                 in (s1, es @ es1))
          else (s, []))"

text \<open>
  The second loop routes the job at the head of the queue, and goes on while jobs are rate
  limited. Its condition and body: \<open>True\<close> is another turn.
\<close>

definition route_head ::
    "('r, 'k, 'm) router_ops \<Rightarrow> ('q, 'k, 'm) queue_ops \<Rightarrow> ('k, 'm) env \<Rightarrow> nat option \<Rightarrow>
     ('r, 'q, 'k, 'm) factory \<Rightarrow> fault + (bool \<times> ('r, 'q, 'k, 'm) factory \<times> ('k, 'm) effect list)" where
  "route_head rops qops e hint s =
     (case q_peek qops (f_queue s) of
        None \<Rightarrow> Inr (False, s, [])
      | Some j \<Rightarrow>
          (case r_choose_target_worker rops e j (pool_size s) hint (f_pool s) (f_router s) of
             (None, r1) \<Rightarrow> Inr (False, s\<lparr>f_router := r1\<rparr>, [])
           | (Some i, r1) \<Rightarrow>
               (case q_pop_front qops (f_queue s) of
                  (None, q) \<Rightarrow> Inr (True, s\<lparr>f_router := r1, f_queue := q\<rparr>, [])
                | (Some j1, q) \<Rightarrow>
                    (case r_route_message rops e j1 (pool_size s) (Some i) (f_pool s) r1 of
                       Inl err \<Rightarrow> Inl (ProcessingErr err)
                     | Inr (res, r2, p2, es) \<Rightarrow>
                         let s1 = s\<lparr>f_router := r2, f_queue := q, f_pool := p2\<rparr>
                         in (case res of
                               Handled \<Rightarrow> Inr (False, s1, es)
                             | RateLimited j2 \<Rightarrow>
                                 Inr (True, s1, es @ f_stat s1 JobRateLimited @
                                        discard_reject s1 discard_reason.RateLimited j2)
                             | Backlog j2 \<Rightarrow>
                                 Inl (Panic ''Received invalid variant of RouteResult::Backlog''))))))"

fun route_loop ::
    "('r, 'k, 'm) router_ops \<Rightarrow> ('q, 'k, 'm) queue_ops \<Rightarrow> ('k, 'm) env \<Rightarrow> nat option \<Rightarrow> nat \<Rightarrow>
     ('r, 'q, 'k, 'm) factory \<Rightarrow> (('r, 'q, 'k, 'm) factory, 'k, 'm) outcome" where
  "route_loop rops qops e hint 0 s = Inr (s, [])"
| "route_loop rops qops e hint (Suc n) s =
     (case route_head rops qops e hint s of
        Inl err \<Rightarrow> Inl err
      | Inr (again, s1, es) \<Rightarrow>
          if again then and_then (Inr (s1, es)) (route_loop rops qops e hint n) else Inr (s1, es))"

definition try_route_next_active_job ::
    "('r, 'k, 'm) router_ops \<Rightarrow> ('q, 'k, 'm) queue_ops \<Rightarrow> ('k, 'm) env \<Rightarrow> nat option \<Rightarrow>
     ('r, 'q, 'k, 'm) factory \<Rightarrow> (('r, 'q, 'k, 'm) factory, 'k, 'm) outcome" where
  "try_route_next_active_job rops qops e hint s =
     and_then (Inr (expire_head qops (env_clock e) (q_len qops (f_queue s)) s))
       (\<lambda>s1. route_loop rops qops e hint (q_len qops (f_queue s1)) s1)"

section \<open>Queueing a job\<close>

text \<open>The load-shedding loop of \<open>maybe_enqueue\<close>.\<close>

fun shed_queue ::
    "('q, 'k, 'm) queue_ops \<Rightarrow> nat \<Rightarrow> nat \<Rightarrow> ('r, 'q, 'k, 'm) factory \<Rightarrow>
     ('r, 'q, 'k, 'm) factory \<times> ('k, 'm) effect list" where
  "shed_queue qops limit 0 s = (s, [])"
| "shed_queue qops limit (Suc n) s =
     (if q_len qops (f_queue s) > limit then
        (case q_discard_oldest qops (f_queue s) of
           (None, q) \<Rightarrow> shed_queue qops limit n (s\<lparr>f_queue := q\<rparr>)
         | (Some j, q) \<Rightarrow>
             let es = f_stat s JobDiscarded @ discard_drop s Loadshed j;
                 (s1, es1) = shed_queue qops limit n (s\<lparr>f_queue := q\<rparr>)
             in (s1, es @ es1))
      else (s, []))"

definition push_accepted ::
    "('q, 'k, 'm) queue_ops \<Rightarrow> ('k, 'm) job \<Rightarrow> ('r, 'q, 'k, 'm) factory \<Rightarrow>
     (('r, 'q, 'k, 'm) factory, 'k, 'm) outcome" where
  "push_accepted qops j s =
     (let (j1, es) = accept j
      in case q_push_back qops j1 (f_queue s) of
           None \<Rightarrow> Inl (Panic ''index out of bounds'')
         | Some q \<Rightarrow> Inr (s\<lparr>f_queue := q\<rparr>, es))"

definition maybe_enqueue ::
    "('q, 'k, 'm) queue_ops \<Rightarrow> ('k, 'm) job \<Rightarrow> ('r, 'q, 'k, 'm) factory \<Rightarrow>
     (('r, 'q, 'k, 'm) factory, 'k, 'm) outcome" where
  "maybe_enqueue qops j s =
     (let is_discardable = q_is_job_discardable qops (f_queue s) (job_key j)
      in case get_limit_and_mode (f_discard_settings s) of
           Some (limit, Newest) \<Rightarrow>
             if is_discardable \<and> q_len qops (f_queue s) \<ge> limit
             then Inr (s, f_stat s JobDiscarded @ discard_reject s Loadshed j)
             else push_accepted qops j s
         | Some (limit, Oldest) \<Rightarrow>
             and_then (push_accepted qops j s)
               (\<lambda>s1. Inr (shed_queue qops limit (q_len qops (f_queue s1)) s1))
         | None \<Rightarrow> push_accepted qops j s)"

section \<open>Pinging workers and the dead man's switch\<close>

definition ping_workers ::
    "('k, 'm) env \<Rightarrow> ('r, 'q, 'k, 'm) factory \<Rightarrow> ('r, 'q, 'k, 'm) factory \<times> ('k, 'm) effect list" where
  "ping_workers e s =
     (s\<lparr>f_pool := map (\<lambda>(i, w). (i, fst (send_factory_ping e w))) (f_pool s)\<rparr>,
      concat (map (\<lambda>(i, w). snd (send_factory_ping e w)) (f_pool s)))"

definition cancel_dead_mans_check ::
    "('r, 'q, 'k, 'm) factory \<Rightarrow> ('r, 'q, 'k, 'm) factory \<times> ('k, 'm) effect list" where
  "cancel_dead_mans_check s =
     (s\<lparr>dead_mans_check := False\<rparr>, if dead_mans_check s then [AbortCheck] else [])"

definition reschedule_dead_mans_check ::
    "('r, 'q, 'k, 'm) factory \<Rightarrow> ('r, 'q, 'k, 'm) factory \<times> ('k, 'm) effect list" where
  "reschedule_dead_mans_check s =
     (let (s1, es) = cancel_dead_mans_check s
      in case dead_mans_switch s1 of
           None \<Rightarrow> (s1, es)
         | Some dmd \<Rightarrow>
             (s1\<lparr>dead_mans_check := True\<rparr>, es @ [SendAfter (detection_timeout dmd) ''IdentifyStuckWorkers'']))"

text \<open>
  One worker of the scan for stuck workers: kill it, take its join handle, and remember to wait
  for it.
\<close>

definition scan_worker ::
    "('k, 'm) env \<Rightarrow> dead_mans_config \<Rightarrow> ('k, 'm) worker \<Rightarrow>
     ('k, 'm) worker \<times> ('k, 'm) effect list \<times> ('k, 'm) effect list" where
  "scan_worker e dmd w =
     (if is_stuck_at (clk_instant (env_clock e)) (detection_timeout dmd) w \<and> kill_worker dmd then
        let (h, w1) = get_join_handle w
        in (w1, [CallActor KillActor (w_actor w)], if h then [CallActor JoinActor (w_actor w)] else [])
      else (w, [], []))"

definition identify_stuck_workers ::
    "('k, 'm) env \<Rightarrow> ('r, 'q, 'k, 'm) factory \<Rightarrow> ('r, 'q, 'k, 'm) factory \<times> ('k, 'm) effect list" where
  "identify_stuck_workers e s =
     (let (s1, es) = cancel_dead_mans_check s
      in case dead_mans_switch s1 of
           None \<Rightarrow> (s1, es)
         | Some dmd \<Rightarrow>
             let scan = map (\<lambda>(i, w). (i, scan_worker e dmd w)) (f_pool s1);
                 s2 = s1\<lparr>f_pool := map (\<lambda>(i, x). (i, fst x)) scan\<rparr>;
                 kills = concat (map (\<lambda>(i, x). fst (snd x)) scan);
                 joins = concat (map (\<lambda>(i, x). snd (snd x)) scan);
                 (s3, es3) = reschedule_dead_mans_check s2
             in (s3, es @ kills @ joins @ es3))"

section \<open>Resizing the pool\<close>

definition worker_settings ::
    "('r, 'k, 'm) router_ops \<Rightarrow> 'r \<Rightarrow> discard_settings \<Rightarrow> worker_discard_settings" where
  "worker_settings rops r ds = (if r_is_factory_queueing rops r then WorkerNone else get_worker_settings ds)"

text \<open>Spawning worker \<open>i\<close> and adding it to the pool, as \<open>grow_pool\<close> and \<open>pre_start\<close> do it.\<close>

definition spawn_worker ::
    "('r, 'k, 'm) router_ops \<Rightarrow> ('k, 'm) env \<Rightarrow> nat \<Rightarrow> ('r, 'q, 'k, 'm) factory \<Rightarrow>
     (('r, 'q, 'k, 'm) factory, 'k, 'm) outcome" where
  "spawn_worker rops e i s =
     (case env_spawn e i of
        Inl err \<Rightarrow> Inl (ProcessingErr err)
      | Inr a \<Rightarrow>
          let w = worker_new (factory_name s) i a
                    (worker_settings rops (f_router s) (f_discard_settings s))
                    (f_discard_handler s) (f_stats s)
          in Inr (s\<lparr>f_pool := hm_insert i w (f_pool s),
                    worker_by_actor := hm_insert a i (worker_by_actor s),
                    f_router := r_on_worker_availability_change rops i True (f_router s)\<rparr>,
                  [SpawnWorker i a]))"

text \<open>The body of the loop of \<open>grow_pool\<close>.\<close>

definition grow_one ::
    "('r, 'k, 'm) router_ops \<Rightarrow> ('k, 'm) env \<Rightarrow> nat \<Rightarrow> ('r, 'q, 'k, 'm) factory \<Rightarrow>
     (('r, 'q, 'k, 'm) factory, 'k, 'm) outcome" where
  "grow_one rops e i s =
     (case hm_get (f_pool s) i of
        Some w \<Rightarrow>
          let w1 = set_draining False w;
              s1 = s\<lparr>f_pool := hm_insert i w1 (f_pool s)\<rparr>
          in Inr (if is_available w1
                  then s1\<lparr>f_router := r_on_worker_availability_change rops i True (f_router s1)\<rparr>
                  else s1, [])
      | None \<Rightarrow> spawn_worker rops e i s)"

fun grow_all ::
    "('r, 'k, 'm) router_ops \<Rightarrow> ('k, 'm) env \<Rightarrow> nat list \<Rightarrow> ('r, 'q, 'k, 'm) factory \<Rightarrow>
     (('r, 'q, 'k, 'm) factory, 'k, 'm) outcome" where
  "grow_all rops e [] s = Inr (s, [])"
| "grow_all rops e (i # is) s = and_then (grow_one rops e i s) (grow_all rops e is)"

definition grow_pool ::
    "('r, 'k, 'm) router_ops \<Rightarrow> ('k, 'm) env \<Rightarrow> nat \<Rightarrow> ('r, 'q, 'k, 'm) factory \<Rightarrow>
     (('r, 'q, 'k, 'm) factory, 'k, 'm) outcome" where
  "grow_pool rops e to_add s =
     and_then (grow_all rops e [pool_size s..<pool_size s + to_add] s)
       (\<lambda>s1. Inr (case dead_mans_switch s1 of None \<Rightarrow> (s1, []) | Some dmd \<Rightarrow> ping_workers e s1))"

text \<open>The body of the loop of \<open>shrink_pool\<close>.\<close>

definition shrink_one ::
    "('r, 'k, 'm) router_ops \<Rightarrow> nat \<Rightarrow> ('r, 'q, 'k, 'm) factory \<Rightarrow>
     ('r, 'q, 'k, 'm) factory \<times> ('k, 'm) effect list" where
  "shrink_one rops i s =
     (case hm_get (f_pool s) i of
        None \<Rightarrow> (s, [])
      | Some w \<Rightarrow>
          if is_working w then (s\<lparr>f_pool := hm_insert i (set_draining True w) (f_pool s)\<rparr>, [])
          else
            (s\<lparr>f_router := r_on_worker_availability_change rops i False (f_router s),
               f_pool := hm_remove i (f_pool s),
               worker_by_actor := hm_remove (w_actor w) (worker_by_actor s)\<rparr>,
             [CallActor StopActor (w_actor w)]))"

fun shrink_all ::
    "('r, 'k, 'm) router_ops \<Rightarrow> nat list \<Rightarrow> ('r, 'q, 'k, 'm) factory \<Rightarrow>
     ('r, 'q, 'k, 'm) factory \<times> ('k, 'm) effect list" where
  "shrink_all rops [] s = (s, [])"
| "shrink_all rops (i # is) s =
     (let (s1, es1) = shrink_one rops i s; (s2, es2) = shrink_all rops is s1 in (s2, es1 @ es2))"

definition shrink_pool ::
    "('r, 'k, 'm) router_ops \<Rightarrow> nat \<Rightarrow> ('r, 'q, 'k, 'm) factory \<Rightarrow>
     ('r, 'q, 'k, 'm) factory \<times> ('k, 'm) effect list" where
  "shrink_pool rops to_remove s = shrink_all rops [pool_size s - to_remove..<pool_size s] s"

text \<open>The loop at the end of \<open>resize_pool\<close>: one attempt to route per worker, while jobs wait.\<close>

fun route_many ::
    "('r, 'k, 'm) router_ops \<Rightarrow> ('q, 'k, 'm) queue_ops \<Rightarrow> ('k, 'm) env \<Rightarrow> nat \<Rightarrow>
     ('r, 'q, 'k, 'm) factory \<Rightarrow> (('r, 'q, 'k, 'm) factory, 'k, 'm) outcome" where
  "route_many rops qops e 0 s = Inr (s, [])"
| "route_many rops qops e (Suc n) s =
     (if q_peek qops (f_queue s) = None then Inr (s, [])
      else and_then (try_route_next_active_job rops qops e None s) (route_many rops qops e n))"

definition resize_pool ::
    "('r, 'k, 'm) router_ops \<Rightarrow> ('q, 'k, 'm) queue_ops \<Rightarrow> ('k, 'm) env \<Rightarrow> nat \<Rightarrow>
     ('r, 'q, 'k, 'm) factory \<Rightarrow> (('r, 'q, 'k, 'm) factory, 'k, 'm) outcome" where
  "resize_pool rops qops e requested s =
     (if requested = 0 then Inr (s, [])
      else
        let curr = pool_size s; new = min GLOBAL_WORKER_POOL_MAXIMUM requested
        in and_then
             (if new > curr then grow_pool rops e (new - curr) s
              else if new < curr then Inr (shrink_pool rops (curr - new) s)
              else Inr (s, []))
             (\<lambda>s1.
                let s2 = s1\<lparr>pool_size := new\<rparr>
                in if new > curr then route_many rops qops e new s2 else Inr (s2, [])))"

section \<open>Draining\<close>

definition is_drained :: "('q, 'k, 'm) queue_ops \<Rightarrow> ('r, 'q, 'k, 'm) factory \<Rightarrow> bool \<times> ('r, 'q, 'k, 'm) factory" where
  "is_drained qops s =
     (case f_drain_state s of
        NotDraining \<Rightarrow> (False, s)
      | Drained \<Rightarrow> (True, s)
      | Draining \<Rightarrow>
          if list_all is_available (hm_values (f_pool s)) \<and> q_len qops (f_queue s) = 0
          then (True, s\<lparr>f_drain_state := Drained\<rparr>)
          else (False, s))"

definition run_hook :: "('k, 'm) env \<Rightarrow> hook_call \<Rightarrow> ('r, 'q, 'k, 'm) factory \<Rightarrow>
    (('r, 'q, 'k, 'm) factory, 'k, 'm) outcome" where
  "run_hook e call s =
     (if lifecycle_hooks s then
        (case env_hook e of Inl err \<Rightarrow> Inl (ProcessingErr err) | Inr _ \<Rightarrow> Inr (s, [Hook call]))
      else Inr (s, []))"

definition drain_requests ::
    "('k, 'm) env \<Rightarrow> ('r, 'q, 'k, 'm) factory \<Rightarrow> (('r, 'q, 'k, 'm) factory, 'k, 'm) outcome" where
  "drain_requests e s = run_hook e OnDraining (s\<lparr>f_drain_state := Draining\<rparr>)"

section \<open>Jobs coming in and going out\<close>

definition dispatch ::
    "('r, 'k, 'm) router_ops \<Rightarrow> ('q, 'k, 'm) queue_ops \<Rightarrow> ('k, 'm) env \<Rightarrow> ('k, 'm) job \<Rightarrow>
     ('r, 'q, 'k, 'm) factory \<Rightarrow> (('r, 'q, 'k, 'm) factory, 'k, 'm) outcome" where
  "dispatch rops qops e job0 s =
     (let j = set_factory_time (env_clock e) job0
      in and_then (Inr (s, f_stat s NewJob))
        (\<lambda>s.
           if is_expired (env_clock e) j then
             Inr (s, f_stat s (JobTtlExpired 1) @ discard_reject s TtlExpired j)
           else if f_drain_state s = NotDraining then
             (case r_route_message rops e j (pool_size s) None (f_pool s) (f_router s) of
                Inl err \<Rightarrow> Inl (ProcessingErr err)
              | Inr (res, r1, p1, es) \<Rightarrow>
                  let s1 = s\<lparr>f_router := r1, f_pool := p1\<rparr>
                  in (case res of
                        Handled \<Rightarrow> Inr (s1, es)
                      | RateLimited j1 \<Rightarrow>
                          Inr (s1, es @ f_stat s1 JobRateLimited @
                                 discard_reject s1 discard_reason.RateLimited j1)
                      | Backlog j1 \<Rightarrow> and_then (Inr (s1, es)) (maybe_enqueue qops j1)))
           else Inr (s, discard_reject s Shutdown j)))"

definition announce ::
    "('r, 'k, 'm) router_ops \<Rightarrow> nat \<Rightarrow> ('r, 'q, 'k, 'm) factory \<Rightarrow> ('r, 'q, 'k, 'm) factory" where
  "announce rops who s =
     (case hm_get (f_pool s) who of
        Some w \<Rightarrow>
          if is_available w then s\<lparr>f_router := r_on_worker_availability_change rops who True (f_router s)\<rparr>
          else s
      | None \<Rightarrow> s)"

text \<open>The end of \<open>worker_finished_job\<close> and of \<open>handle_supervisor_evt\<close>: more work for the worker.\<close>

definition offer_work ::
    "('r, 'k, 'm) router_ops \<Rightarrow> ('q, 'k, 'm) queue_ops \<Rightarrow> ('k, 'm) env \<Rightarrow> nat \<Rightarrow>
     ('r, 'q, 'k, 'm) factory \<Rightarrow> (('r, 'q, 'k, 'm) factory, 'k, 'm) outcome" where
  "offer_work rops qops e who s =
     and_then (try_route_next_active_job rops qops e (Some who) s) (\<lambda>s1. Inr (announce rops who s1, []))"

definition drop_worker ::
    "nat \<Rightarrow> ('r, 'q, 'k, 'm) factory \<Rightarrow> ('r, 'q, 'k, 'm) factory \<times> ('k, 'm) effect list" where
  "drop_worker who s =
     (case hm_get (f_pool s) who of
        None \<Rightarrow> (s, [])
      | Some w \<Rightarrow>
          (s\<lparr>f_pool := hm_remove who (f_pool s),
             worker_by_actor := hm_remove (w_actor w) (worker_by_actor s)\<rparr>,
           [CallActor StopActor (w_actor w)]))"

definition worker_finished_job ::
    "('r, 'k, 'm) router_ops \<Rightarrow> ('q, 'k, 'm) queue_ops \<Rightarrow> ('k, 'm) env \<Rightarrow> nat \<Rightarrow> 'k \<Rightarrow>
     ('r, 'q, 'k, 'm) factory \<Rightarrow> (('r, 'q, 'k, 'm) factory, 'k, 'm) outcome" where
  "worker_finished_job rops qops e who k s =
     (case hm_get (f_pool s) who of
        None \<Rightarrow> offer_work rops qops e who s
      | Some w \<Rightarrow>
          (case worker_complete e k w of (maybe_opts, w1, es) \<Rightarrow>
             let s1 = s\<lparr>f_pool := hm_insert who w1 (f_pool s)\<rparr>;
                 es1 = es @ (case maybe_opts of None \<Rightarrow> [] | Some opts \<Rightarrow> f_stat s (JobCompleted opts))
             in and_then (Inr (s1, es1))
                  (if is_draining w1
                   then (\<lambda>s2. Inr (if is_working w1 then (s2, []) else drop_worker who s2))
                   else offer_work rops qops e who)))"

definition worker_pong ::
    "nat \<Rightarrow> duration \<Rightarrow> ('r, 'q, 'k, 'm) factory \<Rightarrow> ('r, 'q, 'k, 'm) factory \<times> ('k, 'm) effect list" where
  "worker_pong i time s =
     (let discard_limit = (case get_limit_and_mode (f_discard_settings s) of None \<Rightarrow> 0 | Some (l, m) \<Rightarrow> l)
      in case hm_get (f_pool s) i of
           None \<Rightarrow> (s, [])
         | Some w \<Rightarrow>
             let (w1, es) = ping_received time discard_limit w
             in (s\<lparr>f_pool := hm_insert i w1 (f_pool s)\<rparr>, es))"

section \<open>Periodic work\<close>

definition sat_sum :: "nat list \<Rightarrow> nat" where
  "sat_sum ns = foldl sat_add 0 ns"

definition record_metrics ::
    "('q, 'k, 'm) queue_ops \<Rightarrow> ('r, 'q, 'k, 'm) factory \<Rightarrow> ('k, 'm) effect list" where
  "record_metrics qops s =
     (let qlen = q_len qops (f_queue s);
          processing = sat_sum (map active_job_count (hm_values (f_pool s)));
          queued = sat_sum (map queued_job_count (hm_values (f_pool s)))
      in f_stat s (QueueDepth qlen) @ f_stat s (ProcessingMessages processing) @
         f_stat s (InFlightMessages (sat_add (sat_add processing queued) qlen)) @
         f_stat s (WorkerCount (pool_size s)))"

definition expire_queue ::
    "('r, 'k, 'm) router_ops \<Rightarrow> ('q, 'k, 'm) queue_ops \<Rightarrow> clock \<Rightarrow> ('r, 'q, 'k, 'm) factory \<Rightarrow>
     ('r, 'q, 'k, 'm) factory \<times> ('k, 'm) effect list" where
  "expire_queue rops qops c s =
     (if r_is_factory_queueing rops (f_router s) then
        let (n, q, es) = q_remove_expired_items qops c (f_discard_handler s) (f_queue s)
        in (s\<lparr>f_queue := q\<rparr>, es @ f_stat s (JobTtlExpired n))
      else (s, []))"

definition calculate_metrics ::
    "('r, 'k, 'm) router_ops \<Rightarrow> ('q, 'k, 'm) queue_ops \<Rightarrow> ('k, 'm) env \<Rightarrow>
     ('r, 'q, 'k, 'm) factory \<Rightarrow> (('r, 'q, 'k, 'm) factory, 'k, 'm) outcome" where
  "calculate_metrics rops qops e s =
     (let limit = (case get_limit_and_mode (f_discard_settings s) of None \<Rightarrow> 0 | Some (l, m) \<Rightarrow> l)
      in and_then
           (and_then (Inr (s, f_stat s (QueueLimit limit)))
              (\<lambda>s. if capacity_controller s \<and> pool_size s \<noteq> env_capacity e
                   then resize_pool rops qops e (env_capacity e) s else Inr (s, [])))
           (\<lambda>s1.
              let (s2, es) = expire_queue rops qops (env_clock e) s1
              in Inr (s2, record_metrics qops s1 @ es @ [SendAfter CALCULATE_FREQUENCY ''Calculate''])))"

fun with_limit :: "nat \<Rightarrow> discard_settings \<Rightarrow> discard_settings" where
  "with_limit l (DiscardDynamic limit mode) = DiscardDynamic l mode"
| "with_limit l ds = ds"

definition send_pings ::
    "('k, 'm) env \<Rightarrow> instant \<Rightarrow> ('r, 'q, 'k, 'm) factory \<Rightarrow>
     ('r, 'q, 'k, 'm) factory \<times> ('k, 'm) effect list" where
  "send_pings e when s =
     (let s1 = s\<lparr>f_discard_settings := with_limit (env_limit e) (f_discard_settings s)\<rparr>;
          (s2, es) = ping_workers e s1
      in (s2, f_stat s (FactoryPingReceived when) @ es @ [SendAfter PING_FREQUENCY ''DoPings'']))"

section \<open>Settings and queries\<close>

definition set_workers ::
    "(('k, 'm) worker \<Rightarrow> ('k, 'm) worker) \<Rightarrow> ('r, 'q, 'k, 'm) factory \<Rightarrow> ('r, 'q, 'k, 'm) factory" where
  "set_workers f s = s\<lparr>f_pool := map (\<lambda>(i, w). (i, f w)) (f_pool s)\<rparr>"

definition update_dead_mans_switch ::
    "('k, 'm) env \<Rightarrow> dead_mans_config option \<Rightarrow> ('r, 'q, 'k, 'm) factory \<Rightarrow>
     ('r, 'q, 'k, 'm) factory \<times> ('k, 'm) effect list" where
  "update_dead_mans_switch e d s =
     (let s1 = s\<lparr>dead_mans_switch := d\<rparr>;
          (s2, es2) = (case d of None \<Rightarrow> (s1, []) | Some _ \<Rightarrow> ping_workers e s1);
          (s3, es3) = reschedule_dead_mans_check s2
      in (s3, es2 @ es3))"

definition update_settings ::
    "('r, 'k, 'm) router_ops \<Rightarrow> ('q, 'k, 'm) queue_ops \<Rightarrow> ('k, 'm) env \<Rightarrow>
     ('k, 'm) update_settings_request \<Rightarrow> ('r, 'q, 'k, 'm) factory \<Rightarrow>
     (('r, 'q, 'k, 'm) factory, 'k, 'm) outcome" where
  "update_settings rops qops e u s =
     (let s1 = (case us_discard_handler u of
            None \<Rightarrow> s
          | Some dh \<Rightarrow> (set_workers (w_discard_handler_update (\<lambda>_. dh)) s)\<lparr>f_discard_handler := dh\<rparr>);
          s2 = (case us_discard_settings u of
            None \<Rightarrow> s1
          | Some ds \<Rightarrow>
              (set_workers (w_discard_settings_update (\<lambda>_. worker_settings rops (f_router s1) ds)) s1)
                \<lparr>f_discard_settings := ds\<rparr>);
          (s3, es3) = (case us_dead_mans_switch u of
            None \<Rightarrow> (s2, [])
          | Some d \<Rightarrow> update_dead_mans_switch e d s2);
          s4 = (case us_capacity_controller u of None \<Rightarrow> s3 | Some c \<Rightarrow> s3\<lparr>capacity_controller := c\<rparr>);
          s5 = (case us_lifecycle_hooks u of None \<Rightarrow> s4 | Some h \<Rightarrow> s4\<lparr>lifecycle_hooks := h\<rparr>);
          s6 = (case us_stats u of None \<Rightarrow> s5 | Some st \<Rightarrow> s5\<lparr>f_stats := st\<rparr>)
      in and_then (Inr (s6, es3))
           (\<lambda>s. case us_worker_count u of None \<Rightarrow> Inr (s, []) | Some n \<Rightarrow> resize_pool rops qops e n s))"

definition available_capacity ::
    "('r, 'k, 'm) router_ops \<Rightarrow> ('q, 'k, 'm) queue_ops \<Rightarrow> ('r, 'q, 'k, 'm) factory \<Rightarrow> nat" where
  "available_capacity rops qops s =
     (let ws = hm_values (f_pool s);
          worker_availability = length (filter (\<lambda>w. \<not> is_draining w \<and> is_available w) ws)
      in case get_limit_and_mode (f_discard_settings s) of
           Some (limit, m) \<Rightarrow>
             let queue_capacity =
               (if r_is_factory_queueing rops (f_router s) then limit - q_len qops (f_queue s)
                else sat_sum (map (\<lambda>w. limit - queued_job_count w) (filter (\<lambda>w. \<not> is_draining w) ws)))
             in sat_add worker_availability queue_capacity
         | None \<Rightarrow> worker_availability)"

definition num_active_workers :: "('r, 'q, 'k, 'm) factory \<Rightarrow> nat" where
  "num_active_workers s = length (filter is_working (hm_values (f_pool s)))"

section \<open>The factory as an actor\<close>

record ('r, 'q, 'k, 'm) factory_arguments =
  fa_num_initial_workers :: nat
  fa_router :: 'r
  fa_queue :: 'q
  fa_discard_handler :: "('k, 'm) discard_handler"
  fa_discard_settings :: discard_settings
  fa_dead_mans_switch :: "dead_mans_config option"
  fa_capacity_controller :: bool
  fa_lifecycle_hooks :: bool
  fa_stats :: stats_layer

fun spawn_all ::
    "('r, 'k, 'm) router_ops \<Rightarrow> ('k, 'm) env \<Rightarrow> nat list \<Rightarrow> ('r, 'q, 'k, 'm) factory \<Rightarrow>
     (('r, 'q, 'k, 'm) factory, 'k, 'm) outcome" where
  "spawn_all rops e [] s = Inr (s, [])"
| "spawn_all rops e (i # is) s = and_then (spawn_worker rops e i s) (spawn_all rops e is)"

definition initial_factory ::
    "string option \<Rightarrow> ('r, 'q, 'k, 'm) factory_arguments \<Rightarrow> ('r, 'q, 'k, 'm) factory" where
  "initial_factory name a =
     \<lparr>factory_name = (case name of None \<Rightarrow> ''all'' | Some n \<Rightarrow> n),
      pool_size = fa_num_initial_workers a, f_pool = [], worker_by_actor = [], f_stats = fa_stats a,
      f_router = fa_router a, f_queue = fa_queue a, f_discard_handler = fa_discard_handler a,
      f_discard_settings = fa_discard_settings a, f_drain_state = NotDraining,
      dead_mans_switch = fa_dead_mans_switch a, dead_mans_check = False,
      capacity_controller = fa_capacity_controller a, lifecycle_hooks = fa_lifecycle_hooks a\<rparr>"

definition pre_start ::
    "('r, 'k, 'm) router_ops \<Rightarrow> ('k, 'm) env \<Rightarrow> string option \<Rightarrow>
     ('r, 'q, 'k, 'm) factory_arguments \<Rightarrow> (('r, 'q, 'k, 'm) factory, 'k, 'm) outcome" where
  "pre_start rops e name a =
     and_then (spawn_all rops e [0..<fa_num_initial_workers a] (initial_factory name a))
       (\<lambda>s.
          let (s1, es) = (case dead_mans_switch s of None \<Rightarrow> (s, []) | Some _ \<Rightarrow> ping_workers e s);
              es1 = [SendAfter PING_FREQUENCY ''DoPings'', SendAfter CALCULATE_FREQUENCY ''Calculate'']
          in case dead_mans_switch s1 of
               None \<Rightarrow> Inr (s1\<lparr>dead_mans_check := False\<rparr>, es @ es1)
             | Some dmd \<Rightarrow>
                 Inr (s1\<lparr>dead_mans_check := True\<rparr>,
                      es @ es1 @ [SendAfter (detection_timeout dmd) ''IdentifyStuckWorkers'']))"

definition post_start ::
    "('k, 'm) env \<Rightarrow> ('r, 'q, 'k, 'm) factory \<Rightarrow> (('r, 'q, 'k, 'm) factory, 'k, 'm) outcome" where
  "post_start e s = run_hook e OnStarted s"

text \<open>The loop of \<open>post_stop\<close> that hands the queued jobs to the discard handler and drops them.\<close>

fun discard_queue ::
    "('q, 'k, 'm) queue_ops \<Rightarrow> nat \<Rightarrow> ('r, 'q, 'k, 'm) factory \<Rightarrow>
     ('r, 'q, 'k, 'm) factory \<times> ('k, 'm) effect list" where
  "discard_queue qops 0 s = (s, [])"
| "discard_queue qops (Suc n) s =
     (case q_pop_front qops (f_queue s) of
        (None, q) \<Rightarrow> (s\<lparr>f_queue := q\<rparr>, [])
      | (Some j, q) \<Rightarrow>
          let (s1, es) = discard_queue qops n (s\<lparr>f_queue := q\<rparr>) in (s1, discard_drop s Shutdown j @ es))"

definition post_stop ::
    "('q, 'k, 'm) queue_ops \<Rightarrow> ('k, 'm) env \<Rightarrow> ('r, 'q, 'k, 'm) factory \<Rightarrow>
     (('r, 'q, 'k, 'm) factory, 'k, 'm) outcome" where
  "post_stop qops e s =
     (let (s1, es1) = cancel_dead_mans_check s;
          (s2, es2) = (case f_discard_handler s1 of
             None \<Rightarrow> (s1, [])
           | Some _ \<Rightarrow> discard_queue qops (q_len qops (f_queue s1)) s1);
          stops = map (\<lambda>w. CallActor StopActor (w_actor w)) (hm_values (f_pool s2));
          joins = map (\<lambda>w. CallActor JoinActor (w_actor w)) (filter w_handle (hm_values (f_pool s2)));
          s3 = set_workers (\<lambda>w. snd (get_join_handle w)) s2
      in and_then (Inr (s3, es1 @ es2 @ stops @ joins)) (run_hook e OnStopped))"

text \<open>
  \<open>handle_supervisor_evt\<close>: the arms for a terminated and for a failed worker are the same code.
\<close>

definition restart_worker ::
    "('r, 'k, 'm) router_ops \<Rightarrow> ('q, 'k, 'm) queue_ops \<Rightarrow> ('k, 'm) env \<Rightarrow> actor_id \<Rightarrow>
     ('r, 'q, 'k, 'm) factory \<Rightarrow> (('r, 'q, 'k, 'm) factory, 'k, 'm) outcome" where
  "restart_worker rops qops e who s =
     (case hm_get (worker_by_actor s) who of
        None \<Rightarrow> Inr (s, [])
      | Some i \<Rightarrow>
          (case hm_get (f_pool s) i of
             None \<Rightarrow> Inr (s, [])
           | Some w \<Rightarrow>
               (case env_spawn e (wid w) of
                  Inl err \<Rightarrow> Inl (ProcessingErr err)
                | Inr a \<Rightarrow>
                    let (w1, es1) = replace_worker e a w;
                        (w2, es2) = (case dead_mans_switch s of
                            None \<Rightarrow> (w1, []) | Some _ \<Rightarrow> send_factory_ping e w1);
                        s1 = s\<lparr>f_pool := hm_insert i w2 (f_pool s),
                               worker_by_actor :=
                                 hm_insert a (wid w2) (hm_remove who (worker_by_actor s))\<rparr>
                    in and_then (Inr (s1, SpawnWorker (wid w) a # es1 @ es2))
                         (offer_work rops qops e (wid w2)))))"

fun handle_supervisor_evt ::
    "('r, 'k, 'm) router_ops \<Rightarrow> ('q, 'k, 'm) queue_ops \<Rightarrow> ('k, 'm) env \<Rightarrow> 'v supervision_event \<Rightarrow>
     ('r, 'q, 'k, 'm) factory \<Rightarrow> (('r, 'q, 'k, 'm) factory, 'k, 'm) outcome" where
  "handle_supervisor_evt rops qops e (ActorTerminated who st reason) s = restart_worker rops qops e who s"
| "handle_supervisor_evt rops qops e (ActorFailed who err) s = restart_worker rops qops e who s"
| "handle_supervisor_evt rops qops e evt s = Inr (s, [])"

fun handle_message ::
    "('r, 'k, 'm) router_ops \<Rightarrow> ('q, 'k, 'm) queue_ops \<Rightarrow> ('k, 'm) env \<Rightarrow> ('k, 'm) factory_message \<Rightarrow>
     ('r, 'q, 'k, 'm) factory \<Rightarrow> (('r, 'q, 'k, 'm) factory, 'k, 'm) outcome" where
  "handle_message rops qops e (Dispatch j) s = dispatch rops qops e j s"
| "handle_message rops qops e (Finished who k) s = worker_finished_job rops qops e who k s"
| "handle_message rops qops e (WorkerPong i time) s = Inr (worker_pong i time s)"
| "handle_message rops qops e Calculate s = calculate_metrics rops qops e s"
| "handle_message rops qops e (DoPings when) s = Inr (send_pings e when s)"
| "handle_message rops qops e IdentifyStuckWorkers s = Inr (identify_stuck_workers e s)"
| "handle_message rops qops e (GetQueueDepth p) s = Inr (s, [ReplyCount p (q_len qops (f_queue s))])"
| "handle_message rops qops e (AdjustWorkerPool n) s = resize_pool rops qops e n s"
| "handle_message rops qops e (GetAvailableCapacity p) s =
     Inr (s, [ReplyCount p (available_capacity rops qops s)])"
| "handle_message rops qops e (GetNumActiveWorkers p) s = Inr (s, [ReplyCount p (num_active_workers s)])"
| "handle_message rops qops e DrainRequests s = drain_requests e s"
| "handle_message rops qops e (UpdateSettings u) s = update_settings rops qops e u s"

definition handle ::
    "('r, 'k, 'm) router_ops \<Rightarrow> ('q, 'k, 'm) queue_ops \<Rightarrow> ('k, 'm) env \<Rightarrow> ('k, 'm) factory_message \<Rightarrow>
     ('r, 'q, 'k, 'm) factory \<Rightarrow> (('r, 'q, 'k, 'm) factory, 'k, 'm) outcome" where
  "handle rops qops e msg s =
     and_then (handle_message rops qops e msg s)
       (\<lambda>s1. let (b, s2) = is_drained qops s1 in Inr (s2, if b then [StopFactory] else []))"

end
