(* ===== verification/Factory_Moves.thy ===== *)
theory Factory_Moves
  imports Factory_Core
begin

text \<open>
  The handlers of the factory as sequences of moves. A move takes one job out of the queue, puts
  one into it, hands one to a worker, gives one up, or changes one worker; the jobs a handler
  holds in its local variables are the hand. Every handler is a sequence of moves that starts
  with the job it was given and ends with an empty hand; an invariant of the factory is then
  proved for the moves, once, and holds for every handler.
\<close>

section \<open>Moves\<close>

text \<open>Events of a worker that change neither its actor nor whether it drains, and bring no job.\<close>

fun internal :: "('k, 'm) worker_event \<Rightarrow> bool" where
  "internal (WorkerComplete k) = True"
| "internal (PingReceived t l) = True"
| "internal SendPing = True"
| "internal _ = False"

text \<open>What a change of settings, a ping or a taken join handle leaves of a worker.\<close>

definition core :: "('k, 'm) worker \<Rightarrow> _" where
  "core w = (wid w, w_actor w, message_queue w, curr_jobs w, pending_key_counts w, is_draining w)"

text \<open>
  The parameters: the router and the queue with its list and well-formedness; \<open>hk\<close>, that the
  discard handlers of the run leave key and message of a job alone; \<open>st\<close>, that workers may be
  added, removed and replaced; and the inputs of the handler.
\<close>

inductive move ::
    "('r, 'k, 'm) router_ops \<Rightarrow> ('q, 'k, 'm) queue_ops \<Rightarrow> ('q \<Rightarrow> ('k, 'm) job list) \<Rightarrow> ('q \<Rightarrow> bool) \<Rightarrow>
     bool \<Rightarrow> bool \<Rightarrow> ('k, 'm) env \<Rightarrow> ('r, 'q, 'k, 'm) factory \<times> ('k, 'm) job list \<Rightarrow>
     ('k, 'm) effect list \<Rightarrow> ('r, 'q, 'k, 'm) factory \<times> ('k, 'm) job list \<Rightarrow> bool"
  for rops qops qlist qok hk st e where
  m_take: "move rops qops qlist qok hk st e (s, h) [] (s\<lparr>f_queue := q\<rparr>, j # h)"
    if "qlist (f_queue s) = xs @ j # ys" "qlist q = xs @ ys" "qok (f_queue s) \<longrightarrow> qok q"
| m_put: "move rops qops qlist qok hk st e (s, j # h) [] (s\<lparr>f_queue := q\<rparr>, h)"
    if "q_push_back qops j (f_queue s) = Some q"
| m_expire: "move rops qops qlist qok hk st e (s, h) es (s\<lparr>f_queue := q\<rparr>, h)"
    if "q_remove_expired_items qops c (f_discard_handler s) (f_queue s) = (n, q, es)"
| m_give: "move rops qops qlist qok hk st e (s, j # h) es (s\<lparr>f_router := r, f_pool := p\<rparr>, h)"
    if "r_route_message rops e j (pool_size s) hint (f_pool s) (f_router s) = Inr (Handled, r, p, es)"
| m_lose: "move rops qops qlist qok hk st e (s, j # h) es (s, h)"
    if "handler_keeps (f_discard_handler s) \<longrightarrow> jobs_out es = {#tag j#}"
| m_relabel: "move rops qops qlist qok hk st e (s, j # h) [] (s, j' # h)" if "tag j' = tag j"
| m_quiet: "move rops qops qlist qok hk st e (s, h) es (s, h)" if "jobs_out es = {#}"
| m_router: "move rops qops qlist qok hk st e (s, h) [] (s\<lparr>f_router := r\<rparr>, h)"
| m_work: "move rops qops qlist qok hk st e (s, h) (snd (worker_step e ev w))
      (s\<lparr>f_pool := hm_insert i (fst (worker_step e ev w)) (f_pool s)\<rparr>, h)"
    if "hm_get (f_pool s) i = Some w" "internal ev"
| m_tweak: "move rops qops qlist qok hk st e (s, h) [] (s\<lparr>f_pool := map (\<lambda>(i, w). (i, g w)) (f_pool s)\<rparr>, h)"
    if "\<forall>w. core (g w) = core w" "\<forall>w. w_discard_handler (g w) = w_discard_handler w"
| m_handler: "move rops qops qlist qok hk st e (s, h) []
      ((set_workers (w_discard_handler_update (\<lambda>_. dh)) s)\<lparr>f_discard_handler := dh\<rparr>, h)"
    if "hk \<longrightarrow> handler_keeps dh"
| m_spawn: "move rops qops qlist qok hk st e (s, h) []
      (s\<lparr>f_pool := hm_insert i (worker_new (factory_name s) i a ds (f_discard_handler s) (f_stats s)) (f_pool s),
         worker_by_actor := hm_insert a i (worker_by_actor s)\<rparr>, h)"
    if "st" "hm_get (f_pool s) i = None" "env_spawn e i = Inr a"
| m_retire: "move rops qops qlist qok hk st e (s, h) []
      (s\<lparr>f_pool := hm_remove i (f_pool s), worker_by_actor := hm_remove (w_actor w) (worker_by_actor s)\<rparr>, h)"
    if "st" "hm_get (f_pool s) i = Some w" "is_available w"
| m_drain: "move rops qops qlist qok hk st e (s, h) []
      (s\<lparr>f_pool := hm_insert i (set_draining b w) (f_pool s)\<rparr>, h)"
    if "st" "hm_get (f_pool s) i = Some w"
| m_replace: "move rops qops qlist qok hk st e (s, h) (snd (replace_worker e a w))
      (s\<lparr>f_pool := hm_insert i (fst (replace_worker e a w)) (f_pool s),
         worker_by_actor := hm_insert a i (hm_remove (w_actor w) (worker_by_actor s))\<rparr>, h)"
    if "st" "hm_get (f_pool s) i = Some w" "env_spawn e i = Inr a"
| m_fields: "move rops qops qlist qok hk st e (s, h) [] (s', h)"
    if "f_pool s' = f_pool s" "f_queue s' = f_queue s" "f_router s' = f_router s"
      "f_discard_handler s' = f_discard_handler s" "worker_by_actor s' = worker_by_actor s"
      "st \<or> pool_size s' = pool_size s" "f_drain_state s' = f_drain_state s \<or> f_drain_state s' = Draining"
| m_drained: "move rops qops qlist qok hk st e (s, []) [] (s\<lparr>f_drain_state := Drained\<rparr>, [])"
    if "is_drained qops s = (True, s\<lparr>f_drain_state := Drained\<rparr>)"

inductive moves ::
    "('r, 'k, 'm) router_ops \<Rightarrow> ('q, 'k, 'm) queue_ops \<Rightarrow> ('q \<Rightarrow> ('k, 'm) job list) \<Rightarrow> ('q \<Rightarrow> bool) \<Rightarrow>
     bool \<Rightarrow> bool \<Rightarrow> ('k, 'm) env \<Rightarrow> ('r, 'q, 'k, 'm) factory \<times> ('k, 'm) job list \<Rightarrow>
     ('k, 'm) effect list \<Rightarrow> ('r, 'q, 'k, 'm) factory \<times> ('k, 'm) job list \<Rightarrow> bool"
  for rops qops qlist qok hk st e where
  moves_refl: "moves rops qops qlist qok hk st e x [] x"
| moves_step: "moves rops qops qlist qok hk st e x (es @ es') z"
    if "move rops qops qlist qok hk st e x es y" "moves rops qops qlist qok hk st e y es' z"

lemma moves_1: "move rops qops qlist qok hk st e x es y \<Longrightarrow> moves rops qops qlist qok hk st e x es y"
  by (drule moves_step [OF _ moves_refl]) simp

lemma moves_trans:
  "moves rops qops qlist qok hk st e x es y \<Longrightarrow> moves rops qops qlist qok hk st e y es' z \<Longrightarrow>
   moves rops qops qlist qok hk st e x (es @ es') z"
  by (induction rule: moves.induct) (simp_all add: moves_step)

lemma moves_snoc:
  "moves rops qops qlist qok hk st e x es y \<Longrightarrow> move rops qops qlist qok hk st e y es' z \<Longrightarrow>
   moves rops qops qlist qok hk st e x (es @ es') z"
  by (erule moves_trans) (erule moves_1)

lemma moves_invariant:
  assumes "moves rops qops qlist qok hk st e x es y" and "P x"
    and "\<And>x es y. move rops qops qlist qok hk st e x es y \<Longrightarrow> P x \<Longrightarrow> P y"
  shows "P y"
  using assms(1,2) by (induction rule: moves.induct) (simp_all add: assms(3))

lemma move_mono:
  "move rops qops qlist qok hk st e x es y \<Longrightarrow> (st \<longrightarrow> st') \<Longrightarrow> move rops qops qlist qok hk st' e x es y"
  by (erule move.cases) (simp_all add: move.intros, auto intro: m_fields)

lemma moves_mono:
  "moves rops qops qlist qok hk st e x es y \<Longrightarrow> (st \<longrightarrow> st') \<Longrightarrow> moves rops qops qlist qok hk st' e x es y"
  by (induction rule: moves.induct) (simp_all add: moves_refl moves_step [OF move_mono])

section \<open>What moves keep\<close>

text \<open>The workers of a pool, without the jobs.\<close>

definition outline :: "('k, 'm) pool \<Rightarrow> (nat \<times> nat \<times> actor_id \<times> bool) list" where
  "outline p = map (\<lambda>(i, w). (i, wid w, w_actor w, is_draining w)) p"

lemma outline_insert:
  "hm_get p i = Some w \<Longrightarrow> wid w' = wid w \<Longrightarrow> w_actor w' = w_actor w \<Longrightarrow> is_draining w' = is_draining w \<Longrightarrow>
   outline (hm_insert i w' p) = outline p"
  by (induction p) (auto simp: outline_def split: if_splits)

lemma outline_map:
  "(\<And>w. wid (g w) = wid w \<and> w_actor (g w) = w_actor w \<and> is_draining (g w) = is_draining w) \<Longrightarrow>
   outline (map (\<lambda>(i, w). (i, g w)) p) = outline p"
  by (induction p) (auto simp: outline_def)

lemma outline_keys: "outline p = outline p' \<Longrightarrow> hm_keys p = hm_keys p'"
  unfolding outline_def by (drule arg_cong [of _ _ "map fst"]) (simp add: case_prod_beta comp_def)

lemma outline_covers: "outline p = outline p' \<Longrightarrow> covers n p = covers n p'"
  by (drule outline_keys) (simp add: covers_def map_of_eq_None_iff flip: set_map)

lemma worker_step_internal:
  assumes "internal ev"
  shows "w_actor (fst (worker_step e ev w)) = w_actor w"
    and "is_draining (fst (worker_step e ev w)) = is_draining w"
  using assms
  by (cases ev; simp add: ping_received_def send_factory_ping_def Let_def split: send_outcome.split)+

lemma core_fields:
  "core w' = core w \<Longrightarrow> wid w' = wid w \<and> w_actor w' = w_actor w \<and> is_draining w' = is_draining w \<and>
   message_queue w' = message_queue w \<and> curr_jobs w' = curr_jobs w \<and>
   pending_key_counts w' = pending_key_counts w"
  by (simp add: core_def)

definition ready :: "('q \<Rightarrow> bool) \<Rightarrow> ('r, 'q, 'k, 'm) factory \<Rightarrow> bool" where
  "ready qok s \<longleftrightarrow> covers (pool_size s) (f_pool s) \<and> qok (f_queue s)"

text \<open>
  A run of moves from hand \<open>h\<close> to the empty hand, or the error of a worker that could not be
  spawned or of a lifecycle hook; never a panic.
\<close>

definition reaches ::
    "('r, 'k, 'm) router_ops \<Rightarrow> ('q, 'k, 'm) queue_ops \<Rightarrow> ('q \<Rightarrow> ('k, 'm) job list) \<Rightarrow> ('q \<Rightarrow> bool) \<Rightarrow>
     bool \<Rightarrow> bool \<Rightarrow> ('k, 'm) env \<Rightarrow> ('r, 'q, 'k, 'm) factory \<Rightarrow> ('k, 'm) job list \<Rightarrow>
     (('r, 'q, 'k, 'm) factory, 'k, 'm) outcome \<Rightarrow> bool" where
  "reaches rops qops qlist qok hk st e s h x =
     (case x of
        Inl (ProcessingErr m) \<Rightarrow> env_hook e = Inl m \<or> (\<exists>i. env_spawn e i = Inl m)
      | Inl (Panic m) \<Rightarrow> False
      | Inr (s1, es) \<Rightarrow> moves rops qops qlist qok hk st e (s, h) es (s1, []))"

lemma reaches_Inr [simp]:
  "reaches rops qops qlist qok hk st e s h (Inr (s1, es)) =
   moves rops qops qlist qok hk st e (s, h) es (s1, [])"
  by (simp add: reaches_def)

lemma reaches_err [simp]:
  "reaches rops qops qlist qok hk st e s h (Inl (ProcessingErr m)) =
   (env_hook e = Inl m \<or> (\<exists>i. env_spawn e i = Inl m))"
  by (simp add: reaches_def)

lemma reaches_panic [simp]: "\<not> reaches rops qops qlist qok hk st e s h (Inl (Panic m))"
  by (simp add: reaches_def)

lemma reaches_and_then:
  assumes "reaches rops qops qlist qok hk st e s h x"
    and "\<And>s1 es. x = Inr (s1, es) \<Longrightarrow> moves rops qops qlist qok hk st e (s, h) es (s1, []) \<Longrightarrow>
      reaches rops qops qlist qok hk st e s1 [] (f s1)"
  shows "reaches rops qops qlist qok hk st e s h (and_then x f)"
proof (cases x)
  case (Inl err)
  with assms(1) show ?thesis by (simp add: and_then_def reaches_def)
next
  case (Inr y)
  then obtain s1 es where x: "x = Inr (s1, es)" by (cases y) simp
  with assms(1) have m: "moves rops qops qlist qok hk st e (s, h) es (s1, [])" by simp
  from assms(2) [OF x m] show ?thesis
    by (cases "f s1") (auto simp: and_then_def x reaches_def moves_trans [OF m] split: fault.splits)
qed

lemma reaches_mono:
  "reaches rops qops qlist qok hk st e s h x \<Longrightarrow> (st \<longrightarrow> st') \<Longrightarrow> reaches rops qops qlist qok hk st' e s h x"
  by (simp add: reaches_def moves_mono split: sum.splits fault.splits prod.splits)

lemma reaches_first:
  assumes "moves rops qops qlist qok hk st e (s, h) es (s1, h1)"
    and "reaches rops qops qlist qok hk st e s1 h1 x"
  shows "reaches rops qops qlist qok hk st e s h (and_then (Inr (s1, es)) (\<lambda>_. x))"
  using assms(2)
  by (auto simp: and_then_def reaches_def moves_trans [OF assms(1)] split: sum.splits fault.splits)

text \<open>A handler that cannot fail, and neither adds nor removes workers.\<close>

definition runs ::
    "('r, 'k, 'm) router_ops \<Rightarrow> ('q, 'k, 'm) queue_ops \<Rightarrow> ('q \<Rightarrow> ('k, 'm) job list) \<Rightarrow> ('q \<Rightarrow> bool) \<Rightarrow>
     bool \<Rightarrow> ('k, 'm) env \<Rightarrow> ('r, 'q, 'k, 'm) factory \<Rightarrow> ('k, 'm) job list \<Rightarrow>
     (('r, 'q, 'k, 'm) factory, 'k, 'm) outcome \<Rightarrow> bool" where
  "runs rops qops qlist qok hk e s h x \<longleftrightarrow> isl x = False \<and> reaches rops qops qlist qok hk False e s h x"

lemma runs_Inr [simp]:
  "runs rops qops qlist qok hk e s h (Inr (s1, es)) =
   moves rops qops qlist qok hk False e (s, h) es (s1, [])"
  by (simp add: runs_def)

lemma runsE:
  assumes "runs rops qops qlist qok hk e s h x"
  obtains s1 es where "x = Inr (s1, es)" "moves rops qops qlist qok hk False e (s, h) es (s1, [])"
  using assms by (cases x) (auto simp: runs_def)

lemma runs_and_then:
  assumes "runs rops qops qlist qok hk e s h x"
    and "\<And>s1 es. x = Inr (s1, es) \<Longrightarrow> moves rops qops qlist qok hk False e (s, h) es (s1, []) \<Longrightarrow>
      runs rops qops qlist qok hk e s1 [] (f s1)"
  shows "runs rops qops qlist qok hk e s h (and_then x f)"
proof -
  from assms(1) obtain s1 es where x: "x = Inr (s1, es)" "moves rops qops qlist qok hk False e (s, h) es (s1, [])"
    by (rule runsE)
  from assms(2) [OF this] obtain s2 es2 where "f s1 = Inr (s2, es2)"
    "moves rops qops qlist qok hk False e (s1, []) es2 (s2, [])" by (rule runsE)
  with x show ?thesis by (simp add: and_then_def moves_trans)
qed

lemma runs_reaches: "runs rops qops qlist qok hk e s h x \<Longrightarrow> reaches rops qops qlist qok hk st e s h x"
  by (rule reaches_mono [of _ _ _ _ _ False]) (simp_all add: runs_def)

lemma jobs_out_f_stat [simp]: "jobs_out (f_stat s call) = {#}"
  by (simp add: f_stat_def)

lemma jobs_out_discards [simp]:
  "handler_keeps (f_discard_handler s) \<Longrightarrow> jobs_out (discard_reject s r j) = {#tag j#}"
  "handler_keeps (f_discard_handler s) \<Longrightarrow> jobs_out (discard_drop s r j) = {#tag j#}"
  by (simp_all add: discard_reject_def discard_drop_def case_prod_beta Let_def)

section \<open>The shape of the pool\<close>

text \<open>
  The workers below the pool's size are there and do not drain; any others are draining. Every
  worker has the number it is filed under.
\<close>

definition shaped :: "nat \<Rightarrow> ('k, 'm) pool \<Rightarrow> bool" where
  "shaped n p \<longleftrightarrow> hm_wf p \<and> covers n p \<and>
     (\<forall>i w. hm_get p i = Some w \<longrightarrow> wid w = i \<and> (is_draining w \<longleftrightarrow> n \<le> i))"

lemma outline_get: "map_of (outline p) i = map_option (\<lambda>w. (wid w, w_actor w, is_draining w)) (hm_get p i)"
  by (induction p) (auto simp: outline_def)

lemma outline_eqD:
  assumes "outline p = outline p'" and "hm_get p i = Some w"
  obtains w' where "hm_get p' i = Some w'" "wid w' = wid w" "w_actor w' = w_actor w"
    "is_draining w' = is_draining w"
  using assms outline_get [of p i] outline_get [of p' i] by force

lemma outline_shaped:
  assumes "outline p = outline p'" and "shaped n p'"
  shows "shaped n p"
  unfolding shaped_def
proof (intro conjI allI impI)
  show "hm_wf p" using assms(2) outline_keys [OF assms(1)] by (simp add: shaped_def)
  show "covers n p" using assms(2) outline_covers [OF assms(1)] by (simp add: shaped_def)
  fix i w assume "hm_get p i = Some w"
  with assms(1) obtain w' where w': "hm_get p' i = Some w'" "wid w' = wid w" "is_draining w' = is_draining w"
    by (rule outline_eqD)
  with assms(2) show "wid w = i" and "is_draining w \<longleftrightarrow> n \<le> i" unfolding shaped_def by metis+
qed

lemma shaped_insert:
  assumes "shaped n p" and "hm_get p i = Some w" and "wid w' = wid w" and "is_draining w' = is_draining w"
  shows "shaped n (hm_insert i w' p)"
  unfolding shaped_def
proof (intro conjI allI impI)
  show "hm_wf (hm_insert i w' p)" using assms(1) by (simp add: shaped_def)
  show "covers n (hm_insert i w' p)" using assms(1) by (simp add: shaped_def covers_def)
  have w: "wid w = i" "is_draining w = (n \<le> i)" using assms(1,2) unfolding shaped_def by blast+
  fix i' v assume "hm_get (hm_insert i w' p) i' = Some v"
  then have v: "(if i' = i then Some w' else hm_get p i') = Some v" by (simp add: fun_upd_apply)
  have "wid v = i' \<and> is_draining v = (n \<le> i')"
  proof (cases "i' = i")
    case True
    with v w assms(3,4) show ?thesis by simp
  next
    case False
    with v have "hm_get p i' = Some v" by simp
    with assms(1) show ?thesis unfolding shaped_def by blast
  qed
  then show "wid v = i'" "is_draining v = (n \<le> i')" by simp_all
qed

lemma shaped_remove:
  assumes "shaped n p" and "n \<le> i"
  shows "shaped n (hm_remove i p)"
  unfolding shaped_def
proof (intro conjI allI impI)
  show "hm_wf (hm_remove i p)" using assms(1) by (simp add: shaped_def)
  show "covers n (hm_remove i p)" using assms by (simp add: shaped_def covers_def)
  fix i' w assume "hm_get (hm_remove i p) i' = Some w"
  then have "hm_get p i' = Some w" by (simp add: restrict_map_def split: if_splits)
  with assms(1) show "wid w = i'" "is_draining w = (n \<le> i')" unfolding shaped_def by blast+
qed

lemma grow_all_pool:
  assumes "grow_all rops e is s = Inr (s1, es)" and "hm_wf (f_pool s)"
    and "\<forall>i w. hm_get (f_pool s) i = Some w \<longrightarrow> wid w = i"
  shows "hm_wf (f_pool s1) \<and> pool_size s1 = pool_size s \<and> f_queue s1 = f_queue s \<and>
    (\<forall>i. i \<notin> set is \<longrightarrow> hm_get (f_pool s1) i = hm_get (f_pool s) i) \<and>
    (\<forall>i\<in>set is. \<exists>w. hm_get (f_pool s1) i = Some w \<and> wid w = i \<and> \<not> is_draining w)"
  using assms
proof (induction "is" arbitrary: s es)
  case (Cons i "is")
  obtain s2 es2 es3 where g: "grow_one rops e i s = Inr (s2, es2)" "grow_all rops e is s2 = Inr (s1, es3)"
    using Cons.prems(1) by (auto simp: and_then_def split: sum.splits)
  have 1: "hm_wf (f_pool s2) \<and> pool_size s2 = pool_size s \<and> f_queue s2 = f_queue s \<and>
      (\<exists>w. hm_get (f_pool s2) i = Some w \<and> wid w = i \<and> \<not> is_draining w) \<and>
      (\<forall>i'. i' \<noteq> i \<longrightarrow> hm_get (f_pool s2) i' = hm_get (f_pool s) i')"
    using g(1) Cons.prems(2,3)
    by (auto simp: grow_one_def spawn_worker_def Let_def set_draining_def worker_new_def
        split: option.splits sum.splits if_splits)
  then have "\<forall>i w. hm_get (f_pool s2) i = Some w \<longrightarrow> wid w = i"
    using Cons.prems(3) by (metis option.inject)
  from Cons.IH [OF g(2) _ this] 1 show ?case by auto
qed (simp add: moves_refl)

lemma shrink_all_pool:
  assumes "hm_wf (f_pool s)" and "\<forall>i w. hm_get (f_pool s) i = Some w \<longrightarrow> wid w = i"
  shows "let s1 = fst (shrink_all rops is s) in hm_wf (f_pool s1) \<and> pool_size s1 = pool_size s \<and>
    f_queue s1 = f_queue s \<and>
    (\<forall>i. i \<notin> set is \<longrightarrow> hm_get (f_pool s1) i = hm_get (f_pool s) i) \<and>
    (\<forall>i\<in>set is. \<forall>w. hm_get (f_pool s1) i = Some w \<longrightarrow> wid w = i \<and> is_draining w)"
  using assms
proof (induction "is" arbitrary: s)
  case (Cons i "is")
  define s2 where "s2 = fst (shrink_one rops i s)"
  have 1: "hm_wf (f_pool s2) \<and> pool_size s2 = pool_size s \<and> f_queue s2 = f_queue s \<and>
      (\<forall>w. hm_get (f_pool s2) i = Some w \<longrightarrow> wid w = i \<and> is_draining w) \<and>
      (\<forall>i'. i' \<noteq> i \<longrightarrow> hm_get (f_pool s2) i' = hm_get (f_pool s) i')"
    unfolding s2_def using Cons.prems
    by (auto simp: shrink_one_def set_draining_def split: option.splits)
  then have "\<forall>i w. hm_get (f_pool s2) i = Some w \<longrightarrow> wid w = i"
    using Cons.prems(2) by metis
  from Cons.IH [OF _ this] 1 show ?case by (auto simp: Let_def case_prod_beta s2_def [symmetric])
qed simp

definition formed :: "('q \<Rightarrow> bool) \<Rightarrow> ('r, 'q, 'k, 'm) factory \<Rightarrow> bool" where
  "formed qok s \<longleftrightarrow> shaped (pool_size s) (f_pool s) \<and> qok (f_queue s)"

lemma formed_ready: "formed qok s \<Longrightarrow> ready qok s"
  by (simp add: formed_def shaped_def ready_def)

text \<open>A handler that ends in a well-formed state, if it does not return an error.\<close>

definition sound ::
    "('r, 'k, 'm) router_ops \<Rightarrow> ('q, 'k, 'm) queue_ops \<Rightarrow> ('q \<Rightarrow> ('k, 'm) job list) \<Rightarrow> ('q \<Rightarrow> bool) \<Rightarrow>
     bool \<Rightarrow> ('k, 'm) env \<Rightarrow> ('r, 'q, 'k, 'm) factory \<Rightarrow> ('k, 'm) job list \<Rightarrow>
     (('r, 'q, 'k, 'm) factory, 'k, 'm) outcome \<Rightarrow> bool" where
  "sound rops qops qlist qok hk e s h x \<longleftrightarrow> reaches rops qops qlist qok hk True e s h x \<and>
     (\<forall>s1 es. x = Inr (s1, es) \<longrightarrow> formed qok s1)"

lemma soundI:
  assumes "reaches rops qops qlist qok hk True e s h x" and "\<And>s1 es. x = Inr (s1, es) \<Longrightarrow> formed qok s1"
  shows "sound rops qops qlist qok hk e s h x"
  using assms by (simp add: sound_def)

lemma sound_return: "formed qok s \<Longrightarrow> sound rops qops qlist qok hk e s [] (Inr (s, []))"
  by (simp add: sound_def moves_refl)

lemma sound_and_then:
  assumes "sound rops qops qlist qok hk e s h x"
    and "\<And>s1 es. x = Inr (s1, es) \<Longrightarrow> formed qok s1 \<Longrightarrow> sound rops qops qlist qok hk e s1 [] (f s1)"
  shows "sound rops qops qlist qok hk e s h (and_then x f)"
proof (rule soundI)
  have "formed qok s1" if "x = Inr (s1, es)" for s1 es using assms(1) that by (simp add: sound_def)
  with assms show "reaches rops qops qlist qok hk True e s h (and_then x f)"
    by (intro reaches_and_then) (auto simp: sound_def)
  fix s2 es2 assume "and_then x f = Inr (s2, es2)"
  then obtain s1 es es1 where "x = Inr (s1, es)" "f s1 = Inr (s2, es1)"
    by (auto simp: and_then_def split: sum.splits prod.splits)
  with assms show "formed qok s2" by (auto simp: sound_def)
qed

lemma send_ping_core:
  "core (fst (send_factory_ping e w)) = core w"
  "w_discard_handler (fst (send_factory_ping e w)) = w_discard_handler w"
  "jobs_out (snd (send_factory_ping e w)) = {#}"
  by (simp_all add: send_factory_ping_def core_def Let_def split: send_outcome.split)

lemma ping_workers_shaped: "shaped n (f_pool s) \<Longrightarrow> shaped n (f_pool (fst (ping_workers e s)))"
  using core_fields [OF send_ping_core(1) [of e]]
  by (elim outline_shaped [rotated]) (auto simp: ping_workers_def intro!: outline_map)

lemma jobs_out_concat: "(\<And>x. x \<in> set xs \<Longrightarrow> jobs_out (f x) = {#}) \<Longrightarrow> jobs_out (concat (map f xs)) = {#}"
  by (induction xs) auto

lemma scan_worker_core:
  "core (fst (scan_worker e dmd w)) = core w"
  "w_discard_handler (fst (scan_worker e dmd w)) = w_discard_handler w"
  "jobs_out (fst (snd (scan_worker e dmd w))) = {#}"
  "jobs_out (snd (snd (scan_worker e dmd w))) = {#}"
  by (simp_all add: scan_worker_def get_join_handle_def core_def Let_def)

lemma reschedule_fields:
  "\<exists>b. reschedule_dead_mans_check s = (s\<lparr>dead_mans_check := b\<rparr>, snd (reschedule_dead_mans_check s))"
  "jobs_out (snd (reschedule_dead_mans_check s)) = {#}"
  "\<exists>b. cancel_dead_mans_check s = (s\<lparr>dead_mans_check := b\<rparr>, snd (cancel_dead_mans_check s))"
  "jobs_out (snd (cancel_dead_mans_check s)) = {#}"
  by (auto simp: reschedule_dead_mans_check_def cancel_dead_mans_check_def Let_def split: option.split)

text \<open>The jobs a message brings, and that its discard handler leaves jobs alone.\<close>

fun arriving :: "('k, 'm) factory_message \<Rightarrow> ('k, 'm) job list" where
  "arriving (Dispatch j) = [j]"
| "arriving _ = []"

fun honest :: "('k, 'm) factory_message \<Rightarrow> bool" where
  "honest (UpdateSettings u) = (case us_discard_handler u of None \<Rightarrow> True | Some dh \<Rightarrow> handler_keeps dh)"
| "honest _ = True"

section \<open>Handlers as moves\<close>

locale factory_parts = router rops + job_queue qops qlist qok
  for rops :: "('r, 'k, 'm) router_ops" and qops :: "('q, 'k, 'm) queue_ops"
    and qlist :: "'q \<Rightarrow> ('k, 'm) job list" and qok :: "'q \<Rightarrow> bool"
begin

lemma move_queue_ok:
  "move rops qops qlist qok hk st e x es y \<Longrightarrow> qok (f_queue (fst x)) \<Longrightarrow> qok (f_queue (fst y))"
proof (erule move.cases, goal_cases)
  case (2 j s q h)
  then show ?case using push_ok [of "f_queue s" j] by auto
next
  case (3 c s n q es h)
  then show ?case using remove_expired [OF 3(5)] by simp
qed (simp_all add: set_workers_def)

lemma move_outline:
  "move rops qops qlist qok hk False e x es y \<Longrightarrow>
   outline (f_pool (fst y)) = outline (f_pool (fst x)) \<and> pool_size (fst y) = pool_size (fst x) \<and>
   worker_by_actor (fst y) = worker_by_actor (fst x)"
proof (erule move.cases, goal_cases)
  case (4 j s hint r p es h)
  then show ?case using route_cases [OF 4(4)] by (auto simp: routed_to_def outline_insert)
next
  case (9 s i w ev h)
  then show ?case by (simp add: outline_insert worker_step_internal)
next
  case (10 g s h)
  then show ?case using core_fields by (auto intro!: outline_map)
next
  case (11 dh s h)
  then show ?case by (auto simp: set_workers_def intro!: outline_map)
qed simp_all

lemma moves_outline:
  "moves rops qops qlist qok hk False e x es y \<Longrightarrow>
   outline (f_pool (fst y)) = outline (f_pool (fst x)) \<and> pool_size (fst y) = pool_size (fst x) \<and>
   worker_by_actor (fst y) = worker_by_actor (fst x)"
  by (erule moves_invariant) (simp, drule move_outline, simp)

lemma moves_queue_ok:
  "moves rops qops qlist qok hk st e x es y \<Longrightarrow> qok (f_queue (fst x)) \<Longrightarrow> qok (f_queue (fst y))"
  by (erule moves_invariant) (simp, erule move_queue_ok, simp)

lemma moves_ready: "moves rops qops qlist qok hk False e (s, h) es (s1, h1) \<Longrightarrow> ready qok s \<Longrightarrow> ready qok s1"
  by (frule moves_outline, drule moves_queue_ok)
    (auto simp: ready_def dest: outline_covers [of _ _ "pool_size s"])

lemma take_lose:
  assumes "qlist (f_queue s) = xs @ j # ys" and "qlist q = xs @ ys" and "qok (f_queue s) \<longrightarrow> qok q"
    and "handler_keeps (f_discard_handler s) \<longrightarrow> jobs_out es = {#tag j#}"
  shows "moves rops qops qlist qok hk st e (s, h) es (s\<lparr>f_queue := q\<rparr>, h)"
proof -
  have "move rops qops qlist qok hk st e (s, h) [] (s\<lparr>f_queue := q\<rparr>, j # h)"
    using assms by (intro m_take)
  moreover have "move rops qops qlist qok hk st e (s\<lparr>f_queue := q\<rparr>, j # h) es (s\<lparr>f_queue := q\<rparr>, h)"
    using assms(4) by (intro m_lose) simp
  ultimately have "moves rops qops qlist qok hk st e (s, h) ([] @ es) (s\<lparr>f_queue := q\<rparr>, h)"
    by (intro moves_snoc [OF moves_1])
  then show ?thesis by simp
qed

lemma expire_head_moves:
  "moves rops qops qlist qok hk st e (s, h) (snd (expire_head qops c n s)) (fst (expire_head qops c n s), h)"
proof (induction n arbitrary: s)
  case (Suc n)
  show ?case
  proof (cases rule: pop_cases [of "f_queue s"])
    case empty
    then show ?thesis by (simp add: peek_qlist moves_refl)
  next
    case (job j js q')
    let ?s1 = "s\<lparr>f_queue := q'\<rparr>"
    have "moves rops qops qlist qok hk st e (s, h) (f_stat s (JobTtlExpired 1) @ discard_reject s TtlExpired j) (?s1, h)"
      using job by (intro take_lose [of s "[]" j js]) simp_all
    from moves_trans [OF this Suc.IH [of ?s1]] job show ?thesis
      by (simp add: peek_qlist case_prod_beta Let_def moves_refl)
  qed
qed (simp add: moves_refl)

lemma expire_head_queue: "suffix (qlist (f_queue (fst (expire_head qops c n s)))) (qlist (f_queue s))"
proof (induction n arbitrary: s)
  case (Suc n)
  show ?case
  proof (cases rule: pop_cases [of "f_queue s"])
    case (job j js q')
    then show ?thesis
      using Suc.IH [of "s\<lparr>f_queue := q'\<rparr>"] by (simp add: peek_qlist case_prod_beta Let_def suffix_Cons)
  qed (simp add: peek_qlist)
qed simp

text \<open>One turn of the routing loop: it does not fail, and another turn finds a shorter queue.\<close>

lemma route_head_moves:
  assumes "ready qok s"
  obtains b s1 es where "route_head rops qops e hint s = Inr (b, s1, es)"
    "moves rops qops qlist qok hk st e (s, []) es (s1, [])"
    "b \<Longrightarrow> length (qlist (f_queue s)) = Suc (length (qlist (f_queue s1)))"
proof (cases rule: pop_cases [of "f_queue s"])
  case empty
  with that [of False s "[]"] show thesis by (simp add: route_head_def peek_qlist moves_refl)
next
  case (job j js q)
  obtain t r1 where c: "r_choose_target_worker rops e j (pool_size s) hint (f_pool s) (f_router s) = (t, r1)"
    by (cases "r_choose_target_worker rops e j (pool_size s) hint (f_pool s) (f_router s)")
  show thesis
  proof (cases t)
    case None
    with that [of False "s\<lparr>f_router := r1\<rparr>" "[]"] job c show thesis
      by (simp add: route_head_def peek_qlist moves_1 m_router)
  next
    case (Some i)
    obtain res r2 p es where r: "r_route_message rops e j (pool_size s) (Some i) (f_pool s) r1 = Inr (res, r2, p, es)"
      using route_total by (metis prod_cases4)
    have nb: "res \<noteq> Backlog j'" for j'
      using target_routed r c Some assms unfolding ready_def by blast
    let ?s1 = "s\<lparr>f_queue := q, f_router := r1\<rparr>"
    have m0: "move rops qops qlist qok hk st e (s, []) [] (s\<lparr>f_queue := q\<rparr>, [j])"
      using job by (intro m_take [where xs = "[]"]) simp_all
    have m1: "move rops qops qlist qok hk st e (s\<lparr>f_queue := q\<rparr>, [j]) [] (?s1, [j])"
      using m_router [where s = "s\<lparr>f_queue := q\<rparr>"] by simp
    have m: "moves rops qops qlist qok hk st e (s, []) [] (?s1, [j])"
      using moves_snoc [OF moves_1 [OF m0] m1] by simp
    let ?s2 = "s\<lparr>f_router := r2, f_queue := q, f_pool := p\<rparr>"
    have s2: "?s2 = s\<lparr>f_queue := q, f_router := r2, f_pool := p\<rparr>" by simp
    show thesis
    proof (cases res)
      case Handled
      have "move rops qops qlist qok hk st e (?s1, [j]) es (?s2, [])"
        unfolding s2 using m_give [where s = ?s1 and j = j and h = "[]" and hint = "Some i"] r Handled by simp
      from moves_snoc [OF m this] that [of False ?s2 es] job c Some r Handled show thesis
        by (simp add: route_head_def peek_qlist)
    next
      case (RateLimited j2)
      with route_cases [OF r] have e: "j2 = j" "p = f_pool s" "es = []" by auto
      have "moves rops qops qlist qok hk st e (s, [])
          (f_stat ?s2 JobRateLimited @ discard_reject ?s2 discard_reason.RateLimited j) (s\<lparr>f_queue := q\<rparr>, [])"
        using job by (intro take_lose [of s "[]" j js]) simp_all
      moreover have "move rops qops qlist qok hk st e (s\<lparr>f_queue := q\<rparr>, []) [] (?s2, [])"
        unfolding s2 using m_router [where s = "s\<lparr>f_queue := q\<rparr>" and r = r2] e by simp
      ultimately have "moves rops qops qlist qok hk st e (s, [])
          ((f_stat ?s2 JobRateLimited @ discard_reject ?s2 discard_reason.RateLimited j) @ []) (?s2, [])"
        by (rule moves_snoc)
      with that [of True ?s2] job c Some r RateLimited e show thesis
        by (simp add: route_head_def peek_qlist Let_def)
    qed (use nb in blast)
  qed
qed

lemma route_loop_moves:
  assumes "ready qok s"
  obtains s1 es where "route_loop rops qops e hint n s = Inr (s1, es)"
    "moves rops qops qlist qok hk False e (s, []) es (s1, [])"
proof -
  have "\<exists>s1 es. route_loop rops qops e hint n s = Inr (s1, es) \<and>
      moves rops qops qlist qok hk False e (s, []) es (s1, [])"
    using assms
  proof (induction n arbitrary: s)
    case (Suc n)
    obtain b s1 es where h: "route_head rops qops e hint s = Inr (b, s1, es)"
        "moves rops qops qlist qok hk False e (s, []) es (s1, [])"
      using route_head_moves [OF Suc.prems] by metis
    from Suc.IH [OF moves_ready [OF h(2) Suc.prems]] obtain s2 es2 where
      "route_loop rops qops e hint n s1 = Inr (s2, es2)"
      "moves rops qops qlist qok hk False e (s1, []) es2 (s2, [])" by blast
    with h show ?case
      by (cases b) (auto simp: and_then_def intro: moves_trans)
  qed (simp add: moves_refl)
  with that show thesis by blast
qed

text \<open>The length of the queue is enough fuel: more of it changes nothing.\<close>

lemma route_loop_fuel:
  assumes "ready qok s" and "length (qlist (f_queue s)) \<le> n"
  shows "route_loop rops qops e hint n s = route_loop rops qops e hint (length (qlist (f_queue s))) s"
  using assms
proof (induction n arbitrary: s)
  case (Suc n)
  obtain b s1 es where h: "route_head rops qops e hint s = Inr (b, s1, es)"
      "moves rops qops qlist qok False False e (s, []) es (s1, [])"
      "b \<Longrightarrow> length (qlist (f_queue s)) = Suc (length (qlist (f_queue s1)))"
    using route_head_moves [OF Suc.prems(1)] by metis
  from moves_ready [OF h(2) Suc.prems(1)] have r1: "ready qok s1" .
  show ?case
  proof (cases "qlist (f_queue s)")
    case Nil
    then show ?thesis by (simp add: route_head_def peek_qlist)
  next
    case (Cons j js)
    show ?thesis
    proof (cases b)
      case True
      with h(3) Cons have "length js = length (qlist (f_queue s1))" by simp
      moreover from this Suc.IH [OF r1] Suc.prems(2) Cons
      have "route_loop rops qops e hint n s1 = route_loop rops qops e hint (length js) s1" by simp
      ultimately show ?thesis using Cons h(1) by (simp add: and_then_def)
    qed (use Cons h(1) in simp)
  qed
qed simp

lemma try_route_moves:
  assumes "ready qok s"
  obtains s1 es where "try_route_next_active_job rops qops e hint s = Inr (s1, es)"
    "moves rops qops qlist qok hk False e (s, []) es (s1, [])"
proof -
  let ?x = "expire_head qops (env_clock e) (q_len qops (f_queue s)) s"
  have m: "moves rops qops qlist qok hk False e (s, []) (snd ?x) (fst ?x, [])"
    by (rule expire_head_moves)
  from route_loop_moves [OF moves_ready [OF m assms]] obtain s1 es where
    "route_loop rops qops e hint (q_len qops (f_queue (fst ?x))) (fst ?x) = Inr (s1, es)"
    "moves rops qops qlist qok hk False e (fst ?x, []) es (s1, [])" by blast
  with moves_trans [OF m this(2)] that show thesis
    by (simp add: try_route_next_active_job_def and_then_def case_prod_beta)
qed

lemma try_route_runs:
  "ready qok s \<Longrightarrow> runs rops qops qlist qok hk e s [] (try_route_next_active_job rops qops e hint s)"
  by (rule try_route_moves [of s e hint hk]) auto

lemma shed_queue_moves:
  "moves rops qops qlist qok hk st e (s, h) (snd (shed_queue qops limit n s)) (fst (shed_queue qops limit n s), h)"
proof (induction n arbitrary: s)
  case (Suc n)
  show ?case
  proof (cases rule: discard_cases [of "f_queue s"])
    case empty
    then show ?thesis using Suc.IH [of s] by (simp add: moves_refl)
  next
    case (job j q xs ys)
    let ?s1 = "s\<lparr>f_queue := q\<rparr>"
    have "moves rops qops qlist qok hk st e (s, h) (f_stat s JobDiscarded @ discard_drop s Loadshed j) (?s1, h)"
      using job by (intro take_lose [of s xs j ys]) simp_all
    from moves_trans [OF this Suc.IH [of ?s1]] job show ?thesis
      by (simp add: case_prod_beta Let_def moves_refl)
  qed
qed (simp add: moves_refl)

lemma shed_queue_length:
  "length (qlist (f_queue s)) \<le> n \<Longrightarrow> length (qlist (f_queue (fst (shed_queue qops limit n s)))) \<le> limit"
proof (induction n arbitrary: s)
  case (Suc n)
  show ?case
  proof (cases rule: discard_cases [of "f_queue s"])
    case (job j q xs ys)
    with Suc show ?thesis by (simp add: case_prod_beta Let_def len_qlist)
  qed (use Suc in \<open>simp add: len_qlist\<close>)
qed simp

lemma push_accepted_moves:
  assumes "qok (f_queue s)"
  obtains q es where "push_accepted qops j s = Inr (s\<lparr>f_queue := q\<rparr>, es)"
    "moves rops qops qlist qok hk st e (s, [j]) es (s\<lparr>f_queue := q\<rparr>, [])"
    "length (qlist q) = Suc (length (qlist (f_queue s)))"
proof -
  let ?j = "fst (accept j)" and ?es = "snd (accept j)"
  obtain q where q: "q_push_back qops ?j (f_queue s) = Some q" using push_ok [OF assms] by blast
  have "move rops qops qlist qok hk st e (s, [j]) [] (s, [?j])" by (rule m_relabel) simp
  moreover have "move rops qops qlist qok hk st e (s, [?j]) ?es (s, [?j])" by (rule m_quiet) simp
  moreover have "move rops qops qlist qok hk st e (s, [?j]) [] (s\<lparr>f_queue := q\<rparr>, [])" using q by (rule m_put)
  ultimately have "moves rops qops qlist qok hk st e (s, [j]) (([] @ ?es) @ []) (s\<lparr>f_queue := q\<rparr>, [])"
    by (intro moves_snoc [OF moves_snoc [OF moves_1]])
  with q that [of q ?es] push_length [OF q] show thesis
    by (simp add: push_accepted_def case_prod_beta)
qed

lemma maybe_enqueue_moves:
  assumes "qok (f_queue s)"
  shows "runs rops qops qlist qok hk e s [j] (maybe_enqueue qops j s)"
proof -
  obtain q es where p: "push_accepted qops j s = Inr (s\<lparr>f_queue := q\<rparr>, es)"
      "moves rops qops qlist qok hk False e (s, [j]) es (s\<lparr>f_queue := q\<rparr>, [])"
    by (rule push_accepted_moves [OF assms])
  have lose: "moves rops qops qlist qok hk False e (s, [j]) (f_stat s JobDiscarded @ discard_reject s Loadshed j) (s, [])"
    by (intro moves_1 m_lose) simp
  have shed: "runs rops qops qlist qok hk e s [j] (and_then (push_accepted qops j s)
      (\<lambda>s1. Inr (shed_queue qops limit (q_len qops (f_queue s1)) s1)))" for limit
  proof (rule runs_and_then)
    show "runs rops qops qlist qok hk e s1 [] (Inr (shed_queue qops limit (q_len qops (f_queue s1)) s1))" for s1
      using shed_queue_moves [of hk False e s1 "[]" limit "q_len qops (f_queue s1)"]
      by (cases "shed_queue qops limit (q_len qops (f_queue s1)) s1") simp
  qed (simp add: p)
  show ?thesis
    using p lose shed
    by (simp add: maybe_enqueue_def Let_def split: option.split discard_mode.split)
qed

lemma dispatch_moves:
  assumes "ready qok s"
  shows "runs rops qops qlist qok hk e s [job0] (dispatch rops qops e job0 s)"
proof -
  let ?j = "set_factory_time (env_clock e) job0" and ?c = "env_clock e"
  have "move rops qops qlist qok hk False e (s, [job0]) [] (s, [?j])" by (rule m_relabel) simp
  moreover have "move rops qops qlist qok hk False e (s, [?j]) (f_stat s NewJob) (s, [?j])" by (rule m_quiet) simp
  ultimately have m: "moves rops qops qlist qok hk False e (s, [job0]) ([] @ f_stat s NewJob) (s, [?j])"
    by (intro moves_snoc [OF moves_1])
  have lose: "moves rops qops qlist qok hk False e (s, [?j]) (f_stat s c @ discard_reject s r ?j) (s, [])" for c r
    by (intro moves_1 m_lose) simp
  have lose0: "moves rops qops qlist qok hk False e (s, [?j]) (discard_reject s r ?j) (s, [])" for r
    by (intro moves_1 m_lose) simp
  obtain res r1 p1 es where r: "r_route_message rops e ?j (pool_size s) None (f_pool s) (f_router s) = Inr (res, r1, p1, es)"
    using route_total by (metis prod_cases4)
  let ?s1 = "s\<lparr>f_router := r1, f_pool := p1\<rparr>"
  define route where "route = (case res of
      Handled \<Rightarrow> Inr (?s1, es)
    | RateLimited j1 \<Rightarrow> Inr (?s1, es @ f_stat ?s1 JobRateLimited @ discard_reject ?s1 discard_reason.RateLimited j1)
    | Backlog j1 \<Rightarrow> and_then (Inr (?s1, es)) (maybe_enqueue qops j1))"
  have "runs rops qops qlist qok hk e s [?j] route"
  proof (cases "res = Handled")
    case True
    then show ?thesis using m_give r by (auto simp: route_def intro!: moves_1)
  next
    case False
    with route_cases [OF r] have same: "p1 = f_pool s" "es = []" and giv: "res = Backlog ?j \<or> res = RateLimited ?j"
      by auto
    have router: "moves rops qops qlist qok hk False e (s, [?j]) [] (?s1, [?j])"
      using m_router [where s = s and r = r1] same by (simp add: moves_1)
    have "runs rops qops qlist qok hk e ?s1 [?j] (maybe_enqueue qops ?j ?s1)"
      using assms by (intro maybe_enqueue_moves) (simp add: ready_def)
    then obtain s2 es2 where q: "maybe_enqueue qops ?j ?s1 = Inr (s2, es2)"
      "moves rops qops qlist qok hk False e (?s1, [?j]) es2 (s2, [])" by (rule runsE)
    moreover have "moves rops qops qlist qok hk False e (?s1, [?j])
        (f_stat ?s1 JobRateLimited @ discard_reject ?s1 discard_reason.RateLimited ?j) (?s1, [])"
      by (intro moves_1 m_lose) simp
    ultimately show ?thesis
      using giv same moves_trans [OF router] by (auto simp: route_def and_then_def)
  qed
  then obtain s3 es3 where "route = Inr (s3, es3)" "moves rops qops qlist qok hk False e (s, [?j]) es3 (s3, [])"
    by (rule runsE)
  with moves_trans [OF m] lose lose0 r show ?thesis
    by (simp add: dispatch_def Let_def and_then_def [of "Inr (s, f_stat s NewJob)"] flip: route_def)
qed

lemma announce_moves: "moves rops qops qlist qok hk st e (s, h) [] (announce rops who s, h)"
  by (simp add: announce_def moves_refl moves_1 m_router split: option.split)

lemma offer_work_moves:
  assumes "ready qok s"
  shows "runs rops qops qlist qok hk e s [] (offer_work rops qops e who s)"
  unfolding offer_work_def
proof (rule runs_and_then)
  show "runs rops qops qlist qok hk e s [] (try_route_next_active_job rops qops e (Some who) s)"
    by (rule try_route_runs [OF assms])
qed (simp add: announce_moves)

lemma tweak_moves:
  assumes "\<forall>w. core (g w) = core w" and "\<forall>w. w_discard_handler (g w) = w_discard_handler w" and "jobs_out es = {#}"
  shows "moves rops qops qlist qok hk st e (s, h) es (s\<lparr>f_pool := map (\<lambda>(i, w). (i, g w)) (f_pool s)\<rparr>, h)"
  using moves_snoc [OF moves_1 [OF m_tweak [OF assms(1,2)]] m_quiet [OF assms(3)]] by simp

lemma ping_workers_moves:
  "moves rops qops qlist qok hk st e (s, h) (snd (ping_workers e s)) (fst (ping_workers e s), h)"
  unfolding ping_workers_def fst_conv snd_conv
  by (rule tweak_moves) (auto simp: send_ping_core intro!: jobs_out_concat)

lemma worker_finished_job_moves:
  assumes "ready qok s"
  shows "reaches rops qops qlist qok hk True e s [] (worker_finished_job rops qops e who k s)"
proof (cases "hm_get (f_pool s) who")
  case None
  then show ?thesis
    using offer_work_moves [OF assms] by (simp add: worker_finished_job_def runs_reaches)
next
  case (Some w)
  obtain opts w1 es where wc: "worker_complete e k w = (opts, w1, es)" by (metis prod_cases3)
  let ?s1 = "s\<lparr>f_pool := hm_insert who w1 (f_pool s)\<rparr>"
  let ?es = "es @ (case opts of None \<Rightarrow> [] | Some opts \<Rightarrow> f_stat s (JobCompleted opts))"
  have m: "moves rops qops qlist qok hk st e (s, []) ?es (?s1, [])" for st
    using m_work [where s = s and h = "[]" and ev = "WorkerComplete k" and e = e, OF Some]
    by (intro moves_snoc [OF moves_1 m_quiet]) (auto simp: wc split: option.split)
  have "reaches rops qops qlist qok hk True e ?s1 [] (offer_work rops qops e who ?s1)"
    by (rule runs_reaches [OF offer_work_moves [OF moves_ready [OF m assms]]])
  moreover have "reaches rops qops qlist qok hk True e ?s1 [] (Inr (drop_worker who ?s1))" if "\<not> is_working w1"
  proof -
    have "move rops qops qlist qok hk True e (?s1, []) []
        (?s1\<lparr>f_pool := hm_remove who (f_pool ?s1), worker_by_actor := hm_remove (w_actor w1) (worker_by_actor ?s1)\<rparr>, [])"
      using that by (intro m_retire) (simp_all add: is_working_def)
    from moves_snoc [OF moves_1 [OF this] m_quiet [of "[CallActor StopActor (w_actor w1)]"]]
    show ?thesis by (simp add: drop_worker_def)
  qed
  ultimately show ?thesis
    unfolding worker_finished_job_def Some option.simps wc prod.case Let_def
    by (intro reaches_and_then) (use m in \<open>auto simp: moves_refl\<close>)
qed

lemma worker_pong_moves: "runs rops qops qlist qok hk e s [] (Inr (worker_pong i time s))"
proof (cases "hm_get (f_pool s) i")
  case None
  then show ?thesis by (simp add: worker_pong_def moves_refl)
next
  case (Some w)
  then show ?thesis
    using moves_1 [OF m_work [where s = s and ev = "PingReceived time l" and e = e for l, OF Some]]
    by (simp add: worker_pong_def case_prod_beta Let_def)
qed

lemma expire_queue_moves:
  "moves rops qops qlist qok hk st e (s, h) (snd (expire_queue rops qops c s)) (fst (expire_queue rops qops c s), h)"
proof -
  obtain n q es where q: "q_remove_expired_items qops c (f_discard_handler s) (f_queue s) = (n, q, es)"
    by (metis prod_cases3)
  show ?thesis
    using moves_snoc [OF moves_1 [OF m_expire [OF q]] m_quiet [of "f_stat s (JobTtlExpired n)"]]
    by (simp add: expire_queue_def q moves_refl)
qed

lemma spawn_worker_moves:
  "hm_get (f_pool s) i = None \<Longrightarrow> reaches rops qops qlist qok hk True e s [] (spawn_worker rops e i s)"
proof (cases "env_spawn e i")
  case (Inr a)
  assume "hm_get (f_pool s) i = None"
  from m_spawn [where s = s and e = e and h = "[]" and st = True, OF TrueI this Inr]
  have "moves rops qops qlist qok hk True e (s, []) (([] @ []) @ [SpawnWorker i a])
      (s\<lparr>f_pool := hm_insert i (worker_new (factory_name s) i a (worker_settings rops (f_router s) (f_discard_settings s))
          (f_discard_handler s) (f_stats s)) (f_pool s),
         worker_by_actor := hm_insert a i (worker_by_actor s),
         f_router := r_on_worker_availability_change rops i True (f_router s)\<rparr>, [])"
    by (intro moves_snoc [OF moves_snoc [OF moves_1 m_router] m_quiet]) auto
  with Inr show ?thesis by (simp add: spawn_worker_def Let_def)
qed (auto simp: spawn_worker_def)

lemma grow_one_moves: "reaches rops qops qlist qok hk True e s [] (grow_one rops e i s)"
proof (cases "hm_get (f_pool s) i")
  case None
  then show ?thesis by (simp add: grow_one_def spawn_worker_moves)
next
  case (Some w)
  let ?s1 = "s\<lparr>f_pool := hm_insert i (set_draining False w) (f_pool s)\<rparr>"
  have "moves rops qops qlist qok hk True e (s, []) [] (?s1, [])"
    using m_drain [OF TrueI Some] by (intro moves_1)
  moreover from moves_snoc [OF this m_router]
  have "moves rops qops qlist qok hk True e (s, []) [] (?s1\<lparr>f_router := r\<rparr>, [])" for r by simp
  ultimately show ?thesis using Some by (simp add: grow_one_def Let_def)
qed

lemma grow_all_moves: "reaches rops qops qlist qok hk True e s [] (grow_all rops e is s)"
  by (induction "is" arbitrary: s) (simp_all add: moves_refl reaches_and_then grow_one_moves)

lemma grow_pool_moves: "reaches rops qops qlist qok hk True e s [] (grow_pool rops e n s)"
  unfolding grow_pool_def
  by (rule reaches_and_then [OF grow_all_moves])
    (simp add: moves_refl reaches_def ping_workers_moves case_prod_beta split: option.split)

lemma shrink_one_moves:
  "moves rops qops qlist qok hk True e (s, h) (snd (shrink_one rops i s)) (fst (shrink_one rops i s), h)"
proof (cases "hm_get (f_pool s) i")
  case None
  then show ?thesis by (simp add: shrink_one_def moves_refl)
next
  case (Some w)
  have "moves rops qops qlist qok hk True e (s, h) (([] @ []) @ [CallActor StopActor (w_actor w)])
      (s\<lparr>f_router := r, f_pool := hm_remove i (f_pool s),
         worker_by_actor := hm_remove (w_actor w) (worker_by_actor s)\<rparr>, h)" if "is_available w" for r
    using m_retire [where s = "s\<lparr>f_router := r\<rparr>" and i = i and w = w] that Some
    by (intro moves_snoc [OF moves_snoc [OF moves_1 [OF m_router]] m_quiet]) auto
  with Some m_drain [OF TrueI Some] show ?thesis
    by (simp add: shrink_one_def moves_1 is_working_def)
qed

lemma shrink_all_moves:
  "moves rops qops qlist qok hk True e (s, h) (snd (shrink_all rops is s)) (fst (shrink_all rops is s), h)"
proof (induction "is" arbitrary: s)
  case (Cons i "is")
  from moves_trans [OF shrink_one_moves Cons.IH] show ?case by (simp add: case_prod_beta Let_def)
qed (simp add: moves_refl)

lemma route_many_moves:
  "ready qok s \<Longrightarrow> runs rops qops qlist qok hk e s [] (route_many rops qops e n s)"
proof (induction n arbitrary: s)
  case (Suc n)
  show ?case
    using Suc by (auto simp: moves_refl intro!: runs_and_then try_route_runs dest: moves_ready)
qed (simp add: moves_refl)

lemma moves_formed:
  assumes "moves rops qops qlist qok hk False e (s, h) es (s1, h1)" and "formed qok s"
  shows "formed qok s1"
proof -
  from moves_outline [OF assms(1)] assms(2) have "shaped (pool_size s1) (f_pool s1)"
    using outline_shaped [of "f_pool s1" "f_pool s"] by (simp add: formed_def)
  moreover from moves_queue_ok [OF assms(1)] assms(2) have "qok (f_queue s1)" by (simp add: formed_def)
  ultimately show ?thesis by (simp add: formed_def)
qed

lemma runs_sound:
  assumes "formed qok s" and "runs rops qops qlist qok hk e s h x"
  shows "sound rops qops qlist qok hk e s h x"
  using assms(2) moves_formed [OF _ assms(1)]
  by (auto simp: sound_def runs_reaches [OF assms(2)] elim!: runsE)

lemma formedD:
  assumes "formed qok s"
  shows "hm_wf (f_pool s)" and "covers (pool_size s) (f_pool s)" and "qok (f_queue s)"
    and "\<forall>i w. hm_get (f_pool s) i = Some w \<longrightarrow> wid w = i"
    and "hm_get (f_pool s) i = Some w \<Longrightarrow> is_draining w = (pool_size s \<le> i)"
  using assms by (auto simp: formed_def shaped_def)

lemma grow_pool_shaped:
  assumes "formed qok s" and "grow_pool rops e n s = Inr (s1, es)"
  shows "shaped (pool_size s + n) (f_pool s1) \<and> f_queue s1 = f_queue s"
proof -
  note f = formedD [OF assms(1)]
  obtain s2 es2 where g: "grow_all rops e [pool_size s..<pool_size s + n] s = Inr (s2, es2)"
    using assms(2) by (auto simp: grow_pool_def and_then_def split: sum.splits)
  have s1: "s1 = (case dead_mans_switch s2 of None \<Rightarrow> s2 | Some dmd \<Rightarrow> fst (ping_workers e s2))"
    using assms(2) by (auto simp: grow_pool_def and_then_def g split: option.splits prod.splits)
  have wf: "hm_wf (f_pool s2)" and q: "f_queue s2 = f_queue s"
    and same: "i < pool_size s \<or> pool_size s + n \<le> i \<Longrightarrow> hm_get (f_pool s2) i = hm_get (f_pool s) i"
    and new: "pool_size s \<le> i \<Longrightarrow> i < pool_size s + n \<Longrightarrow>
      \<exists>w. hm_get (f_pool s2) i = Some w \<and> wid w = i \<and> \<not> is_draining w" for i
    using grow_all_pool [OF g f(1,4)] by auto
  have "shaped (pool_size s + n) (f_pool s2)"
    unfolding shaped_def covers_def
  proof (intro conjI allI impI)
    fix i assume "i < pool_size s + n"
    with same [of i] new [of i] f(2) show "hm_contains (f_pool s2) i" unfolding covers_def
      by (cases "pool_size s \<le> i") auto
  next
    fix i w assume w: "hm_get (f_pool s2) i = Some w"
    show "wid w = i" and "is_draining w = (pool_size s + n \<le> i)"
      using same [of i] new [of i] f(4) [rule_format, of i w] f(5) [of i w] w
      by (cases "i < pool_size s \<or> pool_size s + n \<le> i"; auto)+
  qed (rule wf)
  then show ?thesis
    using q ping_workers_shaped [of "pool_size s + n" s2 e]
    by (cases "dead_mans_switch s2") (simp_all add: s1 ping_workers_def)
qed

lemma shrink_pool_shaped:
  assumes "formed qok s" and "n \<le> pool_size s"
  shows "shaped (pool_size s - n) (f_pool (fst (shrink_pool rops n s))) \<and>
    f_queue (fst (shrink_pool rops n s)) = f_queue s"
proof -
  note f = formedD [OF assms(1)]
  define s1 where "s1 = fst (shrink_pool rops n s)"
  have wf: "hm_wf (f_pool s1)" and q: "f_queue s1 = f_queue s"
    and same: "i < pool_size s - n \<or> pool_size s \<le> i \<Longrightarrow> hm_get (f_pool s1) i = hm_get (f_pool s) i"
    and gone: "pool_size s - n \<le> i \<Longrightarrow> i < pool_size s \<Longrightarrow> hm_get (f_pool s1) i = Some w \<Longrightarrow>
      wid w = i \<and> is_draining w" for i w
    using shrink_all_pool [OF f(1,4), of rops "[pool_size s - n..<pool_size s]"]
    by (auto simp: s1_def shrink_pool_def Let_def)
  have "shaped (pool_size s - n) (f_pool s1)"
    unfolding shaped_def covers_def
  proof (intro conjI allI impI)
    fix i assume "i < pool_size s - n"
    with same [of i] f(2) show "hm_contains (f_pool s1) i" unfolding covers_def by auto
  next
    fix i w assume w: "hm_get (f_pool s1) i = Some w"
    show "wid w = i" and "is_draining w = (pool_size s - n \<le> i)"
      using same [of i] gone [of i w] f(4) [rule_format, of i w] f(5) [of i w] w assms(2)
      by (cases "i < pool_size s - n \<or> pool_size s \<le> i"; auto)+
  qed (rule wf)
  with q show ?thesis by (simp add: s1_def)
qed

lemma resize_pool_sound:
  assumes "formed qok s"
  shows "sound rops qops qlist qok hk e s [] (resize_pool rops qops e n s)"
proof (cases "n = 0")
  case False
  define new where "new = min GLOBAL_WORKER_POOL_MAXIMUM n"
  define x where "x = (if new > pool_size s then grow_pool rops e (new - pool_size s) s
      else if new < pool_size s then Inr (shrink_pool rops (pool_size s - new) s) else Inr (s, []))"
  have r: "reaches rops qops qlist qok hk True e s [] x"
    using grow_pool_moves shrink_all_moves
    by (auto simp: x_def moves_refl shrink_pool_def reaches_def case_prod_beta)
  have f: "formed qok (s1\<lparr>pool_size := new\<rparr>)" if "x = Inr (s1, es)" for s1 es
    using that assms grow_pool_shaped [OF assms, of e "new - pool_size s" s1 es]
      shrink_pool_shaped [OF assms, of "pool_size s - new"]
    by (auto simp: x_def formed_def split: if_splits)
  define k where "k s1 = (let s2 = s1\<lparr>pool_size := new\<rparr>
      in if new > pool_size s then route_many rops qops e new s2 else Inr (s2, []))" for s1
  have k: "sound rops qops qlist qok hk e (s1\<lparr>pool_size := new\<rparr>) [] (k s1)" if "x = Inr (s1, es)" for s1 es
    using runs_sound [OF f [OF that] route_many_moves [OF formed_ready [OF f [OF that]]], of hk e new] f [OF that]
    by (auto simp: k_def sound_def moves_refl Let_def)
  have "reaches rops qops qlist qok hk True e s1 [] (k s1)" if "x = Inr (s1, es)" for s1 es
  proof -
    have m: "moves rops qops qlist qok hk True e (s1, []) [] (s1\<lparr>pool_size := new\<rparr>, [])"
      by (intro moves_1 m_fields) simp_all
    from k [OF that] reaches_first [OF m, of "k s1"] show ?thesis
      by (auto simp: sound_def and_then_def split: sum.splits)
  qed
  then have "sound rops qops qlist qok hk e s [] (and_then x k)"
    using k by (intro soundI reaches_and_then [OF r]) (auto simp: and_then_def sound_def split: sum.splits)
  moreover have "resize_pool rops qops e n s = and_then x k"
    unfolding resize_pool_def x_def k_def [abs_def] new_def Let_def using False by (simp only: if_False)
  ultimately show ?thesis by simp
qed (use assms in \<open>simp add: resize_pool_def sound_def moves_refl\<close>)

lemma fields_moves:
  assumes "f_pool s' = f_pool s" and "f_queue s' = f_queue s" and "f_router s' = f_router s"
    and "f_discard_handler s' = f_discard_handler s" and "worker_by_actor s' = worker_by_actor s"
    and "pool_size s' = pool_size s" and "jobs_out es = {#}"
    and "f_drain_state s' = f_drain_state s \<or> f_drain_state s' = Draining"
  shows "moves rops qops qlist qok hk st e (s, h) es (s', h)"
proof -
  have "move rops qops qlist qok hk st e (s, h) [] (s', h)" using assms by (intro m_fields) simp_all
  from moves_snoc [OF moves_1 [OF this] m_quiet [OF assms(7)]] show ?thesis by simp
qed

lemma reschedule_moves:
  "moves rops qops qlist qok hk st e (s, h) (snd (reschedule_dead_mans_check s)) (fst (reschedule_dead_mans_check s), h)"
  "moves rops qops qlist qok hk st e (s, h) (snd (cancel_dead_mans_check s)) (fst (cancel_dead_mans_check s), h)"
  using reschedule_fields [of s] by (auto intro!: fields_moves dest!: arg_cong [of _ _ fst])

lemma worker_finished_job_sound:
  assumes "formed qok s"
  shows "sound rops qops qlist qok hk e s [] (worker_finished_job rops qops e who k s)"
proof (rule soundI [OF worker_finished_job_moves [OF formed_ready [OF assms]]])
  fix s2 es2 assume r: "worker_finished_job rops qops e who k s = Inr (s2, es2)"
  have offer: "formed qok s2" if "formed qok s1" "offer_work rops qops e who s1 = Inr (s2, es)" for s1 es
    using runs_sound [OF that(1) offer_work_moves [OF formed_ready [OF that(1)]]] that(2) unfolding sound_def by blast
  show "formed qok s2"
  proof (cases "hm_get (f_pool s) who")
    case None
    with r show ?thesis using offer [OF assms] by (simp add: worker_finished_job_def)
  next
    case (Some w)
    define w1 where "w1 = fst (snd (worker_complete e k w))"
    define s1 where "s1 = s\<lparr>f_pool := hm_insert who w1 (f_pool s)\<rparr>"
    have w1: "wid w1 = wid w" "w_actor w1 = w_actor w" "is_draining w1 = is_draining w" by (simp_all add: w1_def)
    have "outline (f_pool s1) = outline (f_pool s)"
      using outline_insert [OF Some w1] by (simp add: s1_def)
    from outline_shaped [OF this] assms have f1: "formed qok s1" by (simp add: formed_def s1_def)
    have cases: "s2 = s1 \<or> s2 = fst (drop_worker who s1) \<and> is_draining w1 \<or> (\<exists>es. offer_work rops qops e who s1 = Inr (s2, es))"
      using r Some
      by (auto simp: worker_finished_job_def and_then_def case_prod_beta Let_def s1_def w1_def split: if_splits sum.splits)
    have "formed qok (fst (drop_worker who s1))" if "is_draining w1"
    proof -
      from that w1 formedD(5) [OF assms Some] have "pool_size s \<le> who" by simp
      with f1 show ?thesis
        using shaped_remove [of "pool_size s1" "f_pool s1" who]
        by (simp add: drop_worker_def formed_def s1_def)
    qed
    with cases offer [OF f1] f1 show ?thesis by blast
  qed
qed

lemma calculate_metrics_sound:
  assumes "formed qok s"
  shows "sound rops qops qlist qok hk e s [] (calculate_metrics rops qops e s)"
  unfolding calculate_metrics_def Let_def
proof (intro sound_and_then)
  show "sound rops qops qlist qok hk e s [] (Inr (s, f_stat s c))" for c
    using assms by (simp add: sound_def moves_1 m_quiet)
  show "sound rops qops qlist qok hk e s1 [] (if capacity_controller s1 \<and> pool_size s1 \<noteq> env_capacity e
      then resize_pool rops qops e (env_capacity e) s1 else Inr (s1, []))" if "formed qok s1" for s1
    using resize_pool_sound [OF that] that by (simp add: sound_def moves_refl)
next
  fix s1 :: "('r, 'q, 'k, 'm) factory" assume f1: "formed qok s1"
  let ?x = "expire_queue rops qops (env_clock e) s1"
  have "move rops qops qlist qok hk False e (s1, []) (record_metrics qops s1) (s1, [])"
    by (rule m_quiet) (simp add: record_metrics_def Let_def)
  from moves_snoc [OF moves_trans [OF moves_1 [OF this] expire_queue_moves [of hk False e s1 "[]" "env_clock e"]]
      m_quiet [of "[SendAfter CALCULATE_FREQUENCY ''Calculate'']"]]
  have "runs rops qops qlist qok hk e s1 [] (Inr (fst ?x,
      record_metrics qops s1 @ snd ?x @ [SendAfter CALCULATE_FREQUENCY ''Calculate'']))" by simp
  from runs_sound [OF f1 this]
  show "sound rops qops qlist qok hk e s1 [] (case ?x of (s2, es) \<Rightarrow>
      Inr (s2, record_metrics qops s1 @ es @ [SendAfter CALCULATE_FREQUENCY ''Calculate'']))"
    by (simp add: case_prod_beta)
qed

lemma send_pings_moves:
  "moves rops qops qlist qok hk st e (s, h) (snd (send_pings e when s)) (fst (send_pings e when s), h)"
proof -
  let ?s1 = "s\<lparr>f_discard_settings := with_limit (env_limit e) (f_discard_settings s)\<rparr>"
  have "moves rops qops qlist qok hk st e (s, h) (f_stat s (FactoryPingReceived when)) (?s1, h)"
    by (rule fields_moves) simp_all
  from moves_snoc [OF moves_trans [OF this ping_workers_moves] m_quiet [of "[SendAfter PING_FREQUENCY ''DoPings'']"]]
  show ?thesis by (simp add: send_pings_def case_prod_beta Let_def)
qed

lemma identify_stuck_workers_moves:
  "moves rops qops qlist qok hk st e (s, h) (snd (identify_stuck_workers e s)) (fst (identify_stuck_workers e s), h)"
proof -
  let ?s1 = "fst (cancel_dead_mans_check s)"
  note m1 = reschedule_moves(2) [where s = s and h = h and e = e]
  show ?thesis
  proof (cases "dead_mans_switch ?s1")
    case None
    with m1 show ?thesis by (simp add: identify_stuck_workers_def case_prod_beta Let_def)
  next
    case (Some dmd)
    let ?es = "concat (map (\<lambda>(i, w). fst (snd (scan_worker e dmd w))) (f_pool ?s1)) @
      concat (map (\<lambda>(i, w). snd (snd (scan_worker e dmd w))) (f_pool ?s1))"
    have "moves rops qops qlist qok hk st e (?s1, h) ?es
        (?s1\<lparr>f_pool := map (\<lambda>(i, w). (i, fst (scan_worker e dmd w))) (f_pool ?s1)\<rparr>, h)"
      by (rule tweak_moves) (auto simp: scan_worker_core intro!: jobs_out_concat)
    from moves_trans [OF m1 moves_trans [OF this reschedule_moves(1)]] Some show ?thesis
      by (simp add: identify_stuck_workers_def case_prod_unfold Let_def comp_def)
  qed
qed

lemma update_dead_mans_switch_moves:
  "moves rops qops qlist qok hk st e (s, h) (snd (update_dead_mans_switch e d s)) (fst (update_dead_mans_switch e d s), h)"
proof -
  let ?s1 = "s\<lparr>dead_mans_switch := d\<rparr>"
  let ?x = "case d of None \<Rightarrow> (?s1, []) | Some _ \<Rightarrow> ping_workers e ?s1"
  have "moves rops qops qlist qok hk st e (s, h) [] (?s1, h)" by (rule fields_moves) simp_all
  moreover have "moves rops qops qlist qok hk st e (?s1, h) (snd ?x) (fst ?x, h)"
    by (simp add: moves_refl ping_workers_moves split: option.split)
  ultimately have "moves rops qops qlist qok hk st e (s, h) ([] @ snd ?x) (fst ?x, h)" by (rule moves_trans)
  from moves_trans [OF this reschedule_moves(1)] show ?thesis
    by (simp add: update_dead_mans_switch_def case_prod_beta Let_def)
qed

lemma update_settings_sound:
  assumes "formed qok s" and "hk \<longrightarrow> honest (UpdateSettings u)"
  shows "sound rops qops qlist qok hk e s [] (update_settings rops qops e u s)"
proof -
  let ?m = "moves rops qops qlist qok hk False e"
  define s1 where "s1 = (case us_discard_handler u of None \<Rightarrow> s
    | Some dh \<Rightarrow> (set_workers (w_discard_handler_update (\<lambda>_. dh)) s)\<lparr>f_discard_handler := dh\<rparr>)"
  define s2 where "s2 = (case us_discard_settings u of None \<Rightarrow> s1
    | Some ds \<Rightarrow> (set_workers (w_discard_settings_update (\<lambda>_. worker_settings rops (f_router s1) ds)) s1)
                \<lparr>f_discard_settings := ds\<rparr>)"
  define x3 where "x3 = (case us_dead_mans_switch u of None \<Rightarrow> (s2, []) | Some d \<Rightarrow> update_dead_mans_switch e d s2)"
  define s4 where "s4 = (case us_capacity_controller u of None \<Rightarrow> fst x3 | Some c \<Rightarrow> (fst x3)\<lparr>capacity_controller := c\<rparr>)"
  define s5 where "s5 = (case us_lifecycle_hooks u of None \<Rightarrow> s4 | Some h \<Rightarrow> s4\<lparr>lifecycle_hooks := h\<rparr>)"
  define s6 where "s6 = (case us_stats u of None \<Rightarrow> s5 | Some st \<Rightarrow> s5\<lparr>f_stats := st\<rparr>)"
  have m1: "?m (s, []) [] (s1, [])"
    using assms(2) by (auto simp: s1_def moves_refl intro!: moves_1 m_handler split: option.split)
  have m2: "?m (s1, []) [] (s2, [])"
  proof (cases "us_discard_settings u")
    case (Some ds)
    let ?t = "set_workers (w_discard_settings_update (\<lambda>_. worker_settings rops (f_router s1) ds)) s1"
    have "?m (s1, []) [] (?t, [])" unfolding set_workers_def by (rule tweak_moves) (simp_all add: core_def)
    moreover have "?m (?t, []) [] (?t\<lparr>f_discard_settings := ds\<rparr>, [])" by (rule fields_moves) simp_all
    ultimately show ?thesis using moves_trans Some unfolding s2_def by fastforce
  qed (simp add: s2_def moves_refl)
  have m3: "?m (s2, []) (snd x3) (fst x3, [])"
    by (simp add: x3_def moves_refl update_dead_mans_switch_moves split: option.split)
  have m4: "?m (fst x3, []) [] (s6, [])"
    by (rule fields_moves) (simp_all add: s4_def s5_def s6_def split: option.split)
  from moves_trans [OF moves_trans [OF moves_trans [OF m1 m2] m3] m4]
  have "runs rops qops qlist qok hk e s [] (Inr (s6, snd x3))" by simp
  from runs_sound [OF assms(1) this]
  have "sound rops qops qlist qok hk e s [] (and_then (Inr (s6, snd x3))
      (\<lambda>s. case us_worker_count u of None \<Rightarrow> Inr (s, []) | Some n \<Rightarrow> resize_pool rops qops e n s))"
    by (rule sound_and_then) (auto simp: resize_pool_sound sound_return split: option.split)
  then show ?thesis
    unfolding update_settings_def Let_def case_prod_beta s6_def s5_def s4_def x3_def s2_def s1_def .
qed

lemma hook_sound: "formed qok s \<Longrightarrow> sound rops qops qlist qok hk e s [] (run_hook e call s)"
  by (simp add: run_hook_def sound_def moves_refl moves_1 m_quiet split: sum.split)

lemma drain_requests_sound:
  assumes "formed qok s"
  shows "sound rops qops qlist qok hk e s [] (drain_requests e s)"
proof -
  have "moves rops qops qlist qok hk False e (s, []) [] (s\<lparr>f_drain_state := Draining\<rparr>, [])"
    by (rule fields_moves) simp_all
  then have "sound rops qops qlist qok hk e s [] (Inr (s\<lparr>f_drain_state := Draining\<rparr>, []))"
    by (intro runs_sound [OF assms]) simp
  then have "sound rops qops qlist qok hk e s [] (and_then (Inr (s\<lparr>f_drain_state := Draining\<rparr>, [])) (run_hook e OnDraining))"
    by (rule sound_and_then) (rule hook_sound)
  moreover have "drain_requests e s = and_then (Inr (s\<lparr>f_drain_state := Draining\<rparr>, [])) (run_hook e OnDraining)"
    by (auto simp: drain_requests_def and_then_def split: sum.split)
  ultimately show ?thesis by simp
qed

lemma replace_worker_outline:
  "wid (fst (replace_worker e a w)) = wid w" "w_actor (fst (replace_worker e a w)) = a"
  "is_draining (fst (replace_worker e a w)) = is_draining w"
  by (simp_all add: replace_worker_def Let_def)

text \<open>A worker is restarted under the same number, given that the actor index is right about it.\<close>

lemma restart_worker_sound:
  assumes "formed qok s"
    and actor: "\<And>i w. hm_get (worker_by_actor s) who = Some i \<Longrightarrow> hm_get (f_pool s) i = Some w \<Longrightarrow> w_actor w = who"
  shows "sound rops qops qlist qok hk e s [] (restart_worker rops qops e who s)"
proof (cases "\<exists>i w a. hm_get (worker_by_actor s) who = Some i \<and> hm_get (f_pool s) i = Some w \<and> env_spawn e i = Inr a")
  case True
  then obtain i w a where w: "hm_get (worker_by_actor s) who = Some i" "hm_get (f_pool s) i = Some w" and a: "env_spawn e i = Inr a"
    by blast
  from formedD(4) [OF assms(1)] w(2) have i: "wid w = i" by blast
  have who: "w_actor w = who" using actor w by blast
  define w1 where "w1 = fst (replace_worker e a w)"
  define x2 where "x2 = (case dead_mans_switch s of None \<Rightarrow> (w1, []) | Some _ \<Rightarrow> send_factory_ping e w1)"
  let ?wba = "hm_insert a i (hm_remove who (worker_by_actor s))"
  let ?s0 = "s\<lparr>worker_by_actor := ?wba, f_pool := hm_insert i w1 (f_pool s)\<rparr>"
  define s1 where "s1 = s\<lparr>worker_by_actor := ?wba, f_pool := hm_insert i (fst x2) (f_pool s)\<rparr>"
  have s0: "?s0 = s\<lparr>f_pool := hm_insert i w1 (f_pool s), worker_by_actor := ?wba\<rparr>" by simp
  have "move rops qops qlist qok hk True e (s, []) [SpawnWorker i a] (s, [])" by (rule m_quiet) simp
  moreover have "move rops qops qlist qok hk True e (s, []) (snd (replace_worker e a w)) (?s0, [])"
    unfolding s0 using m_replace [where s = s and e = e and h = "[]", OF TrueI w(2) a] by (simp add: w1_def who)
  ultimately have m0: "moves rops qops qlist qok hk True e (s, []) ([SpawnWorker i a] @ snd (replace_worker e a w)) (?s0, [])"
    by (intro moves_snoc [OF moves_1])
  have "moves rops qops qlist qok hk True e (?s0, []) (snd x2) (s1, [])"
    using moves_1 [OF m_work [where s = ?s0 and i = i and w = w1 and ev = SendPing and e = e and h = "[]"]]
    by (cases "dead_mans_switch s") (simp_all add: x2_def s1_def moves_refl)
  note m1 = moves_trans [OF m0 this]
  have x2: "wid (fst x2) = i" "is_draining (fst x2) = is_draining w"
    using core_fields [OF send_ping_core(1) [of e w1]]
    by (simp_all add: x2_def w1_def replace_worker_outline i split: option.split)
  have f1: "formed qok s1"
    using assms(1) shaped_insert [of "pool_size s" "f_pool s" i w "fst x2"] w(2) x2 i
    by (simp add: formed_def s1_def)
  let ?es = "SpawnWorker i a # snd (replace_worker e a w) @ snd x2"
  have "sound rops qops qlist qok hk e s [] (and_then (Inr (s1, ?es)) (offer_work rops qops e i))"
  proof (rule sound_and_then)
    show "sound rops qops qlist qok hk e s [] (Inr (s1, ?es))" using m1 f1 by (simp add: sound_def)
  qed (use runs_sound offer_work_moves formed_ready in blast)
  moreover have "s1 = s\<lparr>f_pool := hm_insert i (fst x2) (f_pool s), worker_by_actor := ?wba\<rparr>" by (simp add: s1_def)
  then have "restart_worker rops qops e who s = and_then (Inr (s1, ?es)) (offer_work rops qops e i)"
    using w a x2(1)
    by (cases "dead_mans_switch s")
      (simp_all add: restart_worker_def i case_prod_beta Let_def w1_def x2_def)
  ultimately show ?thesis by simp
next
  case False
  with assms(1) formedD(4) [OF assms(1)] show ?thesis
    by (auto simp: restart_worker_def sound_return sound_def moves_refl split: option.split sum.split)
qed

lemma sound_pair:
  "formed qok s \<Longrightarrow> moves rops qops qlist qok hk False e (s, h) (snd x) (fst x, []) \<Longrightarrow>
   sound rops qops qlist qok hk e s h (Inr x)"
  by (cases x) (simp add: runs_sound)

lemma handle_message_sound:
  assumes "formed qok s" and "hk \<longrightarrow> honest msg"
  shows "sound rops qops qlist qok hk e s (arriving msg) (handle_message rops qops e msg s)"
proof (cases msg)
  case (Dispatch j)
  then show ?thesis
    using runs_sound [OF assms(1) dispatch_moves [OF formed_ready [OF assms(1)]]] by simp
next
  case (WorkerPong i t)
  then show ?thesis using runs_sound [OF assms(1) worker_pong_moves] by simp
next
  case (UpdateSettings u)
  then show ?thesis using update_settings_sound [OF assms(1), of hk u e] assms(2) by simp
next
  case (DoPings t)
  then show ?thesis using sound_pair [OF assms(1) send_pings_moves] by simp
next
  case IdentifyStuckWorkers
  then show ?thesis using sound_pair [OF assms(1) identify_stuck_workers_moves] by simp
qed (use assms(1) in \<open>simp_all add: worker_finished_job_sound calculate_metrics_sound resize_pool_sound
      drain_requests_sound sound_def [of _ _ _ _ _ _ _ _ "Inr (_, [ReplyCount _ _])"] moves_1 m_quiet\<close>)

lemma is_drained_cases:
  "is_drained qops s = (False, s) \<and> f_drain_state s \<noteq> Drained \<or> is_drained qops s = (True, s\<lparr>f_drain_state := Drained\<rparr>)"
  by (cases "f_drain_state s") (auto simp: is_drained_def)

lemma is_drained_sound:
  assumes "formed qok s"
  shows "sound rops qops qlist qok hk e s [] (let (b, s1) = is_drained qops s in Inr (s1, if b then [StopFactory] else []))"
  using is_drained_cases [of s]
proof (elim disjE conjE)
  assume d: "is_drained qops s = (True, s\<lparr>f_drain_state := Drained\<rparr>)"
  then have "move rops qops qlist qok hk False e (s, []) [] (s\<lparr>f_drain_state := Drained\<rparr>, [])" by (rule m_drained)
  from moves_snoc [OF moves_1 [OF this] m_quiet [of "[StopFactory]"]] d show ?thesis
    by (intro runs_sound [OF assms]) simp
qed (simp add: sound_return [OF assms])

lemma handle_sound:
  assumes "formed qok s" and "hk \<longrightarrow> honest msg"
  shows "sound rops qops qlist qok hk e s (arriving msg) (handle rops qops e msg s)"
  unfolding handle_def
  by (rule sound_and_then [OF handle_message_sound [OF assms] is_drained_sound])

lemma handle_supervisor_evt_sound:
  assumes "formed qok s"
    and actor: "\<And>who i w. hm_get (worker_by_actor s) who = Some i \<Longrightarrow> hm_get (f_pool s) i = Some w \<Longrightarrow> w_actor w = who"
  shows "sound rops qops qlist qok hk e s [] (handle_supervisor_evt rops qops e ev s)"
  using assms by (cases ev) (auto intro: restart_worker_sound sound_return)

end

interpretation queuer_factory: factory_parts queuer_ops default_queue_ops "\<lambda>q. q" "\<lambda>q. True"
  by unfold_locales

interpretation sticky_factory: factory_parts sticky_queuer_ops default_queue_ops "\<lambda>q. q" "\<lambda>q. True"
  by unfold_locales

interpretation key_persistent_factory: factory_parts key_persistent_ops "priority_queue_ops po"
    "\<lambda>pq. concat (pq_queues pq)" "pq_ok po" for po
  by unfold_locales

interpretation leaky_queuer_factory: factory_parts "rate_limited_ops queuer_ops leaky_bucket_ops"
    default_queue_ops "\<lambda>q. q" "\<lambda>q. True"
  by unfold_locales

end
