(* ===== verification/Factory_Facts.thy ===== *)
theory Factory_Facts
  imports Factory_Moves
begin

text \<open>
  What holds of a factory at every moment of its life, whatever messages, crashes, resizes and
  changes of settings it sees: the pool, the index of actors and the counters of its workers are
  consistent; no job is lost or duplicated; a drained factory is idle; with key-persistent
  routing no key is ever at two workers. Each is an invariant of the moves of \<open>Factory_Moves\<close>.
\<close>

section \<open>Runs\<close>

text \<open>Spawning never gives an actor id that is in use, nor the same id twice.\<close>

definition fresh :: "('k, 'm) env \<Rightarrow> ('r, 'q, 'k, 'm) factory \<Rightarrow> bool" where
  "fresh e s \<longleftrightarrow>
     (\<forall>i a. env_spawn e i = Inr a \<longrightarrow> hm_get (worker_by_actor s) a = None) \<and>
     (\<forall>i i' a. env_spawn e i = Inr a \<longrightarrow> env_spawn e i' = Inr a \<longrightarrow> i = i')"

text \<open>
  The life of a factory: \<open>pre_start\<close>, then messages and supervision events in any order. The
  jobs that arrived and the effects so far are recorded. The inputs of every handler satisfy \<open>E\<close>.
  With \<open>hk\<close>, the discard handlers leave keys and messages of jobs alone.
\<close>

inductive factory_run ::
    "('r, 'k, 'm) router_ops \<Rightarrow> ('q, 'k, 'm) queue_ops \<Rightarrow> (('k, 'm) env \<Rightarrow> bool) \<Rightarrow> bool \<Rightarrow>
     ('r, 'q, 'k, 'm) factory_arguments \<Rightarrow> ('k, 'm) job list \<Rightarrow> ('k, 'm) effect list \<Rightarrow> ('r, 'q, 'k, 'm) factory \<Rightarrow> bool"
  for rops qops E hk a where
  run_start: "factory_run rops qops E hk a [] es s"
    if "pre_start rops e name a = Inr (s, es)" "fresh e (initial_factory name a)"
      "hk \<longrightarrow> handler_keeps (fa_discard_handler a)" "E e"
| run_message: "factory_run rops qops E hk a (js @ arriving msg) (es @ es1) s1"
    if "factory_run rops qops E hk a js es s" "handle rops qops e msg s = Inr (s1, es1)" "fresh e s"
      "hk \<longrightarrow> honest msg" "E e"
| run_supervision: "factory_run rops qops E hk a js (es @ es1) s1"
    if "factory_run rops qops E hk a js es s" "handle_supervisor_evt rops qops e (ev :: unit supervision_event) s = Inr (s1, es1)"
      "fresh e s" "E e"

section \<open>Invariants of moves\<close>

text \<open>The index of actors names the workers of the pool.\<close>

definition indexed :: "('r, 'q, 'k, 'm) factory \<Rightarrow> bool" where
  "indexed s \<longleftrightarrow>
     (\<forall>b i. hm_get (worker_by_actor s) b = Some i \<longleftrightarrow> (\<exists>w. hm_get (f_pool s) i = Some w \<and> w_actor w = b))"

text \<open>During a handler: an id of the index is older than the handler or was spawned for its worker.\<close>

definition spawned_right :: "('k, 'm) env \<Rightarrow> ('r, 'q, 'k, 'm) factory \<Rightarrow> bool" where
  "spawned_right e s \<longleftrightarrow>
     (\<forall>b i i'. hm_get (worker_by_actor s) b = Some i \<longrightarrow> env_spawn e i' = Inr b \<longrightarrow> i' = i)"

lemma fresh_spawned_right: "fresh e s \<Longrightarrow> spawned_right e s"
  by (auto simp: fresh_def spawned_right_def)

lemma hm_get_map: "hm_get (map (\<lambda>(i, w). (i, g w)) p) i = map_option g (hm_get p i)"
  by (induction p) auto

lemma core_balanced: "core w' = core w \<Longrightarrow> balanced X w \<Longrightarrow> balanced X w'"
  by (subst balanced_cong [of w' w]) (auto dest: core_fields)

lemma balanced_handler [simp]: "balanced X (w\<lparr>w_discard_handler := dh\<rparr>) = balanced X w"
  by (rule balanced_cong) simp_all

lemma indexed_insert:
  assumes "indexed s" and "hm_get (f_pool s) i = Some w" and "w_actor w' = w_actor w"
    and "worker_by_actor s' = worker_by_actor s" and "f_pool s' = hm_insert i w' (f_pool s)"
  shows "indexed s'"
  using assms unfolding indexed_def by (auto split: if_splits)

text \<open>The jobs a factory holds: in its queue, in the queues of its workers, and in hand.\<close>

definition worker_jobs :: "('k, 'm) pool \<Rightarrow> ('k \<times> 'm) multiset" where
  "worker_jobs p = sum_list (map (\<lambda>w. tags (message_queue w)) (hm_values p))"

definition held :: "('q \<Rightarrow> ('k, 'm) job list) \<Rightarrow> ('r, 'q, 'k, 'm) factory \<Rightarrow> ('k \<times> 'm) multiset" where
  "held qlist s = tags (qlist (f_queue s)) + worker_jobs (f_pool s)"

lemma mset_exchange:
  fixes P Q :: "'a multiset"
  assumes "P + a = Q + b" and "b + J = T + a"
  shows "P + J = T + Q"
proof -
  have "P + J + a = (P + a) + J" by (simp add: ac_simps)
  also have "\<dots> = Q + (b + J)" by (simp only: assms(1) add.assoc)
  also have "\<dots> = Q + (T + a)" by (simp only: assms(2))
  also have "\<dots> = (T + Q) + a" by (simp add: ac_simps)
  finally show ?thesis by simp
qed

lemma mset_chain:
  fixes A B :: "'a multiset"
  assumes "A + X = B + C" and "B + Y = D"
  shows "A + (Y + X) = D + C"
proof -
  have "A + (Y + X) = (A + X) + Y" by (simp add: ac_simps)
  also have "\<dots> = (B + Y) + C" by (simp only: assms(1)) (simp add: ac_simps)
  finally show ?thesis by (simp only: assms(2))
qed

lemma worker_jobs_insert:
  assumes "hm_wf p" and "hm_get p i = Some w"
    and "tags (message_queue w') + J = T + tags (message_queue w)"
  shows "worker_jobs (hm_insert i w' p) + J = T + worker_jobs p"
  using hm_sum_insert [OF assms(1,2), of "\<lambda>w. tags (message_queue w)" w'] assms(3)
  unfolding worker_jobs_def by (rule mset_exchange)

lemma worker_jobs_map: "(\<And>w. message_queue (g w) = message_queue w) \<Longrightarrow> worker_jobs (map (\<lambda>(i, w). (i, g w)) p) = worker_jobs p"
  by (simp add: worker_jobs_def case_prod_beta comp_def)

text \<open>The discard handlers of the factory and of its workers leave key and message alone.\<close>

definition handlers_keep :: "('r, 'q, 'k, 'm) factory \<Rightarrow> bool" where
  "handlers_keep s \<longleftrightarrow> handler_keeps (f_discard_handler s) \<and>
     (\<forall>i w. hm_get (f_pool s) i = Some w \<longrightarrow> handler_keeps (w_discard_handler w))"

lemma indexed_unique:
  assumes "indexed s" and "hm_get (f_pool s) i = Some w" and "hm_get (f_pool s) i' = Some w'" and "w_actor w' = w_actor w"
  shows "i' = i"
  using assms unfolding indexed_def by (metis option.inject)

lemma indexed_retire:
  assumes "indexed s" and "hm_get (f_pool s) i = Some w"
  shows "indexed (s\<lparr>f_pool := hm_remove i (f_pool s), worker_by_actor := hm_remove (w_actor w) (worker_by_actor s)\<rparr>)"
proof -
  have get: "hm_get (worker_by_actor s) b = Some i' \<longleftrightarrow> (\<exists>w. hm_get (f_pool s) i' = Some w \<and> w_actor w = b)" for b i'
    using assms(1) unfolding indexed_def by blast
  have "b = w_actor w \<longleftrightarrow> i' = i" if "hm_get (f_pool s) i' = Some v" "w_actor v = b" for b i' v
    using that assms indexed_unique by fastforce
  then show ?thesis
    unfolding indexed_def using get by (fastforce simp: restrict_map_def split: if_splits)
qed

lemma indexed_replace:
  assumes "indexed s" and "hm_get (f_pool s) i = Some w" and "w_actor w' = a"
    and new: "\<And>i'. hm_get (worker_by_actor s) a = Some i' \<Longrightarrow> i' = i"
  shows "indexed (s\<lparr>f_pool := hm_insert i w' (f_pool s),
    worker_by_actor := hm_insert a i (hm_remove (w_actor w) (worker_by_actor s))\<rparr>)"
proof -
  have get: "hm_get (worker_by_actor s) b = Some i' \<longleftrightarrow> (\<exists>w. hm_get (f_pool s) i' = Some w \<and> w_actor w = b)" for b i'
    using assms(1) unfolding indexed_def by blast
  have old: "b = w_actor w \<longleftrightarrow> i' = i" if "hm_get (f_pool s) i' = Some v" "w_actor v = b" for b i' v
    using that assms(1,2) indexed_unique by fastforce
  have mine: "i' = i" if "hm_get (f_pool s) i' = Some v" "w_actor v = a" for i' v
    using that new get by blast
  have "(hm_get (hm_insert a i (hm_remove (w_actor w) (worker_by_actor s))) b = Some i') \<longleftrightarrow>
      (\<exists>v. hm_get (hm_insert i w' (f_pool s)) i' = Some v \<and> w_actor v = b)" for b i'
  proof (cases "b = a")
    case True
    then show ?thesis using assms(3) mine by auto
  next
    case b: False
    show ?thesis
    proof (cases "i' = i")
      case True
      with b get [of b i] assms(2,3) show ?thesis by (auto simp: restrict_map_def)
    next
      case False
      with b get [of b i'] old show ?thesis by (auto simp: restrict_map_def)
    qed
  qed
  then show ?thesis unfolding indexed_def by simp
qed

text \<open>Nothing queued and every worker free.\<close>

definition idle :: "('q \<Rightarrow> ('k, 'm) job list) \<Rightarrow> ('r, 'q, 'k, 'm) factory \<Rightarrow> bool" where
  "idle qlist s \<longleftrightarrow> qlist (f_queue s) = [] \<and> (\<forall>i w. hm_get (f_pool s) i = Some w \<longrightarrow> is_available w)"

lemma available_complete: "is_available w \<Longrightarrow> internal ev \<Longrightarrow> is_available (fst (worker_step e ev w))"
  by (cases ev) (auto simp: is_available_def worker_complete_def ping_received_def send_factory_ping_def Let_def
      split: send_outcome.split)

lemma available_replace: "is_available w \<Longrightarrow> is_available (fst (replace_worker e a w))"
  by (simp add: is_available_def replace_worker_def Let_def dispatch_next_def get_next_empty)

lemma available_new: "is_available (worker_new name i a ds dh st)"
  by (simp add: is_available_def worker_new_def)

lemma available_core: "core w' = core w \<Longrightarrow> is_available w' = is_available w"
  by (auto simp: is_available_def dest: core_fields)

context factory_parts
begin

lemma move_wf: "move rops qops qlist qok hk st e x es y \<Longrightarrow> hm_wf (f_pool (fst x)) \<Longrightarrow> hm_wf (f_pool (fst y))"
proof (erule move.cases, goal_cases)
  case (4 j s hint r p es h)
  then show ?case using route_cases [OF 4(5)] by (auto simp: routed_to_def)
qed (simp_all add: set_workers_def case_prod_beta comp_def)

lemma move_balanced:
  "move rops qops qlist qok hk st e x es y \<Longrightarrow>
   (\<And>i w. hm_get (f_pool (fst x)) i = Some w \<Longrightarrow> balanced {#} w) \<Longrightarrow>
   hm_get (f_pool (fst y)) i = Some w \<Longrightarrow> balanced {#} w"
proof (erule move.cases, goal_cases)
  case (4 j s hint r p es h)
  then show ?case
    using route_cases [OF 4(6)] by (auto simp: routed_to_def enqueue_job_balanced split: if_splits)
next
  case (9 s i w ev h)
  then show ?case by (auto simp: worker_step_balanced split: if_splits)
next
  case (10 g s h)
  then show ?case
    by (auto simp: hm_get_map) (metis core_balanced)
next
  case (11 dh s h)
  then show ?case
    by (auto simp: hm_get_map set_workers_def)
next
  case (12 s i a ds h)
  then show ?case by (auto simp: worker_new_balanced split: if_splits)
next
  case (13 s i w h)
  then show ?case by (auto simp: restrict_map_def split: if_splits)
next
  case (14 s i w h b)
  then show ?case
    using worker_step_balanced [of "{#}" w e "SetDraining b"] by (auto split: if_splits)
next
  case (15 s i w a h)
  then show ?case by (auto simp: replace_worker_balanced split: if_splits)
qed simp_all

lemma move_indexed:
  assumes "move rops qops qlist qok hk st e x es y" and "indexed (fst x)" and "spawned_right e (fst x)"
    and "\<And>i i' a. env_spawn e i = Inr a \<Longrightarrow> env_spawn e i' = Inr a \<Longrightarrow> i = i'"
  shows "indexed (fst y) \<and> spawned_right e (fst y)"
  using assms
proof (induction rule: move.induct)
  case (m_give j s hint r p es h)
  then show ?case
    using route_cases [OF m_give(1)] indexed_insert [of s _ _ _ "s\<lparr>f_router := r, f_pool := p\<rparr>"]
    by (auto simp: routed_to_def spawned_right_def)
next
  case (m_work s i w ev h)
  then show ?case
    using indexed_insert [of s i w "fst (worker_step e ev w)" "s\<lparr>f_pool := hm_insert i (fst (worker_step e ev w)) (f_pool s)\<rparr>"]
    by (auto simp: worker_step_internal spawned_right_def)
next
  case (m_tweak g s h)
  have "w_actor (g w) = w_actor w" for w using core_fields [of "g w" w] m_tweak(1) by blast
  with m_tweak show ?case by (auto simp: indexed_def hm_get_map spawned_right_def)
next
  case (m_handler dh s h)
  then show ?case by (auto simp: indexed_def hm_get_map spawned_right_def set_workers_def)
next
  case (m_spawn s i a ds h)
  have "hm_get (worker_by_actor s) a = None"
    using m_spawn(2-5) unfolding indexed_def spawned_right_def fst_conv
    by (metis not_None_eq option.distinct(1))
  moreover from this have "w_actor w \<noteq> a" if "hm_get (f_pool s) i' = Some w" for i' w
    using m_spawn(4) that unfolding indexed_def fst_conv by (metis option.distinct(1))
  ultimately show ?case
    using m_spawn by (auto simp: indexed_def spawned_right_def worker_new_def split: if_splits)
next
  case (m_retire s i w h)
  then show ?case using indexed_retire [of s i w]
    by (auto simp: spawned_right_def restrict_map_def split: if_splits)
next
  case (m_drain s i w h b)
  then show ?case
    using indexed_insert [of s i w "set_draining b w" "s\<lparr>f_pool := hm_insert i (set_draining b w) (f_pool s)\<rparr>"]
    by (auto simp: set_draining_def spawned_right_def)
next
  case (m_replace s i w a h)
  have "i' = i" if "hm_get (worker_by_actor s) a = Some i'" for i'
    using m_replace(3,5) that by (auto simp: spawned_right_def)
  with m_replace indexed_replace [where s = s and i = i and w = w and a = a and w' = "fst (replace_worker e a w)"] show ?case
    by (auto simp: spawned_right_def restrict_map_def replace_worker_outline split: if_splits)
next
  case (m_fields s' s h)
  then show ?case by (simp add: indexed_def spawned_right_def)
qed (simp_all add: indexed_def spawned_right_def)

lemma move_handlers:
  assumes "move rops qops qlist qok True st e x es y" and "handlers_keep (fst x)"
  shows "handlers_keep (fst y)"
  using assms
proof (induction rule: move.induct)
  case (m_give j s hint r p es h)
  then show ?case
    using route_cases [OF m_give(1)] by (auto simp: routed_to_def handlers_keep_def split: if_splits)
next
  case (m_handler dh s h)
  then show ?case by (auto simp: handlers_keep_def hm_get_map set_workers_def)
next
  case (m_tweak g s h)
  then show ?case by (auto simp: handlers_keep_def hm_get_map)
next
  case (m_replace s i w a h)
  then show ?case by (auto simp: handlers_keep_def replace_worker_def Let_def split: if_splits)
qed (auto simp: handlers_keep_def worker_new_def set_draining_def restrict_map_def split: if_splits)

lemma move_held:
  assumes "move rops qops qlist qok True st e x es y" and "handlers_keep (fst x)" and "hm_wf (f_pool (fst x))"
  shows "held qlist (fst y) + tags (snd y) + jobs_out es = held qlist (fst x) + tags (snd x)"
  using assms
proof (induction rule: move.induct)
  case (m_put j s q h)
  then show ?case using push_tags [OF m_put(1)] by (simp add: held_def)
next
  case (m_expire c s n q es h)
  from remove_expired [OF m_expire(1)] m_expire(2)
  have "qlist q = filter (\<lambda>j. \<not> is_expired c j) (qlist (f_queue s))" "jobs_out es = tags (filter (is_expired c) (qlist (f_queue s)))"
    by (auto simp: handlers_keep_def)
  moreover have "tags (filter (\<lambda>j. \<not> P j) js) + tags (filter P js) = tags js" for P and js :: "('k, 'm) job list"
    by (induction js) auto
  ultimately show ?case by (simp add: held_def ac_simps)
next
  case (m_give j s hint r p es h)
  then obtain i w where g: "hm_get (f_pool s) i = Some w" "p = hm_insert i (fst (enqueue_job e j w)) (f_pool s)"
      "es = snd (enqueue_job e j w)"
    using route_cases [OF m_give(1)] by (auto simp: routed_to_def)
  with m_give(2) have "handler_keeps (w_discard_handler w)" by (auto simp: handlers_keep_def)
  from worker_step_jobs [OF this, of e "EnqueueJob j"]
  have "tags (message_queue (fst (enqueue_job e j w))) + jobs_out (snd (enqueue_job e j w)) = {#tag j#} + tags (message_queue w)"
    by simp
  from worker_jobs_insert [OF _ g(1) this] m_give(3) show ?case by (simp add: held_def g(2,3) ac_simps)
next
  case (m_work s i w ev h)
  then have k: "handler_keeps (w_discard_handler w)" by (auto simp: handlers_keep_def)
  from m_work(2) have "submitted_by ev = []" by (cases ev) simp_all
  with worker_step_jobs [OF k, of e ev]
  have "tags (message_queue (fst (worker_step e ev w))) + jobs_out (snd (worker_step e ev w)) = {#} + tags (message_queue w)"
    by simp
  from worker_jobs_insert [OF _ m_work(1) this] m_work(4) show ?case by (simp add: held_def ac_simps)
next
  case (m_tweak g s h)
  have "message_queue (g w) = message_queue w" for w using core_fields [of "g w" w] m_tweak(1) by blast
  then show ?case by (simp add: held_def worker_jobs_map)
next
  case (m_handler dh s h)
  then show ?case by (simp add: held_def worker_jobs_map set_workers_def)
next
  case (m_spawn s i a ds h)
  then show ?case by (simp add: held_def worker_jobs_def hm_insert_new worker_new_def)
next
  case (m_retire s i w h)
  then have "tags (message_queue w) = {#}" by (simp add: is_available_def)
  with hm_sum_remove [of "f_pool s" i w "\<lambda>w. tags (message_queue w)"] m_retire show ?case
    by (simp add: held_def worker_jobs_def)
next
  case (m_drain s i w h b)
  have "tags (message_queue (set_draining b w)) + {#} = {#} + tags (message_queue w)" by (simp add: set_draining_def)
  from worker_jobs_insert [OF _ m_drain(2) this] m_drain(4) show ?case by (simp add: held_def)
next
  case (m_replace s i w a h)
  then have k: "handler_keeps (w_discard_handler w)" by (auto simp: handlers_keep_def)
  have "tags (message_queue (fst (replace_worker e a w))) + jobs_out (snd (replace_worker e a w)) = {#} + tags (message_queue w)"
    using worker_step_jobs [OF k, of e "ReplaceWorker a"] by simp
  from worker_jobs_insert [OF _ m_replace(2) this] m_replace(5) show ?case by (simp add: held_def ac_simps)
qed (auto simp: held_def handlers_keep_def)

lemma move_idle:
  assumes "move rops qops qlist qok hk st e x es y" and "idle qlist (fst x)" and "snd x = []"
  shows "idle qlist (fst y) \<and> snd y = []"
  using assms
proof (induction rule: move.induct)
  case (m_expire c s n q es h)
  then show ?case using remove_expired [OF m_expire(1)] by (simp add: idle_def)
next
  case (m_tweak g s h)
  then have "is_available (g w) = is_available w" for w using available_core by blast
  with m_tweak show ?case by (auto simp: idle_def hm_get_map)
next
  case (m_handler dh s h)
  then show ?case by (auto simp: idle_def hm_get_map set_workers_def is_available_def)
next
  case (m_drain s i w h b)
  then show ?case by (auto simp: idle_def set_draining_def is_available_def split: if_splits)
qed (auto simp: idle_def available_complete available_replace available_new restrict_map_def split: if_splits)

lemma move_drained:
  assumes "move rops qops qlist qok hk st e x es y"
    and "f_drain_state (fst x) = Drained \<longrightarrow> idle qlist (fst x) \<and> snd x = []"
  shows "f_drain_state (fst y) = Drained \<longrightarrow> idle qlist (fst y) \<and> snd y = []"
proof (cases "f_drain_state (fst x) = Drained")
  case True
  then show ?thesis using move_idle [OF assms(1)] assms(2) by simp
next
  case False
  with assms(1) show ?thesis
  proof (induction rule: move.induct)
    case (m_drained s)
    then have "list_all is_available (hm_values (f_pool s))" "q_len qops (f_queue s) = 0"
      by (auto simp: is_drained_def split: drain_state.splits if_splits)
    then show ?case
      by (auto simp: idle_def len_qlist list_all_iff dest!: map_of_SomeD)
  qed (auto simp: set_workers_def)
qed

lemma moves_not_draining:
  "moves rops qops qlist qok hk st e x es y \<Longrightarrow> f_drain_state (fst x) \<noteq> NotDraining \<Longrightarrow>
   f_drain_state (fst y) \<noteq> NotDraining"
proof (erule moves_invariant)
  fix x es y
  show "move rops qops qlist qok hk st e x es y \<Longrightarrow> f_drain_state (fst x) \<noteq> NotDraining \<Longrightarrow>
    f_drain_state (fst y) \<noteq> NotDraining"
    by (erule move.cases) (auto simp: set_workers_def)
qed

lemma dispatch_draining:
  assumes "f_drain_state s \<noteq> NotDraining"
  obtains es where "dispatch rops qops e j s = Inr (s, es)"
    "handler_keeps (f_discard_handler s) \<Longrightarrow> jobs_out es = {#tag j#}"
proof -
  let ?j = "set_factory_time (env_clock e) j"
  show thesis
    using that [of "f_stat s NewJob @ (if is_expired (env_clock e) ?j
        then f_stat s (JobTtlExpired 1) @ discard_reject s TtlExpired ?j else discard_reject s Shutdown ?j)"] assms
    by (cases "f_drain_state s") (auto simp: dispatch_def Let_def and_then_def split: if_splits)
qed

text \<open>The invariant of a factory, between two handlers.\<close>

end

definition factory_inv :: "('q \<Rightarrow> ('k, 'm) job list) \<Rightarrow> ('q \<Rightarrow> bool) \<Rightarrow> ('r, 'q, 'k, 'm) factory \<Rightarrow> bool" where
  "factory_inv qlist qok s \<longleftrightarrow> formed qok s \<and> indexed s \<and>
     (\<forall>i w. hm_get (f_pool s) i = Some w \<longrightarrow> balanced {#} w) \<and>
     (f_drain_state s = Drained \<longrightarrow> idle qlist s)"

context factory_parts
begin

lemma moves_facts:
  assumes "moves rops qops qlist qok hk st e (s, h) es (s1, h1)"
  shows moves_wf: "hm_wf (f_pool s) \<Longrightarrow> hm_wf (f_pool s1)"
    and moves_balanced: "\<forall>i w. hm_get (f_pool s) i = Some w \<longrightarrow> balanced {#} w \<Longrightarrow>
      \<forall>i w. hm_get (f_pool s1) i = Some w \<longrightarrow> balanced {#} w"
    and moves_drained: "f_drain_state s = Drained \<longrightarrow> idle qlist s \<and> h = [] \<Longrightarrow>
      f_drain_state s1 = Drained \<longrightarrow> idle qlist s1 \<and> h1 = []"
    and moves_indexed: "indexed s \<Longrightarrow> fresh e s \<Longrightarrow> indexed s1"
proof -
  show "hm_wf (f_pool s1)" if "hm_wf (f_pool s)"
    using moves_invariant [OF assms, of "\<lambda>x. hm_wf (f_pool (fst x))"] move_wf that by auto
  show "\<forall>i w. hm_get (f_pool s1) i = Some w \<longrightarrow> balanced {#} w"
    if "\<forall>i w. hm_get (f_pool s) i = Some w \<longrightarrow> balanced {#} w"
  proof (rule moves_invariant [OF assms, of "\<lambda>x. \<forall>i w. hm_get (f_pool (fst x)) i = Some w \<longrightarrow> balanced {#} w", simplified])
    show "\<forall>i w. hm_get (f_pool s) i = Some w \<longrightarrow> balanced {#} w" by (rule that)
  qed (use move_balanced in fastforce)
  show "f_drain_state s1 = Drained \<longrightarrow> idle qlist s1 \<and> h1 = []"
    if "f_drain_state s = Drained \<longrightarrow> idle qlist s \<and> h = []"
    using moves_invariant [OF assms, of "\<lambda>x. f_drain_state (fst x) = Drained \<longrightarrow> idle qlist (fst x) \<and> snd x = []"]
      move_drained that by fastforce
  show "indexed s1" if "indexed s" "fresh e s"
  proof -
    have "indexed (fst (s1, h1)) \<and> spawned_right e (fst (s1, h1))"
      by (rule moves_invariant [OF assms, of "\<lambda>x. indexed (fst x) \<and> spawned_right e (fst x)"])
        (use that fresh_spawned_right move_indexed in \<open>auto simp: fresh_def\<close>)
    then show ?thesis by simp
  qed
qed

lemma moves_held:
  assumes "moves rops qops qlist qok True st e x es y" and "handlers_keep (fst x)" and "hm_wf (f_pool (fst x))"
  shows "held qlist (fst y) + tags (snd y) + jobs_out es = held qlist (fst x) + tags (snd x) \<and> handlers_keep (fst y)"
  using assms
proof (induction rule: moves.induct)
  case (moves_step x es y es' z)
  have m: "held qlist (fst y) + tags (snd y) + jobs_out es = held qlist (fst x) + tags (snd x)"
    using move_held [OF moves_step(1,4,5)] .
  have ih: "held qlist (fst z) + tags (snd z) + jobs_out es' = held qlist (fst y) + tags (snd y)"
      "handlers_keep (fst z)"
    using moves_step(3) move_handlers [OF moves_step(1,4)] move_wf [OF moves_step(1,5)] by blast+
  have "held qlist (fst z) + tags (snd z) + jobs_out (es @ es') =
      (held qlist (fst z) + tags (snd z) + jobs_out es') + jobs_out es" by (simp add: ac_simps)
  also have "\<dots> = held qlist (fst x) + tags (snd x)" by (simp only: ih m)
  finally show ?case using ih(2) by simp
qed simp

lemma sound_inv:
  assumes "sound rops qops qlist qok hk e s h (Inr (s1, es))" and "factory_inv qlist qok s" and "fresh e s"
    and "f_drain_state s = Drained \<longrightarrow> h = []"
  shows "factory_inv qlist qok s1"
proof -
  from assms(1) have m: "moves rops qops qlist qok hk True e (s, h) es (s1, [])" and f: "formed qok s1"
    by (auto simp: sound_def)
  from assms(2) have "indexed s" "\<forall>i w. hm_get (f_pool s) i = Some w \<longrightarrow> balanced {#} w"
    "f_drain_state s = Drained \<longrightarrow> idle qlist s \<and> h = []"
    using assms(4) by (auto simp: factory_inv_def)
  with f moves_balanced [OF m] moves_drained [OF m] moves_indexed [OF m _ assms(3)] show ?thesis
    by (simp add: factory_inv_def)
qed

lemma handle_inv:
  assumes "handle rops qops e msg s = Inr (s1, es)" and "factory_inv qlist qok s" and "fresh e s"
  shows "factory_inv qlist qok s1"
proof (cases "f_drain_state s = Drained \<and> arriving msg \<noteq> []")
  case True
  then obtain j where j: "msg = Dispatch j" by (cases msg) auto
  from True obtain es2 where "dispatch rops qops e j s = Inr (s, es2)"
    using dispatch_draining [of s e j] by (metis drain_state.distinct(3))
  with assms(1) True j have "s1 = s"
    by (auto simp: handle_def and_then_def is_drained_def)
  with assms(2) show ?thesis by simp
next
  case False
  from assms(2) have "formed qok s" by (simp add: factory_inv_def)
  from handle_sound [OF this, of False msg e] assms False show ?thesis
    using sound_inv [of False e s "arriving msg" s1 es] by auto
qed

lemma supervision_inv:
  assumes "handle_supervisor_evt rops qops e ev s = Inr (s1, es)" and "factory_inv qlist qok s" and "fresh e s"
  shows "factory_inv qlist qok s1"
proof -
  from assms(2) have "formed qok s" and ix: "indexed s" by (auto simp: factory_inv_def)
  then have "sound rops qops qlist qok False e s [] (handle_supervisor_evt rops qops e ev s)"
    by (intro handle_supervisor_evt_sound) (auto simp: indexed_def)
  with assms show ?thesis using sound_inv by auto
qed

lemma spawn_all_grow_all:
  "distinct is \<Longrightarrow> \<forall>i\<in>set is. hm_get (f_pool s) i = None \<Longrightarrow> spawn_all rops e is s = grow_all rops e is s"
proof (induction "is" arbitrary: s)
  case (Cons i "is")
  have "spawn_all rops e is s1 = grow_all rops e is s1" if "spawn_worker rops e i s = Inr (s1, es)" for s1 es
    using Cons that by (intro Cons.IH) (auto simp: spawn_worker_def Let_def split: sum.splits)
  with Cons.prems show ?case
    by (auto simp: grow_one_def and_then_def split: sum.split)
qed simp

lemma start_sound:
  assumes "qok (fa_queue a)"
  shows "sound rops qops qlist qok hk e (initial_factory name a) [] (pre_start rops e name a)"
proof -
  let ?n = "fa_num_initial_workers a" and ?s0 = "initial_factory name a"
  have g: "spawn_all rops e [0..<?n] ?s0 = grow_all rops e [0..<?n] ?s0"
    by (rule spawn_all_grow_all) (simp_all add: initial_factory_def)
  have "sound rops qops qlist qok hk e ?s0 [] (spawn_all rops e [0..<?n] ?s0)"
  proof (rule soundI)
    show "reaches rops qops qlist qok hk True e ?s0 [] (spawn_all rops e [0..<?n] ?s0)"
      unfolding g by (rule grow_all_moves)
    fix s1 es assume "spawn_all rops e [0..<?n] ?s0 = Inr (s1, es)"
    then have s1: "grow_all rops e [0..<?n] ?s0 = Inr (s1, es)" by (simp add: g)
    have s0: "hm_wf (f_pool ?s0)" "\<forall>i w. hm_get (f_pool ?s0) i = Some w \<longrightarrow> wid w = i"
      "pool_size ?s0 = ?n" "f_pool ?s0 = []" "f_queue ?s0 = fa_queue a" by (simp_all add: initial_factory_def)
    note p = grow_all_pool [OF s1 s0(1,2), unfolded s0(3-5)]
    have "shaped ?n (f_pool s1)"
      unfolding shaped_def
    proof (intro conjI allI impI)
      show "hm_wf (f_pool s1)" using p by blast
      show "covers ?n (f_pool s1)" unfolding covers_def using p by fastforce
      fix i w assume w: "hm_get (f_pool s1) i = Some w"
      then have i: "i \<in> set [0..<?n]" using p by (metis map_of.simps(1) option.distinct(1))
      then obtain v where "hm_get (f_pool s1) i = Some v" "wid v = i" "\<not> is_draining v" using p by blast
      with w i show "wid w = i" and "is_draining w = (?n \<le> i)" by simp_all
    qed
    with p assms show "formed qok s1" by (simp add: formed_def)
  qed
  then show ?thesis
    unfolding pre_start_def
  proof (rule sound_and_then)
    fix s :: "('r, 'q, 'k, 'm) factory"
    assume f: "formed qok s"
    define x where "x = (case dead_mans_switch s of None \<Rightarrow> (s, []) | Some _ \<Rightarrow> ping_workers e s)"
    let ?es = "[SendAfter PING_FREQUENCY ''DoPings'', SendAfter CALCULATE_FREQUENCY ''Calculate'']"
    have m: "moves rops qops qlist qok hk False e (s, []) (snd x) (fst x, [])"
      by (simp add: x_def moves_refl ping_workers_moves split: option.split)
    have fin: "moves rops qops qlist qok hk False e (fst x, []) (?es @ es) ((fst x)\<lparr>dead_mans_check := b\<rparr>, [])"
      if "jobs_out es = {#}" for b es
      using that by (intro fields_moves) simp_all
    note runs = moves_trans [OF m fin]
    show "sound rops qops qlist qok hk e s [] (let (s1, es) = x; es1 = ?es in
        case dead_mans_switch s1 of None \<Rightarrow> Inr (s1\<lparr>dead_mans_check := False\<rparr>, es @ es1)
        | Some dmd \<Rightarrow> Inr (s1\<lparr>dead_mans_check := True\<rparr>, es @ es1 @ [SendAfter (detection_timeout dmd) ''IdentifyStuckWorkers'']))"
      using runs [of "[]" False] runs [of "[SendAfter t ''IdentifyStuckWorkers'']" True for t]
      by (intro runs_sound [OF f]) (auto simp: case_prod_beta Let_def split: option.split)
  qed
qed

lemma initial_inv:
  "indexed (initial_factory name a)" "\<forall>i w. hm_get (f_pool (initial_factory name a)) i = Some w \<longrightarrow> balanced {#} w"
  "f_drain_state (initial_factory name a) = NotDraining" "hm_wf (f_pool (initial_factory name a))"
  by (simp_all add: initial_factory_def indexed_def)

lemma start_inv:
  assumes "pre_start rops e name a = Inr (s, es)" and "fresh e (initial_factory name a)" and "qok (fa_queue a)"
  shows "factory_inv qlist qok s"
proof -
  from start_sound [OF assms(3), of False e name] assms(1)
  have m: "moves rops qops qlist qok False True e (initial_factory name a, []) es (s, [])" and f: "formed qok s"
    by (auto simp: sound_def)
  show ?thesis
    using f moves_indexed [OF m initial_inv(1) assms(2)] moves_balanced [OF m initial_inv(2)] moves_drained [OF m] initial_inv(3) [of name a]
    by (simp add: factory_inv_def)
qed

lemma run_inv:
  assumes "factory_run rops qops E hk a js es s" and "qok (fa_queue a)"
  shows "factory_inv qlist qok s"
  using assms
proof (induction rule: factory_run.induct)
  case (run_start e name s es)
  then show ?case by (blast intro: start_inv)
next
  case (run_message js es s e msg s1 es1)
  then show ?case by (blast intro: handle_inv)
next
  case (run_supervision js es s e ev s1 es1)
  then show ?case by (blast intro: supervision_inv)
qed

lemma sound_held:
  assumes "sound rops qops qlist qok True e s h (Inr (s1, es))" and "handlers_keep s" and "hm_wf (f_pool s)"
  shows "held qlist s1 + jobs_out es = held qlist s + tags h \<and> handlers_keep s1"
  using moves_held [of True e "(s, h)" es "(s1, [])"] assms by (simp add: sound_def)

lemma run_held:
  assumes "factory_run rops qops E True a js es s" and "qok (fa_queue a)"
  shows "held qlist s + jobs_out es = tags (qlist (fa_queue a)) + tags js \<and> handlers_keep s"
  using assms
proof (induction rule: factory_run.induct)
  case (run_start e name s es)
  have "handlers_keep (initial_factory name a)"
    using run_start(3) by (simp add: handlers_keep_def initial_factory_def)
  from sound_held [OF _ this initial_inv(4)] start_sound [OF run_start(5), of True e name] run_start(1)
  have "held qlist s + jobs_out es = held qlist (initial_factory name a) + tags [] \<and> handlers_keep s" by simp
  then show ?case by (simp add: held_def worker_jobs_def initial_factory_def)
next
  case (run_message js es s e msg s1 es1)
  have inv: "formed qok s" using run_inv [OF run_message(1,7)] by (simp add: factory_inv_def)
  have "held qlist s1 + jobs_out es1 = held qlist s + tags (arriving msg) \<and> handlers_keep s1"
    using handle_sound [OF inv, of True msg e] run_message formedD(1) [OF inv] by (intro sound_held) auto
  with mset_chain [of "held qlist s1" "jobs_out es1" "held qlist s" "tags (arriving msg)" "jobs_out es"] run_message
  show ?case by (simp add: add.assoc)
next
  case (run_supervision js es s e ev s1 es1)
  have inv: "factory_inv qlist qok s" using run_inv [OF run_supervision(1,6)] .
  then have f: "formed qok s" and ix: "indexed s" by (auto simp: factory_inv_def)
  have "sound rops qops qlist qok True e s [] (handle_supervisor_evt rops qops e ev s)"
    using f ix by (intro handle_supervisor_evt_sound) (auto simp: indexed_def)
  then have "held qlist s1 + jobs_out es1 = held qlist s + tags [] \<and> handlers_keep s1"
    using run_supervision formedD(1) [OF f] by (intro sound_held) auto
  with mset_chain [of "held qlist s1" "jobs_out es1" "held qlist s" "{#}" "jobs_out es"] run_supervision
  show ?case by simp
qed

lemma handle_errors:
  assumes "factory_inv qlist qok s" and "handle rops qops e msg s = Inl err"
  shows "\<exists>m. err = ProcessingErr m \<and> (env_hook e = Inl m \<or> (\<exists>i. env_spawn e i = Inl m))"
proof -
  from assms(1) have "sound rops qops qlist qok False e s (arriving msg) (handle rops qops e msg s)"
    by (intro handle_sound) (simp_all add: factory_inv_def)
  with assms(2) show ?thesis by (cases err) (auto simp: sound_def)
qed

lemma draining_step:
  assumes "factory_inv qlist qok s" and "handlers_keep s" and "honest msg" and "f_drain_state s \<noteq> NotDraining"
    and "handle rops qops e msg s = Inr (s1, es)"
  shows "f_drain_state s1 \<noteq> NotDraining \<and> held qlist s1 \<subseteq># held qlist s \<and> handlers_keep s1"
proof (cases "\<exists>j. msg = Dispatch j")
  case True
  then obtain j where j: "msg = Dispatch j" by blast
  obtain es2 where "dispatch rops qops e j s = Inr (s, es2)" using dispatch_draining [OF assms(4), of e j] by metis
  with assms(5) j have "s1 = snd (is_drained qops s)"
    by (auto simp: handle_def and_then_def case_prod_beta)
  then have "s1 = s \<or> s1 = s\<lparr>f_drain_state := Drained\<rparr>" using is_drained_cases [of s] by auto
  with assms(2,4) show ?thesis by (auto simp: held_def handlers_keep_def)
next
  case False
  then have h: "arriving msg = []" by (cases msg) auto
  from assms(1) have f: "formed qok s" by (simp add: factory_inv_def)
  have so: "sound rops qops qlist qok True e s [] (Inr (s1, es))"
    using handle_sound [OF f, of True msg e] assms h by simp
  from sound_held [OF this assms(2) formedD(1) [OF f]]
  have "held qlist s1 + jobs_out es = held qlist s" and k: "handlers_keep s1" by simp_all
  then have "held qlist s1 \<subseteq># held qlist s" by (metis mset_subset_eq_add_left)
  moreover have "f_drain_state s1 \<noteq> NotDraining"
    using moves_not_draining [of True True e "(s, [])" es "(s1, [])"] so assms(4) by (auto simp: sound_def)
  ultimately show ?thesis using k by simp
qed

text \<open>An invariant of moves over well-formed pools is an invariant of runs.\<close>

lemma run_invariant:
  assumes "factory_run rops qops E hk a js es s" and "qok (fa_queue a)" and init: "\<And>name. P (initial_factory name a)"
    and step: "\<And>e x es y. E e \<Longrightarrow> move rops qops qlist qok hk True e x es y \<Longrightarrow> hm_wf (f_pool (fst x)) \<Longrightarrow>
      (\<And>i w. hm_get (f_pool (fst x)) i = Some w \<Longrightarrow> balanced {#} w) \<Longrightarrow> P (fst x) \<Longrightarrow> P (fst y)"
  shows "P s"
proof -
  have lift: "P s1" if "E e" "sound rops qops qlist qok hk e s h (Inr (s1, es))" "hm_wf (f_pool s)"
      "\<And>i w. hm_get (f_pool s) i = Some w \<Longrightarrow> balanced {#} w" "P s" for e s h s1 es
  proof -
    define Q where "Q x \<longleftrightarrow> P (fst x) \<and> hm_wf (f_pool (fst x)) \<and>
      (\<forall>i w. hm_get (f_pool (fst x)) i = Some w \<longrightarrow> balanced {#} w)"
      for x :: "('r, 'q, 'k, 'm) factory \<times> ('k, 'm) job list"
    have Q: "Q y" if m: "move rops qops qlist qok hk True e x es y" and x: "Q x" for x es y
    proof -
      have "P (fst y)" by (rule step [OF \<open>E e\<close> m]) (use x Q_def in blast)+
      moreover have "hm_wf (f_pool (fst y))" by (rule move_wf [OF m]) (use x Q_def in blast)
      moreover have "balanced {#} w" if "hm_get (f_pool (fst y)) i = Some w" for i w
        by (rule move_balanced [OF m _ that]) (use x Q_def in blast)
      ultimately show ?thesis unfolding Q_def by blast
    qed
    from that(2) have "moves rops qops qlist qok hk True e (s, h) es (s1, [])" by (simp add: sound_def)
    then have "Q (s1, [])"
      by (rule moves_invariant [where P = Q]) (use that Q in \<open>auto simp: Q_def\<close>)
    then show ?thesis by (simp add: Q_def)
  qed
  have inv: "formed qok s" "indexed s" "\<And>i w. hm_get (f_pool s) i = Some w \<Longrightarrow> balanced {#} w"
    if "factory_run rops qops E hk a js es s" for js es s
    using run_inv [OF that assms(2)] by (simp_all add: factory_inv_def)
  show ?thesis
    using assms(1)
  proof (induction rule: factory_run.induct)
    case (run_start e name s es)
    show ?case
      by (rule lift [OF run_start(4) start_sound [OF assms(2), of hk e name, unfolded run_start(1)]])
        (use initial_inv(2,4) [of _ a] init in auto)
  next
    case (run_message js es s e msg s1 es1)
    note f = inv [OF run_message(1)]
    show ?case
      by (rule lift [OF run_message(5) handle_sound [OF f(1) run_message(4), of e, unfolded run_message(2)]])
        (use f formedD(1) [OF f(1)] run_message(6) in auto)
  next
    case (run_supervision js es s e ev s1 es1)
    note f = inv [OF run_supervision(1)]
    have "sound rops qops qlist qok hk e s [] (handle_supervisor_evt rops qops e ev s)"
      using f by (intro handle_supervisor_evt_sound) (auto simp: indexed_def)
    from lift [OF run_supervision(4) this [unfolded run_supervision(2)] formedD(1) [OF f(1)] f(3) run_supervision(5)]
    show ?case .
  qed
qed

end

section \<open>Keys\<close>

lemma pool_pending_map:
  "(\<And>w. pending_key_counts (g w) = pending_key_counts w) \<Longrightarrow>
   pool_pending (map (\<lambda>(i, w). (i, g w)) p) i k = pool_pending p i k"
  by (cases "hm_get p i") (simp_all add: pool_pending_def hm_get_map pending_def)

lemma worker_step_pending: "internal ev \<Longrightarrow> pending (fst (worker_step e ev w)) k \<le> pending w k"
proof (cases ev)
  case (PingReceived t l)
  then show ?thesis by (simp add: ping_received_def pending_def)
next
  case SendPing
  then show ?thesis by (simp add: send_factory_ping_def pending_def Let_def split: send_outcome.split)
qed (simp_all add: worker_complete_pending)

text \<open>All moves but handing a job to a worker keep keys apart, whatever the router.\<close>

lemma move_key_exclusive:
  assumes "move rops qops qlist qok hk st e x es y" and "key_exclusive (f_pool (fst x))"
    and give: "\<And>j n hint r r1 p es. r_route_message rops e j n hint (f_pool (fst x)) r = Inr (Handled, r1, p, es) \<Longrightarrow>
      key_exclusive p"
  shows "key_exclusive (f_pool (fst y))"
  using assms
proof (induction rule: move.induct)
  case (m_give j s hint r p es h)
  from m_give(1) m_give(3) show ?case by auto
next
  case (m_work s i w ev h)
  then show ?case using key_exclusive_update [OF _ m_work(1) worker_step_pending] by simp
next
  case (m_tweak g s h)
  have "pending_key_counts (g w) = pending_key_counts w" for w using core_fields [of "g w" w] m_tweak(1) by blast
  then show ?case using m_tweak(3) by (auto simp: pool_pending_map intro: key_exclusive_le [of "f_pool s"])
next
  case (m_handler dh s h)
  then show ?case
    by (auto simp: set_workers_def pool_pending_map intro: key_exclusive_le [of "f_pool s"])
next
  case (m_spawn s i a ds h)
  then show ?case
    using key_exclusive_new [of "f_pool s"] by (simp add: worker_new_def pending_def)
next
  case (m_retire s i w h)
  then show ?case by (simp add: key_exclusive_remove)
next
  case (m_drain s i w h b)
  then show ?case
    using key_exclusive_update [of "f_pool s" i w "set_draining b w"] by (simp add: set_draining_def pending_def)
next
  case (m_replace s i w a h)
  then show ?case using key_exclusive_update [OF _ m_replace(2) replace_worker_pending] by simp
qed simp_all

lemma route_via_routed:
  assumes "route_via pick e j n hint p r = Inr (Handled, r1, p1, es)"
  obtains i w where "pick e j n hint p r = (Some i, r1)" "hm_get p i = Some w"
    "p1 = hm_insert i (fst (enqueue_job e j w)) p"
  using assms
  by (cases "pick e j n hint p r") (auto simp: route_via_def case_prod_beta split: option.splits)

lemma kp_run_exclusive:
  assumes "job_queue qops qlist qok" and "factory_run key_persistent_ops qops E hk a js es s" and "qok (fa_queue a)"
  shows "key_exclusive (f_pool s)"
proof (rule factory_parts.run_invariant [OF factory_parts.intro [OF key_persistent.router_axioms assms(1)] assms(2,3),
      where P = "\<lambda>s. key_exclusive (f_pool s)"])
  show "key_exclusive (f_pool (initial_factory name a))" for name
    by (simp add: initial_factory_def key_exclusive_def pool_pending_def)
  fix e x es y
  assume m: "move key_persistent_ops qops qlist qok hk True e x es y" and wf: "hm_wf (f_pool (fst x))"
    and bal: "\<And>i w. hm_get (f_pool (fst x)) i = Some w \<Longrightarrow> balanced {#} w" and k: "key_exclusive (f_pool (fst x))"
  show "key_exclusive (f_pool (fst y))"
  proof (rule move_key_exclusive [OF m k])
    fix j n hint r r1 p es
    assume "r_route_message key_persistent_ops e j n hint (f_pool (fst x)) r = Inr (Handled, r1, p, es)"
    then have "route_via kp_choose_target_worker e j n hint (f_pool (fst x)) r = Inr (Handled, r1, p, es)"
      by (simp add: key_persistent_ops_def)
    then obtain i w where "kp_choose_target_worker e j n hint (f_pool (fst x)) r = (Some i, r1)"
        "hm_get (f_pool (fst x)) i = Some w" "p = hm_insert i (fst (enqueue_job e j w)) (f_pool (fst x))"
      by (rule route_via_routed)
    with kp_owner [OF this(1) k wf] bal key_exclusive_enqueue [OF k] show "key_exclusive p"
      by (auto simp: balanced_def)
  qed
qed

definition sticky_pool :: "('k, 'm) pool \<Rightarrow> bool" where
  "sticky_pool p \<longleftrightarrow> key_exclusive p \<and> (\<forall>i w. hm_get p i = Some w \<longrightarrow> work_conserving w \<and> one_key w)"

lemma sticky_pool_insert:
  "sticky_pool p \<Longrightarrow> key_exclusive (hm_insert i w p) \<Longrightarrow> work_conserving w \<Longrightarrow> one_key w \<Longrightarrow>
   sticky_pool (hm_insert i w p)"
  by (auto simp: sticky_pool_def split: if_splits)

lemma sticky_give:
  assumes "route_via sticky_choose_target_worker e j n hint p r = Inr (Handled, r1, p1, es)" and "delivers e"
    and "hm_wf p" and "\<And>i w. hm_get p i = Some w \<Longrightarrow> balanced {#} w" and "sticky_pool p"
  shows "sticky_pool p1"
proof -
  obtain i w where g: "sticky_choose_target_worker e j n hint p r = (Some i, r1)" "hm_get p i = Some w"
      "p1 = hm_insert i (fst (enqueue_job e j w)) p" using assms(1) by (rule route_via_routed)
  have st: "sticky_worker w" if "hm_get p i = Some w" for i w
    using assms(4,5) that by (auto simp: sticky_worker_def sticky_pool_def)
  from sticky_owner [OF g(1) _ assms(3) st] assms(5) g(2)
  have o: "owns_key p i (job_key j)" "(\<forall>k. pending w k = 0) \<or> pending w (job_key j) \<noteq> 0"
    by (auto simp: sticky_pool_def)
  have w: "work_conserving w" "one_key w" using assms(5) g(2) by (auto simp: sticky_pool_def)
  show ?thesis
    unfolding g(3)
  proof (rule sticky_pool_insert [OF assms(5)])
    show "key_exclusive (hm_insert i (fst (enqueue_job e j w)) p)"
      using assms(5) g(2) o(1) by (intro key_exclusive_enqueue) (auto simp: sticky_pool_def)
    show "work_conserving (fst (enqueue_job e j w))"
      using worker_step_work_conserving [OF assms(2) w(1), of "EnqueueJob j"] by simp
    show "one_key (fst (enqueue_job e j w))" by (rule one_key_enqueue [OF w(2) o(2)])
  qed
qed

lemma one_key_cong: "pending_key_counts w' = pending_key_counts w \<Longrightarrow> one_key w' = one_key w"
  by (simp add: one_key_def pending_def)

lemma sticky_move:
  assumes "move sticky_queuer_ops qops qlist qok hk st e x es y" and "delivers e" and "hm_wf (f_pool (fst x))"
    and bal: "\<And>i w. hm_get (f_pool (fst x)) i = Some w \<Longrightarrow> balanced {#} w" and "sticky_pool (f_pool (fst x))"
  shows "sticky_pool (f_pool (fst y))"
proof -
  have "key_exclusive (f_pool (fst y))"
  proof (rule move_key_exclusive [OF assms(1)])
    show "key_exclusive (f_pool (fst x))" using assms(5) by (simp add: sticky_pool_def)
    show "key_exclusive p" if "r_route_message sticky_queuer_ops e j n hint (f_pool (fst x)) r = Inr (Handled, r1, p, es)"
      for j n hint r r1 p es
      using sticky_give [OF _ assms(2-5)] that by (auto simp: sticky_queuer_ops_def sticky_pool_def)
  qed
  moreover have "\<forall>i w. hm_get (f_pool (fst y)) i = Some w \<longrightarrow> work_conserving w \<and> one_key w"
    using assms
  proof (induction rule: move.induct)
    case (m_give j s hint r p es h)
    then show ?case
      using sticky_give [of e j "pool_size s" hint "f_pool s" "f_router s" r p es]
      by (auto simp: sticky_queuer_ops_def sticky_pool_def)
  next
    case (m_work s i w ev h)
    have "one_key w" "work_conserving w" using m_work(1,6) by (auto simp: sticky_pool_def)
    then have "one_key (fst (worker_step e ev w)) \<and> work_conserving (fst (worker_step e ev w))"
      using one_key_le [OF _ worker_step_pending [OF m_work(2)]] worker_step_work_conserving [OF m_work(3)] by blast
    with m_work show ?case by (auto simp: sticky_pool_def split: if_splits)
  next
    case (m_tweak g s h)
    have "work_conserving (g w) = work_conserving w \<and> one_key (g w) = one_key w" for w
      using core_fields [of "g w" w] m_tweak(1) one_key_cong [of "g w" w] by (auto simp: work_conserving_def)
    with m_tweak show ?case by (auto simp: sticky_pool_def hm_get_map)
  next
    case (m_handler dh s h)
    then show ?case
      by (auto simp: sticky_pool_def hm_get_map set_workers_def work_conserving_def one_key_def pending_def)
  next
    case (m_spawn s i a ds h)
    then show ?case
      by (auto simp: sticky_pool_def worker_new_def work_conserving_def one_key_def pending_def split: if_splits)
  next
    case (m_retire s i w h)
    then show ?case by (auto simp: sticky_pool_def restrict_map_def split: if_splits)
  next
    case (m_drain s i w h b)
    have "one_key (set_draining b w) = one_key w" by (rule one_key_cong) (simp add: set_draining_def)
    with m_drain show ?case
      by (auto simp: sticky_pool_def set_draining_def work_conserving_def split: if_splits)
  next
    case (m_replace s i w a h)
    have "one_key w" "work_conserving w" using m_replace(2,7) by (auto simp: sticky_pool_def)
    then have "one_key (fst (replace_worker e a w)) \<and> work_conserving (fst (replace_worker e a w))"
      using one_key_le [OF _ replace_worker_pending] worker_step_work_conserving [OF m_replace(4), of w "ReplaceWorker a"]
      by auto
    with m_replace show ?case by (auto simp: sticky_pool_def split: if_splits)
  qed (auto simp: sticky_pool_def)
  ultimately show ?thesis by (simp add: sticky_pool_def)
qed

lemma sticky_run:
  assumes "job_queue qops qlist qok" and "factory_run sticky_queuer_ops qops delivers hk a js es s" and "qok (fa_queue a)"
  shows "sticky_pool (f_pool s)"
proof (rule factory_parts.run_invariant [OF factory_parts.intro [OF sticky_queuer.router_axioms assms(1)] assms(2,3),
      where P = "\<lambda>s. sticky_pool (f_pool s)"])
  show "sticky_pool (f_pool (initial_factory name a))" for name
    by (simp add: initial_factory_def sticky_pool_def key_exclusive_def pool_pending_def)
qed (rule sticky_move)

end
