(* ===== verification/Factory_Properties.thy ===== *)
theory Factory_Properties
  imports Factory_Facts
begin

text \<open>
  The correctness properties of the factory, for every router and every queue that meet their
  contracts, and the properties of particular routers.
\<close>

section \<open>Bounds\<close>

context factory_parts
begin

lemma move_length:
  "move rops qops qlist qok hk st e x es y \<Longrightarrow>
   length (qlist (f_queue (fst y))) + length (snd y) \<le> length (qlist (f_queue (fst x))) + length (snd x)"
proof (erule move.cases, goal_cases)
  case (2 j s q h)
  then show ?case using push_length [of j "f_queue s" q] by simp
next
  case (3 c s n q es h)
  then show ?case using remove_expired [OF 3(4)] length_filter_le [of _ "qlist (f_queue s)"] by simp
qed (simp_all add: set_workers_def)

lemma moves_length:
  "moves rops qops qlist qok hk st e x es y \<Longrightarrow>
   length (qlist (f_queue (fst y))) + length (snd y) \<le> length (qlist (f_queue (fst x))) + length (snd x)"
  by (induction rule: moves.induct) (auto dest: move_length)

lemma maybe_enqueue_length:
  fixes s :: "('r, 'q, 'k, 'm) factory"
  assumes "get_limit_and_mode (f_discard_settings s) = Some (limit, mode)"
    and "mode = Newest \<longrightarrow> q_is_job_discardable qops (f_queue s) (job_key j)"
    and "length (qlist (f_queue s)) \<le> limit" and "qok (f_queue s)" and "maybe_enqueue qops j s = Inr (s1, es)"
  shows "length (qlist (f_queue s1)) \<le> limit"
proof -
  obtain q es2 where p: "push_accepted qops j s = Inr (s\<lparr>f_queue := q\<rparr>, es2)"
      "length (qlist q) = Suc (length (qlist (f_queue s)))"
    using push_accepted_moves [OF assms(4), of j] by metis
  show ?thesis
  proof (cases mode)
    case Oldest
    with assms(1,5) p(1) have "s1 = fst (shed_queue qops limit (q_len qops q) (s\<lparr>f_queue := q\<rparr>))"
      by (auto simp: maybe_enqueue_def and_then_def case_prod_beta)
    then show ?thesis using shed_queue_length [of "s\<lparr>f_queue := q\<rparr>" "q_len qops q" limit] by (simp add: len_qlist)
  next
    case Newest
    with assms p show ?thesis by (auto simp: maybe_enqueue_def len_qlist split: if_splits)
  qed
qed

lemma handle_length:
  assumes "factory_inv qlist qok s" and "handle rops qops e msg s = Inr (s1, es)"
    and "get_limit_and_mode (f_discard_settings s) = Some (limit, mode)"
    and "mode = Newest \<longrightarrow> (\<forall>k. q_is_job_discardable qops (f_queue s) k)"
    and "length (qlist (f_queue s)) \<le> limit"
  shows "length (qlist (f_queue s1)) \<le> limit"
proof (cases "\<exists>j. msg = Dispatch j")
  case True
  then obtain j where j: "msg = Dispatch j" by blast
  from assms(1) have f: "formed qok s" by (simp add: factory_inv_def)
  obtain s2 es2 where d: "dispatch rops qops e j s = Inr (s2, es2)"
    using dispatch_moves [OF formed_ready [OF f]] by (rule runsE)
  have "f_queue s1 = f_queue s2" using assms(2) j d is_drained_cases [of s2]
    by (auto simp: handle_def and_then_def)
  moreover have "length (qlist (f_queue s2)) \<le> limit"
  proof -
    let ?j = "set_factory_time (env_clock e) j"
    obtain res r1 p1 es1 where r: "r_route_message rops e ?j (pool_size s) None (f_pool s) (f_router s) = Inr (res, r1, p1, es1)"
      using route_total by (metis prod_cases4)
    have "f_queue s2 = f_queue s \<or> (\<exists>j1 es3. res = Backlog j1 \<and> maybe_enqueue qops j1 (s\<lparr>f_router := r1, f_pool := p1\<rparr>) = Inr (s2, es3))"
      using d r by (auto simp: dispatch_def and_then_def Let_def split: if_splits route_result.splits sum.splits)
    then show ?thesis
    proof (elim disjE exE conjE)
      fix j1 es3
      assume "maybe_enqueue qops j1 (s\<lparr>f_router := r1, f_pool := p1\<rparr>) = Inr (s2, es3)"
      from maybe_enqueue_length [OF _ _ _ _ this] assms f show ?thesis by (simp add: formed_def)
    qed (use assms(5) in simp)
  qed
  ultimately show ?thesis by simp
next
  case False
  then have "arriving msg = []" by (cases msg) auto
  with handle_sound [of s False msg e] assms(1,2)
  have "moves rops qops qlist qok False True e (s, []) es (s1, [])" by (simp add: factory_inv_def sound_def)
  from moves_length [OF this] assms(5) show ?thesis by simp
qed

end

section \<open>Totality\<close>

context factory_parts
begin

lemma handle_after:
  "handle_message rops qops e msg s = Inr y \<Longrightarrow> \<exists>x. handle rops qops e msg s = Inr x"
  by (cases y) (auto simp: handle_def and_then_def case_prod_beta Let_def)

lemma worker_finished_total:
  assumes "ready qok s"
  shows "\<exists>x. worker_finished_job rops qops e who k s = Inr x"
proof -
  have offer: "\<exists>x. offer_work rops qops e who s1 = Inr x" if "ready qok s1" for s1
    using offer_work_moves [OF that] by (rule runsE) blast
  show ?thesis
  proof (cases "hm_get (f_pool s) who")
    case None
    with offer [OF assms] show ?thesis by (simp add: worker_finished_job_def)
  next
    case (Some w)
    let ?s1 = "s\<lparr>f_pool := hm_insert who (fst (snd (worker_complete e k w))) (f_pool s)\<rparr>"
    have "ready qok ?s1" using assms by (simp add: ready_def covers_def)
    from offer [OF this] Some show ?thesis
      by (auto simp: worker_finished_job_def and_then_def case_prod_beta Let_def)
  qed
qed

lemma handle_total:
  assumes "ready qok s"
  shows "(\<exists>x. handle rops qops e (Dispatch j) s = Inr x) \<and> (\<exists>x. handle rops qops e (Finished i k) s = Inr x)"
proof
  obtain y where "dispatch rops qops e j s = Inr y" using dispatch_moves [OF assms] by (rule runsE) blast
  then show "\<exists>x. handle rops qops e (Dispatch j) s = Inr x" by (intro handle_after) simp
  obtain y where "worker_finished_job rops qops e i k s = Inr y" using worker_finished_total [OF assms] by blast
  then show "\<exists>x. handle rops qops e (Finished i k) s = Inr x" by (intro handle_after) simp
qed

end

lemma idle_held:
  fixes s :: "('r, 'q, 'k, 'm) factory"
  assumes "idle qlist s" and "hm_wf (f_pool s)"
  shows "held qlist s = {#} \<and> num_active_workers s = 0"
proof -
  have av: "is_available w" if "w \<in> set (hm_values (f_pool s))" for w
    using assms that hm_values_in [OF assms(2), of w] unfolding idle_def by blast
  have "(\<forall>w\<in>set ws. is_available w) \<Longrightarrow> sum_list (map (\<lambda>w. tags (message_queue w)) ws) = {#}"
    for ws :: "('k, 'm) worker list"
    by (induction ws) (auto simp: is_available_def)
  with av have "worker_jobs (f_pool s) = {#}" unfolding worker_jobs_def by blast
  with assms(1) av show ?thesis
    by (simp add: idle_def held_def num_active_workers_def is_working_def filter_empty_conv)
qed

section \<open>A life to apply the properties to\<close>

text \<open>Workers can be spawned at the start, with distinct ids, and not later.\<close>

definition ex_start :: "(nat, nat) env" where
  "ex_start = ex_env\<lparr>env_spawn := (\<lambda>i. if i < 3 then Inr (Local (of_nat i)) else Inl ''none'')\<rparr>"

definition ex_later :: "(nat, nat) env" where
  "ex_later = ex_env\<lparr>env_spawn := (\<lambda>i. Inl ''none'')\<rparr>"

definition ex_args :: "'r \<Rightarrow> discard_settings \<Rightarrow> ('r, (nat, nat) default_queue, nat, nat) factory_arguments" where
  "ex_args r ds =
     \<lparr>fa_num_initial_workers = 2, fa_router = r, fa_queue = [], fa_discard_handler = None,
      fa_discard_settings = ds, fa_dead_mans_switch = None, fa_capacity_controller = False,
      fa_lifecycle_hooks = False, fa_stats = None\<rparr>"

primrec play ::
    "('r, nat, nat) router_ops \<Rightarrow> ('q, nat, nat) queue_ops \<Rightarrow> (nat, nat) factory_message list \<Rightarrow>
     ('r, 'q, nat, nat) factory \<Rightarrow> (('r, 'q, nat, nat) factory, nat, nat) outcome" where
  "play rops qops [] s = Inr (s, [])"
| "play rops qops (msg # msgs) s = and_then (handle rops qops ex_later msg s) (play rops qops msgs)"

definition ex_life ::
    "('r, nat, nat) router_ops \<Rightarrow> ('q, nat, nat) queue_ops \<Rightarrow> ('r, 'q, nat, nat) factory_arguments \<Rightarrow>
     (nat, nat) factory_message list \<Rightarrow> (('r, 'q, nat, nat) factory, nat, nat) outcome" where
  "ex_life rops qops a msgs = and_then (pre_start rops ex_start None a) (play rops qops msgs)"

lemma ex_fresh: "fresh ex_start (initial_factory name a)" "fresh ex_later s"
proof -
  have "i = i'" if "(of_nat i :: u64) = of_nat i'" "i < 3" "i' < 3" for i i' :: nat
    using that by (auto simp: numeral_3_eq_3 less_Suc_eq)
  then show "fresh ex_start (initial_factory name a)"
    by (auto simp: fresh_def ex_start_def initial_factory_def split: if_splits)
qed (simp add: fresh_def ex_later_def)

lemma and_then_Inr_eq:
  "and_then x f = Inr (s, es) \<longleftrightarrow> (\<exists>s1 es1 es2. x = Inr (s1, es1) \<and> f s1 = Inr (s, es2) \<and> es = es1 @ es2)"
  by (auto simp: and_then_def split: sum.split)

lemma play_run:
  "factory_run rops qops E True a js es s \<Longrightarrow> E ex_later \<Longrightarrow> list_all honest msgs \<Longrightarrow>
   play rops qops msgs s = Inr (s1, es1) \<Longrightarrow>
   factory_run rops qops E True a (js @ concat (map arriving msgs)) (es @ es1) s1"
proof (induction msgs arbitrary: js es s es1)
  case (Cons msg msgs)
  then obtain s2 es2 es3 where h: "handle rops qops ex_later msg s = Inr (s2, es2)"
      "play rops qops msgs s2 = Inr (s1, es3)" "es1 = es2 @ es3"
    by (auto simp: and_then_Inr_eq)
  have "factory_run rops qops E True a (js @ arriving msg) (es @ es2) s2"
    using Cons.prems h by (intro run_message [OF Cons.prems(1) h(1) ex_fresh(2)]) auto
  from Cons.IH [OF this] Cons.prems h show ?case by simp
qed simp

lemma ex_life_run:
  assumes "ex_life rops qops a msgs = Inr (s, es)" and "list_all honest msgs"
    and "handler_keeps (fa_discard_handler a)" and "E ex_start" and "E ex_later"
  shows "factory_run rops qops E True a (concat (map arriving msgs)) es s"
proof -
  obtain s1 es1 es2 where p: "pre_start rops ex_start None a = Inr (s1, es1)" "play rops qops msgs s1 = Inr (s, es2)"
      "es = es1 @ es2" using assms(1) by (auto simp: ex_life_def and_then_Inr_eq)
  have "factory_run rops qops E True a [] es1 s1"
    using assms by (intro run_start [OF p(1) ex_fresh(1)]) auto
  from play_run [OF this assms(5,2) p(2)] p(3) show ?thesis by simp
qed

definition ex_msgs :: "(nat, nat) factory_message list" where
  "ex_msgs = [Dispatch (ex_job 1), Dispatch (ex_job 2), Dispatch (ex_job 3), Dispatch (ex_job 4), Finished 0 1]"

lemmas factory_eval =
  ex_life_def pre_start_def and_then_def ex_args_def initial_factory_def spawn_worker_def ex_start_def
  ex_later_def ex_env_def Let_def worker_settings_def queuer_ops_def sticky_queuer_ops_def key_persistent_ops_def
  queuer_on_worker_availability_change_def queuer_default_def worker_new_def handle_def dispatch_def route_via_def
  queuer_choose_target_worker_def sticky_choose_target_worker_def kp_choose_target_worker_def find_wid_def
  hash_with_max_def has_pending_key_def is_processing_key_def pop_worker_def hint_satisfies_def
  enqueue_job_def sheds_newest_def enqueue_accepted_def get_next_non_expired_job_def dispatch_job_def accept_def
  track_pending_key_def untrack_pending_key_def is_available_def ex_job_def job_new_def job_options_new_def
  is_expired_def set_factory_time_def set_worker_time_def f_stat_def stat_def maybe_enqueue_def
  default_queue_ops_def push_accepted_def is_drained_def worker_finished_job_def worker_complete_def
  dispatch_next_def offer_work_def try_route_next_active_job_def route_head_def announce_def ex_clock_def
  discard_reject_def call_discard_def reject_def

lemma ex_honest [simp]: "list_all honest ex_msgs" "handler_keeps (fa_discard_handler (ex_args r ds))" "fa_queue (ex_args r ds) = []"
  by (simp_all add: ex_msgs_def ex_args_def handler_keeps_def)

lemma ex_queuer_life:
  obtains s es where "ex_life queuer_ops default_queue_ops (ex_args queuer_default DiscardNone) ex_msgs = Inr (s, es)"
proof -
  have "\<exists>s es. ex_life queuer_ops default_queue_ops (ex_args queuer_default DiscardNone) ex_msgs = Inr (s, es)"
    by (simp add: factory_eval ex_msgs_def upt_rec)
  with that show thesis by blast
qed

section \<open>Properties of every factory\<close>

text \<open>
  C1. At every moment of its life, the factory is consistent: the pool has exactly
  the workers below its size plus draining ones above it, each filed under its own number; the
  index of actors names them; every worker has at most one job in flight, and its per-key
  counters are exact; and a factory that calls itself drained has nothing queued and no busy
  worker.
\<close>

theorem factory_invariant:
  assumes "router rops" and "job_queue qops qlist qok" and "factory_run rops qops E hk a js es s"
    and "qok (fa_queue a)"
  shows "factory_inv qlist qok s"
  using factory_parts.run_inv [OF factory_parts.intro [OF assms(1,2)] assms(3,4)] .

theorem factory_invariant_witness:
  "\<exists>s es. ex_life queuer_ops default_queue_ops (ex_args queuer_default DiscardNone) ex_msgs = Inr (s, es) \<and>
     factory_inv (\<lambda>q. q) (\<lambda>q. True) s"
proof (rule ex_queuer_life)
  fix s es
  assume l: "ex_life queuer_ops default_queue_ops (ex_args queuer_default DiscardNone) ex_msgs = Inr (s, es)"
  then have "factory_run queuer_ops default_queue_ops (\<lambda>_. True) True (ex_args queuer_default DiscardNone)
      (concat (map arriving ex_msgs)) es s" by (rule ex_life_run) simp_all
  from factory_invariant [OF queuer.router_axioms default_queue.job_queue_axioms this] l show ?thesis by blast
qed





text \<open>
  C11. Draining is one way: once a factory drains, it never goes back to accepting
  work, and no handler of a message, not even of a new job, adds to the jobs it holds. When it
  declares itself drained, it holds nothing.
\<close>

theorem factory_draining:
  assumes "router rops" and "job_queue qops qlist qok" and "factory_run rops qops E True a js es s"
    and "qok (fa_queue a)" and "f_drain_state s \<noteq> NotDraining" and "honest msg"
    and "handle rops qops e msg s = Inr (s1, es1)" and "fresh e s"
  shows "f_drain_state s1 \<noteq> NotDraining \<and> held qlist s1 \<subseteq># held qlist s \<and>
    (f_drain_state s1 = Drained \<longrightarrow> held qlist s1 = {#} \<and> num_active_workers s1 = 0)"
proof -
  have p: "factory_parts rops qops qlist qok" using assms(1,2) by (rule factory_parts.intro)
  have inv: "factory_inv qlist qok s" and inv1: "factory_inv qlist qok s1"
    using factory_parts.run_inv [OF p assms(3,4)] factory_parts.handle_inv [OF p assms(7) _ assms(8)] by blast+
  have "f_drain_state s1 = Drained \<longrightarrow> idle qlist s1" "hm_wf (f_pool s1)"
    using inv1 by (auto simp: factory_inv_def formed_def shaped_def)
  then have "f_drain_state s1 = Drained \<longrightarrow> held qlist s1 = {#} \<and> num_active_workers s1 = 0"
    using idle_held [of qlist s1] by blast
  moreover have "handlers_keep s" using factory_parts.run_held [OF p assms(3,4)] by blast
  ultimately show ?thesis
    using factory_parts.draining_step [OF p inv _ assms(6,5,7)] by blast
qed

theorem factory_draining_witness:
  "\<exists>s es s1 es1. ex_life queuer_ops default_queue_ops (ex_args queuer_default DiscardNone) [DrainRequests] = Inr (s, es) \<and>
     handle queuer_ops default_queue_ops ex_later (Dispatch (ex_job 1)) s = Inr (s1, es1) \<and>
     f_drain_state s \<noteq> NotDraining \<and> held (\<lambda>q. q) s1 = {#}"
proof -
  have "\<exists>s es. ex_life queuer_ops default_queue_ops (ex_args queuer_default DiscardNone) [DrainRequests] = Inr (s, es) \<and>
      f_drain_state s \<noteq> NotDraining \<and> (\<exists>s1 es1. handle queuer_ops default_queue_ops ex_later (Dispatch (ex_job 1)) s = Inr (s1, es1) \<and>
        f_drain_state s1 = Drained)"
    by (simp add: factory_eval upt_rec drain_requests_def run_hook_def)
  then obtain s es s1 es1 where
    l: "ex_life queuer_ops default_queue_ops (ex_args queuer_default DiscardNone) [DrainRequests] = Inr (s, es)"
    and d: "f_drain_state s \<noteq> NotDraining" "handle queuer_ops default_queue_ops ex_later (Dispatch (ex_job 1)) s = Inr (s1, es1)"
      "f_drain_state s1 = Drained" by blast
  from l have "factory_run queuer_ops default_queue_ops (\<lambda>_. True) True (ex_args queuer_default DiscardNone)
      (concat (map arriving [DrainRequests])) es s" by (rule ex_life_run) simp_all
  from factory_draining [OF queuer.router_axioms default_queue.job_queue_axioms this _ d(1) _ d(2) ex_fresh(2)] l d
  show ?thesis by auto
qed

text \<open>
  C12. With a discard limit, a queue that is not over it never gets over it,
  whatever message the factory handles: in mode \<open>Oldest\<close> always, in mode \<open>Newest\<close> if the queue
  lets every job be discarded.
\<close>

theorem factory_queue_bound:
  assumes "router rops" and "job_queue qops qlist qok" and "factory_run rops qops E hk a js es s"
    and "qok (fa_queue a)" and "handle rops qops e msg s = Inr (s1, es1)"
    and "get_limit_and_mode (f_discard_settings s) = Some (limit, mode)"
    and "mode = Newest \<longrightarrow> (\<forall>k. q_is_job_discardable qops (f_queue s) k)" and "q_len qops (f_queue s) \<le> limit"
  shows "q_len qops (f_queue s1) \<le> limit"
proof -
  have p: "factory_parts rops qops qlist qok" using assms(1,2) by (rule factory_parts.intro)
  from factory_parts.handle_length [OF p factory_parts.run_inv [OF p assms(3,4)] assms(5-7)] assms(8)
  show ?thesis by (simp add: job_queue.len_qlist [OF assms(2)])
qed

theorem factory_queue_bound_witness:
  "\<exists>s es s1 es1. ex_life queuer_ops default_queue_ops (ex_args queuer_default (DiscardStatic 1 Newest)) ex_msgs = Inr (s, es) \<and>
     handle queuer_ops default_queue_ops ex_later (Dispatch (ex_job 5)) s = Inr (s1, es1) \<and> length (f_queue s1) \<le> 1"
proof -
  have "\<exists>s es. ex_life queuer_ops default_queue_ops (ex_args queuer_default (DiscardStatic 1 Newest)) ex_msgs = Inr (s, es) \<and>
      f_discard_settings s = DiscardStatic 1 Newest \<and> length (f_queue s) \<le> 1"
    by (simp add: factory_eval ex_msgs_def upt_rec)
  then obtain s es where l: "ex_life queuer_ops default_queue_ops (ex_args queuer_default (DiscardStatic 1 Newest)) ex_msgs = Inr (s, es)"
    and s: "f_discard_settings s = DiscardStatic 1 Newest" "length (f_queue s) \<le> 1" by blast
  from l have run: "factory_run queuer_ops default_queue_ops (\<lambda>_. True) True (ex_args queuer_default (DiscardStatic 1 Newest))
      (concat (map arriving ex_msgs)) es s" by (rule ex_life_run) simp_all
  have "ready (\<lambda>q. True) s" using queuer_factory.run_inv [OF run] by (simp add: factory_inv_def formed_ready)
  then obtain s1 es1 where h: "handle queuer_ops default_queue_ops ex_later (Dispatch (ex_job 5)) s = Inr (s1, es1)"
    using queuer_factory.handle_total by (metis old.prod.exhaust)
  from factory_queue_bound [OF queuer.router_axioms default_queue.job_queue_axioms run _ h, of 1 Newest] s l h
  show ?thesis by (auto simp: default_queue_ops_def)
qed

text \<open>
  C14. The routing loop ends by itself: with fuel for as many turns as there are
  queued jobs it gives the same outcome as with more, and it gives one.
\<close>

theorem routing_terminates:
  assumes "router rops" and "job_queue qops qlist qok" and "covers (pool_size s) (f_pool s)" and "qok (f_queue s)"
    and "q_len qops (f_queue s) \<le> n"
  shows "route_loop rops qops e hint n s = route_loop rops qops e hint (q_len qops (f_queue s)) s \<and>
    (\<exists>s1 es. try_route_next_active_job rops qops e hint s = Inr (s1, es))"
proof -
  have p: "factory_parts rops qops qlist qok" using assms(1,2) by (rule factory_parts.intro)
  have r: "ready qok s" using assms(3,4) by (simp add: ready_def)
  have "\<exists>s1 es. try_route_next_active_job rops qops e hint s = Inr (s1, es)"
    using factory_parts.try_route_runs [OF p r, of False e hint] by (rule runsE) blast
  then show ?thesis
    using factory_parts.route_loop_fuel [OF p r, of n e hint] assms(5)
    by (auto simp: job_queue.len_qlist [OF assms(2)])
qed

theorem routing_terminates_witness:
  "covers 2 (ex_pool 2) \<and>
   (\<exists>s1 es. try_route_next_active_job queuer_ops default_queue_ops ex_later None
      ((initial_factory None (ex_args queuer_default DiscardNone))\<lparr>f_pool := ex_pool 2, f_queue := [ex_job 1]\<rparr>) = Inr (s1, es))"
proof -
  let ?s = "(initial_factory None (ex_args queuer_default DiscardNone))\<lparr>f_pool := ex_pool 2, f_queue := [ex_job 1]\<rparr>"
  have c: "covers 2 (ex_pool 2)" by (simp add: covers_def ex_pool_def upt_rec less_Suc_eq numeral_2_eq_2)
  moreover have "pool_size ?s = 2" by (simp add: initial_factory_def ex_args_def)
  ultimately show ?thesis
    using routing_terminates [OF queuer.router_axioms default_queue.job_queue_axioms, of ?s 1 ex_later None]
    by (simp add: default_queue_ops_def)
qed

section \<open>Routers that keep keys together\<close>

text \<open>A worker has a job of key \<open>k\<close>, queued or in flight.\<close>

definition works_on :: "('k, 'm) worker \<Rightarrow> 'k \<Rightarrow> bool" where
  "works_on w k \<longleftrightarrow> k \<in> job_key ` set (message_queue w) \<or> is_processing_key w k"

lemma works_on_pending:
  assumes "balanced {#} w"
  shows "works_on w k \<longleftrightarrow> pending w k \<noteq> 0"
proof -
  have "counts_wf w" using assms by (simp add: balanced_def)
  with has_pending_key_iff [OF assms, of k] show ?thesis by (simp add: works_on_def has_pending_key_pos)
qed

lemma exclusive_works_on:
  assumes "key_exclusive p" and "\<And>i w. hm_get p i = Some w \<Longrightarrow> balanced {#} w"
    and "hm_get p i1 = Some w1" and "hm_get p i2 = Some w2" and "works_on w1 k" and "works_on w2 k"
  shows "i1 = i2"
proof -
  have "pool_pending p i1 k \<noteq> 0" "pool_pending p i2 k \<noteq> 0"
    using assms(3-6) works_on_pending [OF assms(2) [OF assms(3)]] works_on_pending [OF assms(2) [OF assms(4)]]
    by (auto simp: pool_pending_def)
  with assms(1) show ?thesis by (auto simp: key_exclusive_def)
qed

text \<open>
  C3. With key-persistent routing, no two workers ever have jobs of the same
  key, queued or in flight: resizing the pool, which changes the hash of every key, restarts of
  workers and failed sends included. Jobs of one key are never processed concurrently.
\<close>

theorem key_persistent_exclusive:
  assumes "job_queue qops qlist qok" and "factory_run key_persistent_ops qops E hk a js es s" and "qok (fa_queue a)"
    and "hm_get (f_pool s) i1 = Some w1" and "hm_get (f_pool s) i2 = Some w2" and "works_on w1 k" and "works_on w2 k"
  shows "i1 = i2"
proof -
  have "factory_inv qlist qok s"
    using factory_parts.run_inv [OF factory_parts.intro [OF key_persistent.router_axioms assms(1)] assms(2,3)] .
  then have "\<And>i w. hm_get (f_pool s) i = Some w \<Longrightarrow> balanced {#} w" by (simp add: factory_inv_def)
  from exclusive_works_on [OF kp_run_exclusive [OF assms(1-3)] this assms(4-7)] show ?thesis .
qed

text \<open>
  C13. With sticky routing, while the workers' actors accept their messages, no two
  workers ever have jobs of the same key, and no worker has jobs of two keys.
\<close>

theorem sticky_exclusive:
  assumes "job_queue qops qlist qok" and "factory_run sticky_queuer_ops qops delivers hk a js es s" and "qok (fa_queue a)"
    and "hm_get (f_pool s) i1 = Some w1" and "hm_get (f_pool s) i2 = Some w2" and "works_on w1 k1" and "works_on w2 k2"
  shows "i1 = i2 \<longleftrightarrow> k1 = k2"
proof -
  have "factory_inv qlist qok s"
    using factory_parts.run_inv [OF factory_parts.intro [OF sticky_queuer.router_axioms assms(1)] assms(2,3)] .
  then have bal: "\<And>i w. hm_get (f_pool s) i = Some w \<Longrightarrow> balanced {#} w" by (simp add: factory_inv_def)
  have st: "sticky_pool (f_pool s)" using sticky_run [OF assms(1-3)] .
  then have "key_exclusive (f_pool s)" and one: "one_key w1" using assms(4) by (auto simp: sticky_pool_def)
  from exclusive_works_on [OF this(1) _ assms(4,5)] bal assms(6,7) have "k1 = k2 \<Longrightarrow> i1 = i2" by blast
  moreover have "k1 = k2" if "i1 = i2"
    using that one assms(4-7) works_on_pending [OF bal [OF assms(4)]] by (auto simp: one_key_def)
  ultimately show ?thesis by blast
qed

definition ex_same :: "(nat, nat) factory_message list" where
  "ex_same = [Dispatch (ex_job 1), Dispatch (ex_job 2), Dispatch (ex_job 1)]"

theorem key_persistent_exclusive_witness:
  "\<exists>s es w0 w1. ex_life key_persistent_ops default_queue_ops (ex_args () DiscardNone) ex_same = Inr (s, es) \<and>
     hm_get (f_pool s) 0 = Some w0 \<and> hm_get (f_pool s) 1 = Some w1 \<and> works_on w1 1 \<and> \<not> works_on w0 1"
proof -
  have "\<exists>s es. ex_life key_persistent_ops default_queue_ops (ex_args () DiscardNone) ex_same = Inr (s, es) \<and>
      (\<exists>w0 w1. hm_get (f_pool s) 0 = Some w0 \<and> hm_get (f_pool s) 1 = Some w1 \<and> works_on w1 1)"
    by (simp add: factory_eval ex_same_def upt_rec works_on_def unat_mod)
  then obtain s es w0 w1 where l: "ex_life key_persistent_ops default_queue_ops (ex_args () DiscardNone) ex_same = Inr (s, es)"
    and w: "hm_get (f_pool s) 0 = Some w0" "hm_get (f_pool s) 1 = Some w1" "works_on w1 1" by blast
  from l have "factory_run key_persistent_ops default_queue_ops (\<lambda>_. True) True (ex_args () DiscardNone)
      (concat (map arriving ex_same)) es s" by (rule ex_life_run) (simp_all add: ex_same_def)
  from key_persistent_exclusive [OF default_queue.job_queue_axioms this _ w(1,2) _ w(3)] l w show ?thesis by auto
qed

theorem sticky_exclusive_witness:
  "\<exists>s es w1 w2. ex_life sticky_queuer_ops default_queue_ops (ex_args queuer_default DiscardNone) ex_same = Inr (s, es) \<and>
     hm_get (f_pool s) 0 = Some w1 \<and> works_on w1 1 \<and> hm_get (f_pool s) 1 = Some w2 \<and> works_on w2 2 \<and> \<not> works_on w2 1"
proof -
  have "\<exists>s es. ex_life sticky_queuer_ops default_queue_ops (ex_args queuer_default DiscardNone) ex_same = Inr (s, es) \<and>
      (\<exists>w1. hm_get (f_pool s) 0 = Some w1 \<and> works_on w1 1) \<and> (\<exists>w2. hm_get (f_pool s) 1 = Some w2 \<and> works_on w2 2)"
    by (simp add: factory_eval ex_same_def upt_rec works_on_def)
  then obtain s es w1 w2 where l: "ex_life sticky_queuer_ops default_queue_ops (ex_args queuer_default DiscardNone) ex_same = Inr (s, es)"
    and w: "hm_get (f_pool s) 0 = Some w1" "works_on w1 1" "hm_get (f_pool s) 1 = Some w2" "works_on w2 2" by blast
  from l have "factory_run sticky_queuer_ops default_queue_ops delivers True (ex_args queuer_default DiscardNone)
      (concat (map arriving ex_same)) es s"
    by (rule ex_life_run) (simp_all add: ex_same_def delivers_def ex_start_def ex_later_def ex_env_def)
  from sticky_exclusive [OF default_queue.job_queue_axioms this _ w(1,3,2)] l w show ?thesis by auto
qed

end
