(* ===== verification/Actor_Status.thy ===== *)
theory Actor_Status
  imports Actor_Messages
begin

text \<open>
  The lifecycle status of an actor (\<open>ActorStatus\<close> of \<open>ractor/src/actor/actor_cell.rs\<close> and the
  conversions of \<open>ractor/src/actor/actor_properties.rs\<close>): an enum with the order of its
  discriminants, kept in an atomic byte that only grows.
\<close>

datatype actor_status = Unstarted | Starting | Running | Upgrading | Draining | Stopping | Stopped

primrec status_code :: "actor_status \<Rightarrow> u8" where
  "status_code Unstarted = 0"
| "status_code Starting = 1"
| "status_code Running = 2"
| "status_code Upgrading = 3"
| "status_code Draining = 4"
| "status_code Stopping = 5"
| "status_code Stopped = 6"

definition status_from_u8 :: "u8 \<Rightarrow> actor_status" where
  "status_from_u8 b =
     (if b = 0 then Unstarted else if b = 1 then Starting else if b = 2 then Running
      else if b = 3 then Upgrading else if b = 4 then Draining else if b = 5 then Stopping
      else Stopped)"

definition ACTIVE_STATES :: "actor_status list" where
  "ACTIVE_STATES = [Starting, Running, Upgrading]"

lemma status_from_code [simp]: "status_from_u8 (status_code s) = s"
  by (cases s) (simp_all add: status_from_u8_def)

lemma status_code_inj [simp]: "status_code a = status_code b \<longleftrightarrow> a = b"
  using status_from_code by metis

instantiation actor_status :: linorder
begin

definition less_eq_actor_status :: "actor_status \<Rightarrow> actor_status \<Rightarrow> bool" where
  "less_eq_actor_status a b \<longleftrightarrow> status_code a \<le> status_code b"

definition less_actor_status :: "actor_status \<Rightarrow> actor_status \<Rightarrow> bool" where
  "less_actor_status a b \<longleftrightarrow> status_code a < status_code b"

instance
  by standard (auto simp: less_eq_actor_status_def less_actor_status_def less_le)

end

text \<open>The atomic byte: \<open>fetch_max\<close> gives the old value back and never goes down.\<close>

definition fetch_max_status :: "actor_status \<Rightarrow> u8 \<Rightarrow> actor_status \<times> u8" where
  "fetch_max_status s b = (status_from_u8 b, max b (status_code s))"

lemma fetch_max_code [simp]:
  "fetch_max_status s (status_code t) = (t, status_code (max t s))"
  by (auto simp: fetch_max_status_def max_def less_eq_actor_status_def)

lemmas status_compare = less_actor_status_def less_eq_actor_status_def word_less_nat_alt word_le_nat_alt

lemma status_less_simps [simp]:
  "Upgrading < Draining" "Draining < Stopping" "Stopping < Stopped" "Draining < Stopped" "Upgrading < Stopping"
  by (simp_all add: status_compare)

lemma status_bounds [simp]: "Unstarted \<le> s" "s \<le> Stopped"
  by (cases s; simp add: status_compare)+

lemma status_cases_le:
  "s \<le> Draining \<longleftrightarrow> s < Stopping" "Draining \<le> s \<longleftrightarrow> Upgrading < s" "s \<le> Upgrading \<longleftrightarrow> s < Draining"
  "Stopping \<le> s \<longleftrightarrow> s = Stopping \<or> s = Stopped"
  by (cases s; simp add: status_compare)+

end
