(* ===== verification/Actor_Admission.thy ===== *)
theory Actor_Admission
  imports Actor_Status
begin

unbundle bit_operations_syntax

text \<open>
  Message admission and draining (\<open>ractor/src/actor/actor_properties.rs\<close>). Senders and drainers
  run concurrently on one atomic word: its top bit closes the mailbox, the next says that the
  drain marker was sent, and the others count the senders between their admission and the drop
  of their \<open>MessageAdmission\<close>. The marker must come after every admitted message, and exactly
  once.

  A task is a call of \<open>send_message\<close> or \<open>drain\<close>; a step of it is one access to the shared state.
  Tasks interleave in any order. The accesses are to single atomic locations and to the channel,
  and are taken in the order the acquire/release pairs of the source enforce.
\<close>

section \<open>The admission word\<close>

type_synonym usize = "64 word"

definition MESSAGE_ADMISSION_CLOSED :: usize where
  "MESSAGE_ADMISSION_CLOSED = push_bit 63 1"

definition DRAIN_MARKER_SENT :: usize where
  "DRAIN_MARKER_SENT = push_bit 62 1"

definition MESSAGE_ADMISSION_COUNT_MASK :: usize where
  "MESSAGE_ADMISSION_COUNT_MASK = DRAIN_MARKER_SENT - 1"

definition is_closed :: "usize \<Rightarrow> bool" where
  "is_closed w \<longleftrightarrow> w AND MESSAGE_ADMISSION_CLOSED \<noteq> 0"

definition is_marked :: "usize \<Rightarrow> bool" where
  "is_marked w \<longleftrightarrow> w AND DRAIN_MARKER_SENT \<noteq> 0"

definition admitted :: "usize \<Rightarrow> nat" where
  "admitted w = unat (w AND MESSAGE_ADMISSION_COUNT_MASK)"

text \<open>The condition under which \<open>send_drain_marker\<close> goes on to send.\<close>

definition marker_due :: "usize \<Rightarrow> bool" where
  "marker_due w \<longleftrightarrow>
     \<not> (w AND MESSAGE_ADMISSION_CLOSED = 0 \<or> w AND MESSAGE_ADMISSION_COUNT_MASK \<noteq> 0 \<or> w AND DRAIN_MARKER_SENT \<noteq> 0)"

lemma mask_eq: "MESSAGE_ADMISSION_COUNT_MASK = mask 62"
  by (simp add: MESSAGE_ADMISSION_COUNT_MASK_def DRAIN_MARKER_SENT_def mask_eq_exp_minus_1)

lemma and_push_bit: "(w :: usize) AND push_bit n 1 \<noteq> 0 \<longleftrightarrow> bit w n" if "n < 64"
  using that by (auto simp: bit_eq_iff [where 'a = usize] bit_simps)

lemma is_closed_bit: "is_closed w \<longleftrightarrow> bit w 63"
  unfolding is_closed_def MESSAGE_ADMISSION_CLOSED_def by (rule and_push_bit) simp

lemma is_marked_bit: "is_marked w \<longleftrightarrow> bit w 62"
  unfolding is_marked_def DRAIN_MARKER_SENT_def by (rule and_push_bit) simp

lemma admitted_take: "admitted w = unat w mod 2 ^ 62"
proof -
  have "admitted w = take_bit 62 (unat w)"
    by (simp only: admitted_def mask_eq unsigned_take_bit_eq flip: take_bit_eq_mask)
  then show ?thesis by (simp only: take_bit_eq_mod)
qed

lemma bits_unat: "bit (w :: usize) n \<longleftrightarrow> odd (unat w div 2 ^ n)"
  by (simp add: bit_unsigned_iff flip: bit_iff_odd)

lemma marker_due_iff: "marker_due w \<longleftrightarrow> is_closed w \<and> admitted w = 0 \<and> \<not> is_marked w"
  by (auto simp: marker_due_def is_closed_def is_marked_def admitted_def unat_eq_0)

lemma unat_split: "unat (w :: usize) = 2 ^ 62 * (unat w div 2 ^ 62) + admitted w"
  by (simp add: admitted_take)

lemma admission_of_unat:
  assumes "unat (w1 :: usize) = 2 ^ 62 * (unat w div 2 ^ 62) + n" and "n < 2 ^ 62"
  shows "is_closed w1 = is_closed w" "is_marked w1 = is_marked w" "admitted w1 = n"
proof -
  from assms have d: "unat w1 div 2 ^ 62 = unat w div 2 ^ 62" by simp
  have "unat w1 div 2 ^ 63 = unat w1 div 2 ^ 62 div 2" "unat w div 2 ^ 63 = unat w div 2 ^ 62 div 2"
    by (simp_all flip: div_mult2_eq)
  with d show "is_closed w1 = is_closed w" "is_marked w1 = is_marked w"
    by (simp_all only: is_closed_bit is_marked_bit bits_unat)
  from assms show "admitted w1 = n" by (simp add: admitted_take)
qed

lemma admit_one:
  assumes "Suc (admitted w) < 2 ^ 62"
  shows "is_closed (w + 1) = is_closed w" "is_marked (w + 1) = is_marked w" "admitted (w + 1) = Suc (admitted w)"
proof -
  have "unat w < 2 ^ 64" using unsigned_less [of w] by simp
  then have "unat w div 2 ^ 62 < 4" by simp
  then have "unat w + 1 < 2 ^ 64" using unat_split [of w] assms by simp
  then have "unat (w + 1) = 2 ^ 62 * (unat w div 2 ^ 62) + Suc (admitted w)"
    using unat_split [of w] by (simp add: unat_word_ariths)
  from admission_of_unat [OF this assms] show "is_closed (w + 1) = is_closed w"
    "is_marked (w + 1) = is_marked w" "admitted (w + 1) = Suc (admitted w)" by auto
qed

lemma release_one:
  assumes "0 < admitted w"
  shows "is_closed (w - 1) = is_closed w" "is_marked (w - 1) = is_marked w" "admitted (w - 1) = admitted w - 1"
proof -
  have "1 \<le> w" using assms unat_split [of w] by (simp add: word_le_nat_alt)
  then have "unat (w - 1) = 2 ^ 62 * (unat w div 2 ^ 62) + (admitted w - 1)"
    using unat_split [of w] assms by (simp add: unat_sub)
  moreover have "admitted w - 1 < 2 ^ 62" by (rule less_imp_diff_less) (simp add: admitted_take)
  ultimately show "is_closed (w - 1) = is_closed w" "is_marked (w - 1) = is_marked w"
    "admitted (w - 1) = admitted w - 1" using admission_of_unat by blast+
qed

lemma or_push_bit: "((w :: usize) OR push_bit n 1) AND mask k = w AND mask k" if "k \<le> n"
  using that by (auto simp: bit_eq_iff [where 'a = usize] bit_simps)

lemma close_word [simp]:
  "is_closed (w OR MESSAGE_ADMISSION_CLOSED)" "is_marked (w OR MESSAGE_ADMISSION_CLOSED) = is_marked w"
  "admitted (w OR MESSAGE_ADMISSION_CLOSED) = admitted w"
proof -
  show "is_closed (w OR MESSAGE_ADMISSION_CLOSED)" "is_marked (w OR MESSAGE_ADMISSION_CLOSED) = is_marked w"
    by (simp_all add: is_closed_bit is_marked_bit bit_simps MESSAGE_ADMISSION_CLOSED_def)
  have "(w OR MESSAGE_ADMISSION_CLOSED) AND mask 62 = w AND mask 62"
    unfolding MESSAGE_ADMISSION_CLOSED_def by (rule or_push_bit) simp
  then show "admitted (w OR MESSAGE_ADMISSION_CLOSED) = admitted w" by (simp add: admitted_def mask_eq)
qed

lemma mark_word [simp]:
  "is_marked (w OR DRAIN_MARKER_SENT)" "is_closed (w OR DRAIN_MARKER_SENT) = is_closed w"
  "admitted (w OR DRAIN_MARKER_SENT) = admitted w"
proof -
  show "is_marked (w OR DRAIN_MARKER_SENT)" "is_closed (w OR DRAIN_MARKER_SENT) = is_closed w"
    by (simp_all add: is_closed_bit is_marked_bit bit_simps DRAIN_MARKER_SENT_def)
  have "(w OR DRAIN_MARKER_SENT) AND mask 62 = w AND mask 62"
    unfolding DRAIN_MARKER_SENT_def by (rule or_push_bit) simp
  then show "admitted (w OR DRAIN_MARKER_SENT) = admitted w" by (simp add: admitted_def mask_eq)
qed

section \<open>Tasks\<close>

datatype 'm muxed_message = Drain | Message 'm

text \<open>
  The shared part of \<open>ActorProperties\<close>. \<open>channel\<close> holds everything ever put into the message
  channel, of which the receiver has taken the first \<open>received\<close>; \<open>receiving\<close> is false once the
  receiver is gone.
\<close>

record 'm mailbox =
  status :: u8
  message_admission :: usize
  channel :: "'m muxed_message list"
  received :: nat
  receiving :: bool

text \<open>
  What \<open>send_message\<close> returns, with the message of the call: \<open>Ok\<close>, \<open>Err(SendErr)\<close> with the message
  given back, \<open>Err(InvalidActorType)\<close> if it could not be boxed.
\<close>

datatype 'm send_result = Sent 'm | Refused 'm | Unboxable 'm

text \<open>
  Where a task is. A sender: reading the status, loading the admission word, trying to increment
  it, putting its message into the channel, and dropping its admission with the result it will
  return. A drainer: closing the word, raising the status. Both may get to \<open>send_drain_marker\<close>:
  loading the word, trying to mark it, sending the marker; a sender's result is kept there.
\<close>

datatype 'm task =
    SendStatus 'm
  | SendLoad 'm
  | SendAdmit 'm usize
  | SendPush 'm
  | SendRelease "'m send_result"
  | DrainClose
  | DrainStatus
  | MarkLoad "'m send_result option"
  | MarkTry "'m send_result option" usize
  | MarkPush "'m send_result option"
  | SendDone "'m send_result"
  | DrainDone bool

definition mark_done :: "'m send_result option \<Rightarrow> bool \<Rightarrow> 'm task" where
  "mark_done who ok = (case who of Some r \<Rightarrow> SendDone r | None \<Rightarrow> DrainDone ok)"

text \<open>
  The load of the word and the turn of the compare-and-swap loop of \<open>try_admit_message\<close>. The weak
  compare-and-swap fails if the word is not the one that was read, or for no reason
  (\<open>spurious\<close>).
\<close>

definition try_admit_message :: "bool \<Rightarrow> 'm \<Rightarrow> usize \<Rightarrow> 'm mailbox \<Rightarrow> 'm task \<times> 'm mailbox" where
  "try_admit_message spurious m state b =
     (if state AND MESSAGE_ADMISSION_CLOSED \<noteq> 0 then (SendDone (Refused m), b)
      else if message_admission b = state \<and> \<not> spurious
      then (SendPush m, b\<lparr>message_admission := state + 1\<rparr>)
      else (SendAdmit m (message_admission b), b))"

text \<open>The drop of a \<open>MessageAdmission\<close>.\<close>

definition release_admission :: "'m send_result \<Rightarrow> 'm mailbox \<Rightarrow> 'm task \<times> 'm mailbox" where
  "release_admission r b =
     (let previous = message_admission b; b1 = b\<lparr>message_admission := previous - 1\<rparr>
      in if previous AND MESSAGE_ADMISSION_CLOSED \<noteq> 0 \<and> previous AND MESSAGE_ADMISSION_COUNT_MASK = 1
         then (MarkLoad (Some r), b1) else (SendDone r, b1))"

definition channel_send :: "'m muxed_message \<Rightarrow> 'm mailbox \<Rightarrow> bool \<times> 'm mailbox" where
  "channel_send x b = (if receiving b then (True, b\<lparr>channel := channel b @ [x]\<rparr>) else (False, b))"

definition send_drain_marker :: "bool \<Rightarrow> 'm send_result option \<Rightarrow> usize \<Rightarrow> 'm mailbox \<Rightarrow> 'm task \<times> 'm mailbox" where
  "send_drain_marker spurious who state b =
     (if state AND MESSAGE_ADMISSION_CLOSED = 0 \<or> state AND MESSAGE_ADMISSION_COUNT_MASK \<noteq> 0 \<or>
         state AND DRAIN_MARKER_SENT \<noteq> 0 then (mark_done who True, b)
      else if message_admission b = state \<and> \<not> spurious
      then (MarkPush who, b\<lparr>message_admission := state OR DRAIN_MARKER_SENT\<rparr>)
      else (MarkTry who (message_admission b), b))"

text \<open>
  One step of a task. \<open>boxes\<close> says whether a message can be boxed (\<open>box_message\<close> is code of the
  message type).
\<close>

fun task_step :: "('m \<Rightarrow> bool) \<Rightarrow> bool \<Rightarrow> 'm task \<Rightarrow> 'm mailbox \<Rightarrow> 'm task \<times> 'm mailbox" where
  "task_step boxes spurious (SendStatus m) b =
     (if status_from_u8 (status b) \<ge> Draining then (SendDone (Refused m), b) else (SendLoad m, b))"
| "task_step boxes spurious (SendLoad m) b = (SendAdmit m (message_admission b), b)"
| "task_step boxes spurious (SendAdmit m state) b = try_admit_message spurious m state b"
| "task_step boxes spurious (SendPush m) b =
     (if boxes m then
        let (ok, b1) = channel_send (Message m) b
        in (SendRelease (if ok then Sent m else Refused m), b1)
      else (SendRelease (Unboxable m), b))"
| "task_step boxes spurious (SendRelease r) b = release_admission r b"
| "task_step boxes spurious DrainClose b =
     (DrainStatus, b\<lparr>message_admission := message_admission b OR MESSAGE_ADMISSION_CLOSED\<rparr>)"
| "task_step boxes spurious DrainStatus b =
     (MarkLoad None, b\<lparr>status := snd (fetch_max_status Draining (status b))\<rparr>)"
| "task_step boxes spurious (MarkLoad who) b = (MarkTry who (message_admission b), b)"
| "task_step boxes spurious (MarkTry who state) b = send_drain_marker spurious who state b"
| "task_step boxes spurious (MarkPush who) b =
     (let (ok, b1) = channel_send Drain b in (mark_done who ok, b1))"
| "task_step boxes spurious t b = (t, b)"

text \<open>
  The system: tasks step in any order; the receiver takes items and may go away; the actor raises
  its status.
\<close>

inductive mailbox_step :: "('m \<Rightarrow> bool) \<Rightarrow> 'm task list \<times> 'm mailbox \<Rightarrow> 'm task list \<times> 'm mailbox \<Rightarrow> bool"
  for boxes where
  task: "i < length ts \<Longrightarrow> task_step boxes spurious (ts ! i) b = (t, b1) \<Longrightarrow>
    mailbox_step boxes (ts, b) (ts[i := t], b1)"
| receive: "received b < length (channel b) \<Longrightarrow>
    mailbox_step boxes (ts, b) (ts, b\<lparr>received := Suc (received b)\<rparr>)"
| drop_receiver: "mailbox_step boxes (ts, b) (ts, b\<lparr>receiving := False\<rparr>)"
| advance: "mailbox_step boxes (ts, b) (ts, b\<lparr>status := snd (fetch_max_status s (status b))\<rparr>)"

inductive_cases mailbox_stepE: "mailbox_step boxes x y"

definition mailbox_new :: "'m mailbox" where
  "mailbox_new = \<lparr>status = status_code Unstarted, message_admission = 0, channel = [], received = 0, receiving = True\<rparr>"

fun is_call :: "'m task \<Rightarrow> bool" where
  "is_call (SendStatus m) = True"
| "is_call DrainClose = True"
| "is_call t = False"

inductive mailbox_run :: "('m \<Rightarrow> bool) \<Rightarrow> 'm task list \<Rightarrow> 'm task list \<times> 'm mailbox \<Rightarrow> bool"
  for boxes calls where
  run_new: "list_all is_call calls \<Longrightarrow> mailbox_run boxes calls (calls, mailbox_new)"
| run_step: "mailbox_run boxes calls x \<Longrightarrow> mailbox_step boxes x y \<Longrightarrow> mailbox_run boxes calls y"


section \<open>The invariant\<close>

text \<open>A task that is counted in the word; that has put its message into the channel; that is about to send the marker; that will.\<close>

fun holds :: "'m task \<Rightarrow> bool" where
  "holds (SendPush m) = True"
| "holds (SendRelease r) = True"
| "holds t = False"

fun sent_result :: "'m send_result \<Rightarrow> 'm multiset" where
  "sent_result (Sent m) = {#m#}"
| "sent_result r = {#}"

definition sent_caller :: "'m send_result option \<Rightarrow> 'm multiset" where
  "sent_caller who = (case who of None \<Rightarrow> {#} | Some r \<Rightarrow> sent_result r)"

fun sent_by :: "'m task \<Rightarrow> 'm multiset" where
  "sent_by (SendRelease r) = sent_result r"
| "sent_by (MarkLoad who) = sent_caller who"
| "sent_by (MarkTry who w) = sent_caller who"
| "sent_by (MarkPush who) = sent_caller who"
| "sent_by (SendDone r) = sent_result r"
| "sent_by t = {#}"

fun pushes_marker :: "'m task \<Rightarrow> bool" where
  "pushes_marker (MarkPush who) = True"
| "pushes_marker t = False"

fun will_mark :: "'m task \<Rightarrow> bool" where
  "will_mark DrainStatus = True"
| "will_mark (MarkLoad who) = True"
| "will_mark (MarkTry who w) = marker_due w"
| "will_mark t = False"

fun finished :: "'m task \<Rightarrow> bool" where
  "finished (SendDone r) = True"
| "finished (DrainDone ok) = True"
| "finished t = False"

definition tally :: "('m task \<Rightarrow> bool) \<Rightarrow> 'm task list \<Rightarrow> nat" where
  "tally P ts = (\<Sum>t\<leftarrow>ts. of_bool (P t))"

definition sent_msgs :: "'m task list \<Rightarrow> 'm multiset" where
  "sent_msgs ts = (\<Sum>t\<leftarrow>ts. sent_by t)"

lemma sum_list_update:
  fixes f :: "'a \<Rightarrow> 'b :: comm_monoid_add"
  shows "i < length xs \<Longrightarrow> sum_list (map f (xs[i := y])) + f (xs ! i) = sum_list (map f xs) + f y"
proof (induction xs arbitrary: i)
  case (Cons x xs)
  show ?case
  proof (cases i)
    case (Suc k)
    with Cons show ?thesis by (simp add: add.assoc)
  qed (simp add: ac_simps)
qed simp

lemma tally_update:
  "i < length ts \<Longrightarrow> tally P (ts[i := t]) + of_bool (P (ts ! i)) = tally P ts + of_bool (P t)"
  unfolding tally_def by (rule sum_list_update)

lemma sent_msgs_update:
  "i < length ts \<Longrightarrow> sent_msgs (ts[i := t]) + sent_by (ts ! i) = sent_msgs ts + sent_by t"
  unfolding sent_msgs_def by (rule sum_list_update)

lemma tally_less: "i < length ts \<Longrightarrow> \<not> P (ts ! i) \<Longrightarrow> tally P ts < length ts"
proof (induction ts arbitrary: i)
  case (Cons t ts)
  have "tally P us \<le> length us" for us :: "'a task list"
    unfolding tally_def by (induction us) auto
  note le = this [of ts]
  show ?case
  proof (cases i)
    case 0
    with Cons.prems le show ?thesis by (simp add: tally_def)
  next
    case (Suc k)
    with Cons.prems Cons.IH [of k] show ?thesis by (simp add: tally_def)
  qed
qed simp

lemma tally_pos: "i < length ts \<Longrightarrow> P (ts ! i) \<Longrightarrow> 0 < tally P ts"
  unfolding tally_def by (induction ts arbitrary: i) (auto simp: nth_Cons' split: if_splits)

lemma tally_none: "tally P ts = 0 \<longleftrightarrow> (\<forall>t\<in>set ts. \<not> P t)"
  unfolding tally_def by (induction ts) auto

definition mailbox_inv :: "'m task list \<Rightarrow> 'm mailbox \<Rightarrow> bool" where
  "mailbox_inv ts b \<longleftrightarrow>
     (let w = message_admission b in
      admitted w = tally holds ts \<and>
      (is_marked w \<longrightarrow> is_closed w \<and> admitted w = 0) \<and>
      (\<exists>ms d. channel b = map Message ms @ replicate d Drain \<and> mset ms = sent_msgs ts \<and>
         tally pushes_marker ts + d \<le> of_bool (is_marked w) \<and>
         (receiving b \<longrightarrow> tally pushes_marker ts + d = of_bool (is_marked w))) \<and>
      (marker_due w \<longrightarrow> (\<exists>t\<in>set ts. will_mark t)))"


lemma mailbox_invI:
  assumes "admitted (message_admission b) = tally holds ts"
    and "is_marked (message_admission b) \<Longrightarrow> is_closed (message_admission b) \<and> admitted (message_admission b) = 0"
    and "channel b = map Message ms @ replicate d Drain" and "mset ms = sent_msgs ts"
    and "tally pushes_marker ts + d \<le> of_bool (is_marked (message_admission b))"
    and "receiving b \<Longrightarrow> tally pushes_marker ts + d = of_bool (is_marked (message_admission b))"
    and "marker_due (message_admission b) \<Longrightarrow> \<exists>t\<in>set ts. will_mark t"
  shows "mailbox_inv ts b"
  using assms unfolding mailbox_inv_def Let_def by blast

lemma mailbox_invE:
  assumes "mailbox_inv ts b"
  obtains ms d where "admitted (message_admission b) = tally holds ts"
    and "is_marked (message_admission b) \<longrightarrow> is_closed (message_admission b) \<and> admitted (message_admission b) = 0"
    and "channel b = map Message ms @ replicate d Drain" and "mset ms = sent_msgs ts"
    and "tally pushes_marker ts + d \<le> of_bool (is_marked (message_admission b))"
    and "receiving b \<longrightarrow> tally pushes_marker ts + d = of_bool (is_marked (message_admission b))"
    and "marker_due (message_admission b) \<longrightarrow> (\<exists>t\<in>set ts. will_mark t)"
  using assms unfolding mailbox_inv_def Let_def by blast

lemma is_closed_and: "w AND MESSAGE_ADMISSION_CLOSED \<noteq> 0 \<longleftrightarrow> is_closed w" "w AND MESSAGE_ADMISSION_CLOSED = 0 \<longleftrightarrow> \<not> is_closed w"
  by (simp_all add: is_closed_def)

lemma admitted_one: "w AND MESSAGE_ADMISSION_COUNT_MASK = 1 \<longleftrightarrow> admitted w = 1"
  by (simp add: admitted_def word_unat_eq_iff)

lemma marker_guard:
  "w AND MESSAGE_ADMISSION_CLOSED = 0 \<or> w AND MESSAGE_ADMISSION_COUNT_MASK \<noteq> 0 \<or> w AND DRAIN_MARKER_SENT \<noteq> 0 \<longleftrightarrow>
   \<not> marker_due w"
  by (simp add: marker_due_def)

lemma mark_done_simps [simp]:
  "holds (mark_done who ok) = False" "pushes_marker (mark_done who ok) = False" "will_mark (mark_done who ok) = False"
  "sent_by (mark_done who ok) = sent_caller who" "finished (mark_done who ok)"
  by (auto simp: mark_done_def sent_caller_def split: option.split)

lemma sent_caller_Some [simp]: "sent_caller (Some r) = sent_result r" "sent_caller None = {#}"
  by (simp_all add: sent_caller_def)

text \<open>A step that leaves the word, the channel and the tallies as they are.\<close>

lemma inv_quiet:
  assumes "mailbox_inv ts b" and "i < length ts" and "message_admission b1 = message_admission b"
    and "channel b1 = channel b" and "receiving b1 \<longrightarrow> receiving b"
    and "holds t = holds (ts ! i)" and "sent_by t = sent_by (ts ! i)" and "pushes_marker t = pushes_marker (ts ! i)"
    and "marker_due (message_admission b) \<and> will_mark (ts ! i) \<longrightarrow> will_mark t"
  shows "mailbox_inv (ts[i := t]) b1"
proof -
  have c: "tally holds (ts[i := t]) = tally holds ts" "tally pushes_marker (ts[i := t]) = tally pushes_marker ts"
    "sent_msgs (ts[i := t]) = sent_msgs ts"
    using tally_update [OF assms(2), of holds t] tally_update [OF assms(2), of pushes_marker t]
      sent_msgs_update [OF assms(2), of t] assms(6-8) by simp_all
  have "\<exists>t\<in>set (ts[i := t]). will_mark t" if "marker_due (message_admission b)"
  proof -
    from assms(1) that obtain u where "u \<in> set ts" "will_mark u" by (auto simp: mailbox_inv_def Let_def)
    then obtain k where k: "k < length ts" "will_mark (ts ! k)" by (auto simp: in_set_conv_nth)
    with assms(2,9) that have "will_mark (ts[i := t] ! k)" by (cases "k = i") auto
    with k show ?thesis by (metis length_list_update nth_mem)
  qed
  with assms(1,3-5) c show ?thesis unfolding mailbox_inv_def Let_def by metis
qed


lemma inv_admit:
  assumes "mailbox_inv ts b" and i: "i < length ts" and "length ts < 2 ^ 62" and t: "ts ! i = SendAdmit m (message_admission b)"
    and "\<not> is_closed (message_admission b)"
  shows "mailbox_inv (ts[i := SendPush m]) (b\<lparr>message_admission := message_admission b + 1\<rparr>)"
proof -
  let ?w = "message_admission b"
  have c: "tally holds (ts[i := SendPush m]) = Suc (tally holds ts)" "tally pushes_marker (ts[i := SendPush m]) = tally pushes_marker ts"
    "sent_msgs (ts[i := SendPush m]) = sent_msgs ts"
    using tally_update [OF i, of holds "SendPush m"] tally_update [OF i, of pushes_marker "SendPush m"]
      sent_msgs_update [OF i, of "SendPush m"] t by simp_all
  have "tally holds ts < length ts" using i t by (intro tally_less) auto
  with assms(1,3) have "Suc (admitted ?w) < 2 ^ 62" by (simp add: mailbox_inv_def Let_def)
  note w = admit_one [OF this]
  have "\<not> marker_due (?w + 1)" using assms(5) w by (simp add: marker_due_iff)
  with assms(1,5) c w show ?thesis by (auto simp: mailbox_inv_def Let_def)
qed

lemma inv_push:
  assumes "mailbox_inv ts b" and i: "i < length ts" and t: "ts ! i = SendPush m" and "receiving b"
  shows "mailbox_inv (ts[i := SendRelease (Sent m)]) (b\<lparr>channel := channel b @ [Message m]\<rparr>)"
proof -
  let ?ts = "ts[i := SendRelease (Sent m)]"
  have c: "tally holds ?ts = tally holds ts" "tally pushes_marker ?ts = tally pushes_marker ts"
    "sent_msgs ?ts = sent_msgs ts + {#m#}"
    using tally_update [OF i, of holds "SendRelease (Sent m)"] tally_update [OF i, of pushes_marker "SendRelease (Sent m)"]
      sent_msgs_update [OF i, of "SendRelease (Sent m)"] t by simp_all
  have "0 < tally holds ts" using i t by (intro tally_pos) auto
  then have n: "0 < admitted (message_admission b)" "\<not> is_marked (message_admission b)" "\<not> marker_due (message_admission b)"
    using assms(1) by (auto simp: mailbox_inv_def Let_def marker_due_iff)
  with assms(1,4) obtain ms where ms: "channel b = map Message ms" "mset ms = sent_msgs ts" "tally pushes_marker ts = 0"
    by (auto simp: mailbox_inv_def Let_def)
  then have "channel b @ [Message m] = map Message (ms @ [m]) @ replicate 0 Drain" "mset (ms @ [m]) = sent_msgs ?ts"
    using c by simp_all
  with assms(1) n c ms(3) show ?thesis
    by (intro mailbox_invI [where ms = "ms @ [m]" and d = 0]) (auto elim: mailbox_invE)
qed

lemma inv_release:
  assumes "mailbox_inv ts b" and i: "i < length ts" and t: "ts ! i = SendRelease r"
    and "release_admission r b = (t1, b1)"
  shows "mailbox_inv (ts[i := t1]) b1"
proof -
  let ?w = "message_admission b"
  have "0 < tally holds ts" using i t by (intro tally_pos) auto
  then have "0 < admitted ?w" using assms(1) by (simp add: mailbox_inv_def Let_def)
  note w = release_one [OF this] and this
  have b1: "b1 = b\<lparr>message_admission := ?w - 1\<rparr>" and
    t1: "t1 = (if is_closed ?w \<and> admitted ?w = 1 then MarkLoad (Some r) else SendDone r)"
    using assms(4) by (auto simp: release_admission_def Let_def is_closed_and admitted_one split: if_splits)
  have h: "\<not> holds t1" "\<not> pushes_marker t1" "sent_by t1 = sent_result r" using t1 by auto
  have c: "Suc (tally holds (ts[i := t1])) = tally holds ts" "tally pushes_marker (ts[i := t1]) = tally pushes_marker ts"
    "sent_msgs (ts[i := t1]) = sent_msgs ts"
    using tally_update [OF i, of holds t1] tally_update [OF i, of pushes_marker t1]
      sent_msgs_update [OF i, of t1] t h by simp_all
  have "\<exists>u\<in>set (ts[i := t1]). will_mark u" if "marker_due (?w - 1)"
  proof -
    have "t1 = MarkLoad (Some r)" using that w \<open>0 < admitted ?w\<close> t1 by (auto simp: marker_due_iff)
    with i show ?thesis by (metis set_update_memI will_mark.simps(2))
  qed
  moreover have "\<not> is_marked ?w" using assms(1) \<open>0 < admitted ?w\<close> by (auto simp: mailbox_inv_def Let_def)
  moreover obtain ms d where "channel b = map Message ms @ replicate d Drain" "mset ms = sent_msgs ts"
    "admitted ?w = tally holds ts" "tally pushes_marker ts + d \<le> of_bool (is_marked ?w)" using assms(1) by (rule mailbox_invE)
  ultimately show ?thesis using c w b1 by (intro mailbox_invI [where ms = ms and d = d]) auto
qed

lemma inv_close:
  assumes "mailbox_inv ts b" and i: "i < length ts" and t: "ts ! i = DrainClose"
  shows "mailbox_inv (ts[i := DrainStatus]) (b\<lparr>message_admission := message_admission b OR MESSAGE_ADMISSION_CLOSED\<rparr>)"
proof -
  have c: "tally holds (ts[i := DrainStatus]) = tally holds ts" "tally pushes_marker (ts[i := DrainStatus]) = tally pushes_marker ts"
    "sent_msgs (ts[i := DrainStatus]) = sent_msgs ts"
    using tally_update [OF i, of holds DrainStatus] tally_update [OF i, of pushes_marker DrainStatus]
      sent_msgs_update [OF i, of DrainStatus] t by simp_all
  have "\<exists>u\<in>set (ts[i := DrainStatus]). will_mark u" using i by (metis set_update_memI will_mark.simps(1))
  with assms(1) c show ?thesis by (elim mailbox_invE) (rule mailbox_invI, auto)
qed

lemma inv_mark:
  assumes "mailbox_inv ts b" and i: "i < length ts" and t: "ts ! i = MarkTry who (message_admission b)"
    and "marker_due (message_admission b)"
  shows "mailbox_inv (ts[i := MarkPush who]) (b\<lparr>message_admission := message_admission b OR DRAIN_MARKER_SENT\<rparr>)"
proof -
  have c: "tally holds (ts[i := MarkPush who]) = tally holds ts" "tally pushes_marker (ts[i := MarkPush who]) = Suc (tally pushes_marker ts)"
    "sent_msgs (ts[i := MarkPush who]) = sent_msgs ts"
    using tally_update [OF i, of holds "MarkPush who"] tally_update [OF i, of pushes_marker "MarkPush who"]
      sent_msgs_update [OF i, of "MarkPush who"] t by simp_all
  have "\<not> marker_due (message_admission b OR DRAIN_MARKER_SENT)" by (simp add: marker_due_iff)
  with assms(1,4) c show ?thesis by (elim mailbox_invE) (rule mailbox_invI, auto simp: marker_due_iff)
qed

lemma inv_push_marker:
  assumes "mailbox_inv ts b" and i: "i < length ts" and t: "ts ! i = MarkPush who" and "channel_send Drain b = (ok, b1)"
  shows "mailbox_inv (ts[i := mark_done who ok]) b1"
proof -
  let ?ts = "ts[i := mark_done who ok]"
  have c: "tally holds ?ts = tally holds ts" "tally pushes_marker ts = Suc (tally pushes_marker ?ts)"
    "sent_msgs ?ts = sent_msgs ts"
    using tally_update [OF i, of holds "mark_done who ok"] tally_update [OF i, of pushes_marker "mark_done who ok"]
      sent_msgs_update [OF i, of "mark_done who ok"] t by simp_all
  from assms(1) obtain ms d where m: "admitted (message_admission b) = tally holds ts"
      "is_marked (message_admission b) \<longrightarrow> is_closed (message_admission b) \<and> admitted (message_admission b) = 0"
      "channel b = map Message ms @ replicate d Drain" "mset ms = sent_msgs ts"
      "tally pushes_marker ts + d \<le> of_bool (is_marked (message_admission b))" by (rule mailbox_invE)
  with c(2) have d: "d = 0" "is_marked (message_admission b)" "tally pushes_marker ?ts = 0"
    by (cases "is_marked (message_admission b)"; auto)+
  then have "\<not> marker_due (message_admission b)" by (simp add: marker_due_iff)
  with m c d assms(4) show ?thesis
    by (intro mailbox_invI [where ms = ms and d = "of_bool (receiving b)"]) (auto simp: channel_send_def split: if_splits)
qed


lemma task_inv:
  assumes "mailbox_inv ts b" and "i < length ts" and "length ts < 2 ^ 62"
    and "task_step boxes spurious (ts ! i) b = (t, b1)"
  shows "mailbox_inv (ts[i := t]) b1"
proof (cases "ts ! i")
  case (SendStatus m)
  with assms show ?thesis by (intro inv_quiet [OF assms(1,2)]) (auto split: if_splits)
next
  case (SendLoad m)
  with assms show ?thesis by (intro inv_quiet [OF assms(1,2)]) auto
next
  case (SendAdmit m state)
  consider "t = SendPush m" "b1 = b\<lparr>message_admission := message_admission b + 1\<rparr>" "state = message_admission b"
      "\<not> is_closed state" | "b1 = b" "\<not> holds t" "\<not> pushes_marker t" "sent_by t = {#}"
    using assms(4) SendAdmit by (fastforce simp: try_admit_message_def is_closed_and split: if_splits)
  then show ?thesis
  proof cases
    case 1
    with inv_admit [OF assms(1-3), of m] SendAdmit show ?thesis by simp
  next
    case 2
    with SendAdmit show ?thesis by (intro inv_quiet [OF assms(1,2)]) auto
  qed
next
  case (SendPush m)
  show ?thesis
  proof (cases "boxes m \<and> receiving b")
    case True
    with assms(4) SendPush inv_push [OF assms(1,2) SendPush] show ?thesis by (auto simp: channel_send_def)
  next
    case False
    with assms(4) SendPush show ?thesis
      by (intro inv_quiet [OF assms(1,2)]) (auto simp: channel_send_def split: if_splits)
  qed
next
  case (SendRelease r)
  with inv_release [OF assms(1,2)] assms(4) show ?thesis by simp
next
  case DrainClose
  with inv_close [OF assms(1,2)] assms(4) show ?thesis by auto
next
  case (MarkTry who state)
  note st = assms(4) [unfolded MarkTry task_step.simps send_drain_marker_def marker_guard]
  consider (skip) "\<not> marker_due state" | (mark) "marker_due state" "message_admission b = state \<and> \<not> spurious"
    | (again) "marker_due state" "\<not> (message_admission b = state \<and> \<not> spurious)" by blast
  then show ?thesis
  proof cases
    case skip
    then have "t = mark_done who True" "b1 = b" using st by simp_all
    with MarkTry skip show ?thesis by (intro inv_quiet [OF assms(1,2)]) simp_all
  next
    case mark
    with st MarkTry inv_mark [OF assms(1,2), of who] show ?thesis by simp
  next
    case again
    then have "t = MarkTry who (message_admission b)" "b1 = b" using st [unfolded if_not_P [OF again(2)]] by auto
    with MarkTry show ?thesis by (intro inv_quiet [OF assms(1,2)]) simp_all
  qed
next
  case (MarkPush who)
  with assms(4) show ?thesis
    by (auto simp: case_prod_unfold Let_def intro!: inv_push_marker [OF assms(1,2)] split: prod.splits)
qed (use assms in \<open>auto intro!: inv_quiet [OF assms(1,2)]\<close>)

lemma mailbox_step_inv:
  assumes "mailbox_step boxes (ts, b) (ts1, b1)" and "mailbox_inv ts b" and "length ts < 2 ^ 62"
  shows "mailbox_inv ts1 b1 \<and> length ts1 = length ts"
  using assms
proof (cases rule: mailbox_step.cases)
  case (task i spurious t)
  with task_inv [OF assms(2) _ assms(3)] show ?thesis by simp
qed (auto elim!: mailbox_invE intro!: mailbox_invI)

section \<open>Who a task is\<close>

fun result_msg :: "'m send_result \<Rightarrow> 'm" where
  "result_msg (Sent m) = m"
| "result_msg (Refused m) = m"
| "result_msg (Unboxable m) = m"

text \<open>The message of the call a task comes from; none for a call of \<open>drain\<close>.\<close>

fun origin :: "'m task \<Rightarrow> 'm option" where
  "origin (SendStatus m) = Some m"
| "origin (SendLoad m) = Some m"
| "origin (SendAdmit m w) = Some m"
| "origin (SendPush m) = Some m"
| "origin (SendRelease r) = Some (result_msg r)"
| "origin (MarkLoad who) = map_option result_msg who"
| "origin (MarkTry who w) = map_option result_msg who"
| "origin (MarkPush who) = map_option result_msg who"
| "origin (SendDone r) = Some (result_msg r)"
| "origin t = None"

lemma task_origin:
  "task_step boxes spurious t b = (t1, b1) \<Longrightarrow> origin t1 = origin t"
  by (cases t) (auto simp: try_admit_message_def release_admission_def send_drain_marker_def mark_done_def
      Let_def split: if_splits option.splits prod.splits)

lemma task_closed:
  assumes "mailbox_inv ts b" and "i < length ts" and "length ts < 2 ^ 62" and "task_step boxes spurious (ts ! i) b = (t, b1)"
    and "is_closed (message_admission b) \<or> origin (ts ! i) = None \<and> t \<noteq> DrainClose \<and> ts ! i = DrainClose"
  shows "is_closed (message_admission b1)"
proof (cases "ts ! i")
  case (SendAdmit m state)
  with assms(4,5) show ?thesis by (auto simp: try_admit_message_def is_closed_and split: if_splits)
next
  case (SendRelease r)
  with assms(2) have "0 < tally holds ts" by (intro tally_pos) auto
  with assms(1) have "0 < admitted (message_admission b)" by (simp add: mailbox_inv_def Let_def)
  from release_one(1) [OF this] SendRelease assms(4,5) show ?thesis
    by (auto simp: release_admission_def Let_def split: if_splits)
qed (use assms(4,5) in \<open>auto simp: send_drain_marker_def channel_send_def Let_def split: if_splits prod.splits\<close>)


definition mailbox_sys :: "'m task list \<Rightarrow> 'm task list \<Rightarrow> 'm mailbox \<Rightarrow> bool" where
  "mailbox_sys calls ts b \<longleftrightarrow>
     mailbox_inv ts b \<and> map origin ts = map origin calls \<and>
     (\<forall>t\<in>set ts. origin t = None \<and> t \<noteq> DrainClose \<longrightarrow> is_closed (message_admission b))"

lemma step_sys:
  assumes "mailbox_step boxes (ts, b) (ts1, b1)" and "mailbox_sys calls ts b" and "length calls < 2 ^ 62"
  shows "mailbox_sys calls ts1 b1"
proof -
  have l: "length ts < 2 ^ 62" using assms(2,3) by (metis length_map mailbox_sys_def)
  have inv: "mailbox_inv ts b" using assms(2) by (simp add: mailbox_sys_def)
  from mailbox_step_inv [OF assms(1) this l] have inv1: "mailbox_inv ts1 b1" by simp
  show ?thesis using assms(1)
  proof (cases rule: mailbox_step.cases)
    case (task i spurious t)
    note st = task(3)
    have o1: "map origin ts1 = map origin ts"
      using task_origin [OF st] task(1,2) by (simp add: map_update list_update_same_conv)
    have "is_closed (message_admission b1)" if "u \<in> set ts1" "origin u = None" "u \<noteq> DrainClose" for u
    proof -
      have "is_closed (message_admission b) \<or> origin (ts ! i) = None \<and> t \<noteq> DrainClose \<and> ts ! i = DrainClose"
      proof (cases "u = t \<and> ts ! i = DrainClose")
        case False
        then have "\<exists>v\<in>set ts. origin v = None \<and> v \<noteq> DrainClose"
          using that task(1,2) set_update_subset_insert [of ts i t] task_origin [OF st] by (metis insertE nth_mem subsetD)
        with assms(2) show ?thesis by (auto simp: mailbox_sys_def)
      qed (use that in auto)
      from task_closed [OF inv task(2) l st this] show ?thesis .
    qed
    with inv1 o1 assms(2) show ?thesis by (auto simp: mailbox_sys_def)
  qed (use assms(2) inv1 in \<open>auto simp: mailbox_sys_def\<close>)
qed

lemma tally_Cons [simp]: "tally P (t # ts) = of_bool (P t) + tally P ts" "tally P [] = 0"
  by (simp_all add: tally_def)

lemma sent_msgs_Cons [simp]: "sent_msgs (t # ts) = sent_by t + sent_msgs ts" "sent_msgs [] = {#}"
  by (simp_all add: sent_msgs_def)

lemma calls_sys:
  assumes "list_all is_call calls"
  shows "mailbox_sys calls calls mailbox_new"
proof -
  have "tally holds calls = 0 \<and> tally pushes_marker calls = 0 \<and> sent_msgs calls = {#} \<and>
      (\<forall>t\<in>set calls. origin t = None \<longrightarrow> t = DrainClose)"
    using assms
  proof (induction calls)
    case (Cons t ts)
    then show ?case by (cases t) auto
  qed simp
  moreover have "admitted 0 = 0" "\<not> is_marked 0" "\<not> is_closed 0" by (simp_all add: admitted_def is_marked_def is_closed_def)
  ultimately show ?thesis
    by (auto simp: mailbox_sys_def mailbox_new_def marker_due_iff intro!: mailbox_invI [where ms = "[]" and d = 0])
qed

lemma run_sys: "mailbox_run boxes calls x \<Longrightarrow> length calls < 2 ^ 62 \<Longrightarrow> mailbox_sys calls (fst x) (snd x)"
proof (induction rule: mailbox_run.induct)
  case run_new
  then show ?case by (simp add: calls_sys)
next
  case (run_step x y)
  then show ?case using step_sys [of boxes "fst x" "snd x" "fst y" "snd y"] by simp
qed

section \<open>A task alone\<close>

text \<open>How many steps a task still needs if no other runs.\<close>

fun steps_left :: "'m task \<times> 'm mailbox \<Rightarrow> nat" where
  "steps_left (SendStatus m, b) = 8"
| "steps_left (SendLoad m, b) = 7"
| "steps_left (SendAdmit m w, b) = (if message_admission b = w then 6 else 7)"
| "steps_left (SendPush m, b) = 5"
| "steps_left (SendRelease r, b) = 4"
| "steps_left (DrainClose, b) = 5"
| "steps_left (DrainStatus, b) = 4"
| "steps_left (MarkLoad who, b) = 3"
| "steps_left (MarkTry who w, b) = (if message_admission b = w then 2 else 3)"
| "steps_left (MarkPush who, b) = 1"
| "steps_left (SendDone r, b) = 0"
| "steps_left (DrainDone ok, b) = 0"

definition alone :: "('m \<Rightarrow> bool) \<Rightarrow> 'm task \<times> 'm mailbox \<Rightarrow> 'm task \<times> 'm mailbox" where
  "alone boxes x = task_step boxes False (fst x) (snd x)"

lemma steps_left_mark_done [simp]: "steps_left (mark_done who ok, b) = 0"
  by (simp add: mark_done_def split: option.split)

lemma alone_steps: "steps_left (alone boxes x) \<le> steps_left x - 1"
proof (cases x)
  case (Pair t b)
  then show ?thesis
    by (cases t) (auto simp: alone_def try_admit_message_def release_admission_def send_drain_marker_def
        channel_send_def Let_def)
qed

lemma alone_funpow: "steps_left ((alone boxes ^^ n) x) \<le> steps_left x - n"
proof (induction n)
  case (Suc n)
  then show ?case using alone_steps [of boxes "(alone boxes ^^ n) x"] by simp
qed simp

lemma steps_left_finished: "steps_left (t, b) = 0 \<Longrightarrow> finished t"
  by (cases t) (auto split: if_splits)

lemma steps_left_le: "steps_left (t, b) \<le> 8"
  by (cases t) auto

section \<open>Schedules\<close>

text \<open>The run in which the tasks with the given numbers step one after the other.\<close>

primrec run_schedule :: "('m \<Rightarrow> bool) \<Rightarrow> nat list \<Rightarrow> 'm task list \<times> 'm mailbox \<Rightarrow> 'm task list \<times> 'm mailbox" where
  "run_schedule boxes [] x = x"
| "run_schedule boxes (i # is) x =
     run_schedule boxes is
       (case task_step boxes False (fst x ! i) (snd x) of (t, b) \<Rightarrow> ((fst x)[i := t], b))"

lemma run_schedule_run:
  "mailbox_run boxes calls x \<Longrightarrow> list_all (\<lambda>i. i < length (fst x)) is \<Longrightarrow>
   mailbox_run boxes calls (run_schedule boxes is x)"
proof (induction "is" arbitrary: x)
  case (Cons i "is")
  obtain t b where st: "task_step boxes False (fst x ! i) (snd x) = (t, b)" by (cases "task_step boxes False (fst x ! i) (snd x)")
  with Cons.prems have "mailbox_step boxes (fst x, snd x) ((fst x)[i := t], b)" by (intro mailbox_step.task) auto
  then have "mailbox_run boxes calls ((fst x)[i := t], b)" using Cons.prems(1) by (auto intro: run_step)
  from Cons.IH [OF this] Cons.prems st show ?case by simp
qed simp

text \<open>A sender is admitted, the mailbox is closed and drained, and the sender sends the marker.\<close>

definition ex_schedule :: "nat list" where
  "ex_schedule = [0, 0, 0, 1, 1, 1, 1, 0, 0, 0, 0, 0]"

definition ex_mail :: "nat task list \<times> nat mailbox" where
  "ex_mail = run_schedule (\<lambda>m. True) ex_schedule ([SendStatus 7, DrainClose], mailbox_new)"

lemma ex_mail_run: "mailbox_run (\<lambda>m. True) [SendStatus 7, DrainClose] (fst ex_mail, snd ex_mail)"
proof -
  have "mailbox_run (\<lambda>m. True) [SendStatus 7, DrainClose] ([SendStatus 7, DrainClose], mailbox_new)"
    by (rule run_new) simp
  from run_schedule_run [OF this, of ex_schedule] show ?thesis by (simp add: ex_mail_def ex_schedule_def [THEN arg_cong [where f = "list_all P" for P]])
qed

lemma ex_mail_end:
  "fst ex_mail = [SendDone (Sent 7), DrainDone True]" "channel (snd ex_mail) = [Message 7, Drain]" "receiving (snd ex_mail)"
  by (simp_all add: ex_mail_def ex_schedule_def mailbox_new_def try_admit_message_def release_admission_def send_drain_marker_def
      channel_send_def mark_done_def MESSAGE_ADMISSION_CLOSED_def MESSAGE_ADMISSION_COUNT_MASK_def DRAIN_MARKER_SENT_def
      status_from_u8_def fetch_max_status_def status_compare)

section \<open>Properties\<close>

text \<open>
  C4. However senders and drainers interleave, there is at most one drain marker in
  the channel and no message after it; the messages before it are exactly those of the calls whose
  send succeeded, and a call that has returned \<open>Ok\<close> is one of them.
\<close>

theorem drain_protocol:
  assumes "mailbox_run boxes calls (ts, b)" and "length calls < 2 ^ 62"
  shows "\<exists>ms d. channel b = map Message ms @ replicate d Drain \<and> d \<le> 1 \<and> mset ms = sent_msgs ts \<and>
    (\<forall>i < length calls. \<forall>m. ts ! i = SendDone (Sent m) \<longrightarrow> calls ! i = SendStatus m \<and> m \<in> set ms)"
proof -
  have sys: "mailbox_sys calls ts b" using run_sys [OF assms] by simp
  then obtain ms d where m: "channel b = map Message ms @ replicate d Drain" "mset ms = sent_msgs ts"
      "tally pushes_marker ts + d \<le> of_bool (is_marked (message_admission b))"
    by (auto simp: mailbox_sys_def elim: mailbox_invE)
  have "list_all is_call calls" using assms(1) by (induction rule: mailbox_run.induct) auto
  have "calls ! i = SendStatus m \<and> m \<in> set ms" if "i < length calls" "ts ! i = SendDone (Sent m)" for i m
  proof -
    have o: "map origin ts = map origin calls" using sys by (simp add: mailbox_sys_def)
    then have l: "length ts = length calls" by (metis length_map)
    with o that have "origin (calls ! i) = Some m" by (metis nth_map origin.simps(9) result_msg.simps(1))
    moreover have "is_call (calls ! i)" using \<open>list_all is_call calls\<close> that(1) by (simp add: list_all_length)
    ultimately have "calls ! i = SendStatus m" by (cases "calls ! i") auto
    moreover have "sent_by (ts ! i) \<subseteq># sent_msgs ts"
      using sent_msgs_update [of i ts DrainClose] that(1) l by (metis add.right_neutral mset_subset_eq_add_right sent_by.simps(10))
    with that m(2) have "m \<in> set ms" by (metis mset_subset_eqD multi_member_last sent_by.simps(5) sent_result.simps(1) set_mset_mset)
    ultimately show ?thesis by simp
  qed
  moreover have "d \<le> 1" using m(3) by (cases "is_marked (message_admission b)") auto
  ultimately show ?thesis using m(1,2) by blast
qed

text \<open>
  C5. Draining always gets through: when every call has returned, one of them was
  \<open>drain\<close>, and the receiver is still there, the channel ends with the marker, right after all the
  messages whose send succeeded, and the mailbox admits no more.
\<close>

theorem drain_completes:
  assumes "mailbox_run boxes calls (ts, b)" and "length calls < 2 ^ 62"
    and "list_all finished ts" and "DrainClose \<in> set calls" and "receiving b"
  shows "\<exists>ms. channel b = map Message ms @ [Drain] \<and> mset ms = sent_msgs ts \<and>
    (\<forall>m. fst (try_admit_message False m (message_admission b) b) = SendDone (Refused m))"
proof -
  have sys: "mailbox_sys calls ts b" using run_sys [OF assms(1,2)] by simp
  have fin: "\<not> holds t \<and> \<not> pushes_marker t \<and> \<not> will_mark t" if "t \<in> set ts" for t
    using assms(3) that by (cases t) (auto simp: list_all_iff)
  have t: "tally holds ts = 0" "tally pushes_marker ts = 0" using fin by (auto simp: tally_none)
  have "None \<in> set (map origin ts)" using sys assms(4) by (force simp: mailbox_sys_def)
  then have c: "is_closed (message_admission b)"
    using sys assms(3) by (fastforce simp: mailbox_sys_def list_all_iff)
  have inv: "mailbox_inv ts b" using sys by (simp add: mailbox_sys_def)
  then have "\<not> marker_due (message_admission b)" "admitted (message_admission b) = 0"
    using fin t by (auto simp: mailbox_inv_def Let_def)
  with c have "is_marked (message_admission b)" by (simp add: marker_due_iff)
  with inv t assms(5) obtain ms where "channel b = map Message ms @ [Drain]" "mset ms = sent_msgs ts"
    by (auto simp: mailbox_inv_def Let_def)
  with c show ?thesis by (auto simp: try_admit_message_def is_closed_and)
qed

theorem drain_protocol_witness:
  "fst ex_mail ! 0 = SendDone (Sent 7) \<and> (\<exists>ms d. channel (snd ex_mail) = map Message ms @ replicate d Drain \<and> 7 \<in> set ms)"
proof -
  have "length [SendStatus 7, DrainClose :: nat task] < 2 ^ 62" by simp
  from drain_protocol [OF ex_mail_run this] obtain ms d
    where c: "channel (snd ex_mail) = map Message ms @ replicate d Drain"
      and s: "\<forall>i < length [SendStatus 7, DrainClose :: nat task]. \<forall>m. fst ex_mail ! i = SendDone (Sent m) \<longrightarrow>
        [SendStatus 7, DrainClose] ! i = SendStatus m \<and> m \<in> set ms" by blast
  have "fst ex_mail ! 0 = SendDone (Sent 7)" by (simp add: ex_mail_end)
  with s [rule_format, of 0 7] c show ?thesis by auto
qed

theorem drain_completes_witness:
  "\<exists>ms. channel (snd ex_mail) = map Message ms @ [Drain] \<and> mset ms = {#7#}"
proof -
  have "length [SendStatus 7, DrainClose :: nat task] < 2 ^ 62" by simp
  from drain_completes [OF ex_mail_run this] ex_mail_end(1,3)
  obtain ms where "channel (snd ex_mail) = map Message ms @ [Drain]" "mset ms = sent_msgs (fst ex_mail)" by auto
  moreover have "sent_msgs (fst ex_mail) = {#7#}" by (simp add: ex_mail_end)
  ultimately show ?thesis by metis
qed


end
