(* ===== verification/Actor_Registry.thy ===== *)
theory Actor_Registry
  imports Actor_Messages
begin

text \<open>
  The registry of named actors (\<open>ractor/src/registry.rs\<close>) and the registry of local process ids
  with its lifecycle listeners (\<open>ractor/src/registry/pid_registry.rs\<close>). An \<open>ActorCell\<close> is known by
  its id. Notifications are pairs of the listener and the event sent to its supervision port.
\<close>

section \<open>Named actors\<close>

type_synonym registry = "(string \<times> actor_id) list"

definition register :: "string \<Rightarrow> actor_id \<Rightarrow> registry \<Rightarrow> actor_registry_err + registry" where
  "register name actor reg =
     (case hm_get reg name of
        Some _ \<Rightarrow> Inl (AlreadyRegistered name)
      | None \<Rightarrow> Inr (hm_insert name actor reg))"

definition unregister :: "string \<Rightarrow> registry \<Rightarrow> registry" where
  "unregister name reg = hm_remove name reg"

definition where_is :: "string \<Rightarrow> registry \<Rightarrow> actor_id option" where
  "where_is name reg = hm_get reg name"

definition registered :: "registry \<Rightarrow> string list" where
  "registered reg = hm_keys reg"

lemma where_is_register:
  "register name actor reg = Inr reg1 \<Longrightarrow>
   where_is name reg = None \<and> where_is n reg1 = (if n = name then Some actor else where_is n reg)"
  by (auto simp: register_def where_is_def split: option.splits)

lemma register_taken:
  "register name actor reg = Inl err \<longleftrightarrow> where_is name reg \<noteq> None \<and> err = AlreadyRegistered name"
  by (auto simp: register_def where_is_def split: option.splits)

lemma where_is_unregister: "where_is n (unregister name reg) = (if n = name then None else where_is n reg)"
  by (simp add: unregister_def where_is_def)

lemma registered_where_is: "n \<in> set (registered reg) \<longleftrightarrow> where_is n reg \<noteq> None"
  by (auto simp: registered_def where_is_def map_of_eq_None_iff)

lemma registry_wf [simp]: "hm_wf reg \<Longrightarrow> hm_wf (unregister name reg)"
  "hm_wf reg \<Longrightarrow> register name actor reg = Inr reg1 \<Longrightarrow> hm_wf reg1"
  by (auto simp: unregister_def register_def split: option.splits)

section \<open>Process ids\<close>

record pid_registry =
  pids :: "(actor_id \<times> actor_id) list"
  pid_listeners :: "(actor_id \<times> actor_id) list"

definition pid_notify :: "pid_registry \<Rightarrow> pid_lifecycle_event \<Rightarrow> (actor_id \<times> pid_lifecycle_event) list" where
  "pid_notify r ev = map (\<lambda>l. (l, ev)) (hm_values (pid_listeners r))"

definition register_pid ::
    "actor_id \<Rightarrow> actor_id \<Rightarrow> pid_registry \<Rightarrow>
     actor_registry_err + (pid_registry \<times> (actor_id \<times> pid_lifecycle_event) list)" where
  "register_pid i actor r =
     (if is_local i then
        (case hm_get (pids r) i of
           Some _ \<Rightarrow> Inl (AlreadyRegistered (''PID '' @ fmt_actor_id i @ '' already alive''))
         | None \<Rightarrow> Inr (r\<lparr>pids := hm_insert i actor (pids r)\<rparr>, pid_notify r (PidSpawn actor)))
      else Inr (r, []))"

definition unregister_pid :: "actor_id \<Rightarrow> pid_registry \<Rightarrow> pid_registry \<times> (actor_id \<times> pid_lifecycle_event) list" where
  "unregister_pid i r =
     (if is_local i then
        (case hm_get (pids r) i of
           Some cell \<Rightarrow> (r\<lparr>pids := hm_remove i (pids r)\<rparr>, pid_notify r (PidTerminate cell))
         | None \<Rightarrow> (r, []))
      else (r, []))"

definition get_all_pids :: "pid_registry \<Rightarrow> actor_id list" where
  "get_all_pids r = hm_values (pids r)"

definition where_is_pid :: "actor_id \<Rightarrow> pid_registry \<Rightarrow> actor_id option" where
  "where_is_pid i r = (if is_local i then hm_get (pids r) i else None)"

definition pid_monitor :: "actor_id \<Rightarrow> pid_registry \<Rightarrow> pid_registry" where
  "pid_monitor actor r = r\<lparr>pid_listeners := hm_insert actor actor (pid_listeners r)\<rparr>"

definition pid_demonitor :: "actor_id \<Rightarrow> pid_registry \<Rightarrow> pid_registry" where
  "pid_demonitor actor r = r\<lparr>pid_listeners := hm_remove actor (pid_listeners r)\<rparr>"

definition pid_new :: pid_registry where
  "pid_new = \<lparr>pids = [], pid_listeners = []\<rparr>"

section \<open>What a listener sees\<close>

datatype pid_op = RegisterPid actor_id | UnregisterPid actor_id | MonitorPids actor_id | DemonitorPids actor_id

fun pid_step :: "pid_op \<Rightarrow> pid_registry \<Rightarrow> pid_registry \<times> (actor_id \<times> pid_lifecycle_event) list" where
  "pid_step (RegisterPid a) r = (case register_pid a a r of Inl err \<Rightarrow> (r, []) | Inr x \<Rightarrow> x)"
| "pid_step (UnregisterPid a) r = unregister_pid a r"
| "pid_step (MonitorPids a) r = (pid_monitor a r, [])"
| "pid_step (DemonitorPids a) r = (pid_demonitor a r, [])"

fun pid_run :: "pid_op list \<Rightarrow> pid_registry \<Rightarrow> pid_registry \<times> (actor_id \<times> pid_lifecycle_event) list" where
  "pid_run [] r = (r, [])"
| "pid_run (p # ps) r = (let (r1, es1) = pid_step p r; (r2, es2) = pid_run ps r1 in (r2, es1 @ es2))"

text \<open>A listener keeps its own set of live actors, which it updates with every event it gets.\<close>

fun pid_replay :: "actor_id \<Rightarrow> (actor_id \<times> pid_lifecycle_event) list \<Rightarrow> actor_id set \<Rightarrow> actor_id set" where
  "pid_replay l [] S = S"
| "pid_replay l ((to, PidSpawn a) # es) S = pid_replay l es (if to = l then insert a S else S)"
| "pid_replay l ((to, PidTerminate a) # es) S = pid_replay l es (if to = l then S - {a} else S)"

definition pid_ok :: "pid_registry \<Rightarrow> bool" where
  "pid_ok r \<longleftrightarrow> hm_wf (pids r) \<and> hm_wf (pid_listeners r) \<and>
     list_all (\<lambda>(i, c). c = i) (pids r) \<and> list_all (\<lambda>(i, c). c = i) (pid_listeners r)"

lemma pid_replay_append: "pid_replay l (es @ fs) S = pid_replay l fs (pid_replay l es S)"
  by (induction l es S rule: pid_replay.induct) auto

lemma update_same: "list_all (\<lambda>(i, c). c = i) m \<Longrightarrow> list_all (\<lambda>(i, c). c = i) (hm_insert a a m)"
  by (induction m) auto

lemma delete_same: "list_all (\<lambda>(i, c). c = i) m \<Longrightarrow> list_all (\<lambda>(i, c). c = i) (hm_remove a m)"
  by (induction m) auto

lemma same_get: "list_all (\<lambda>(i, c). c = i) m \<Longrightarrow> hm_get m a = Some c \<Longrightarrow> c = a"
  by (induction m) (auto split: if_splits)

lemma same_values: "list_all (\<lambda>(i, c). c = i) m \<Longrightarrow> hm_values m = hm_keys m"
  by (induction m) auto

lemma keys_insert: "fst ` set (hm_insert a b m) = insert a (fst ` set m)"
  by (induction m) auto

lemma delete_keys_set: "fst ` set (hm_remove a m) = fst ` set m - {a}"
  by (induction m) auto

lemma pid_step_ok: "pid_ok r \<Longrightarrow> pid_ok (fst (pid_step p r))"
  by (cases p) (auto simp: pid_ok_def register_pid_def unregister_pid_def pid_monitor_def pid_demonitor_def
      update_same delete_same split: option.split)

lemma pid_run_ok: "pid_ok r \<Longrightarrow> pid_ok (fst (pid_run ps r))"
  by (induction ps arbitrary: r) (auto simp: case_prod_unfold Let_def pid_step_ok)

lemma replay_events:
  "pid_replay l (map (\<lambda>x. (x, PidSpawn a)) ls) S = (if l \<in> set ls then insert a S else S)"
  "pid_replay l (map (\<lambda>x. (x, PidTerminate a)) ls) S = (if l \<in> set ls then S - {a} else S)"
  by (induction ls arbitrary: S) auto

lemma replay_pid_notify:
  assumes "l \<in> snd ` set (pid_listeners r)"
  shows "pid_replay l (pid_notify r (PidSpawn a)) S = insert a S"
    and "pid_replay l (pid_notify r (PidTerminate a)) S = S - {a}"
  unfolding pid_notify_def replay_events using assms by simp_all

lemma pid_step_view:
  assumes "pid_ok r" and "l \<in> set (hm_keys (pid_listeners r))"
  shows "pid_replay l (snd (pid_step p r)) (set (get_all_pids r)) = set (get_all_pids (fst (pid_step p r)))"
proof -
  have k: "l \<in> snd ` set (pid_listeners r)" using assms same_values [of "pid_listeners r"] by (metis pid_ok_def set_map)
  have v: "set (get_all_pids r) = set (hm_keys (pids r))" using assms(1) by (simp add: pid_ok_def get_all_pids_def same_values)
  show ?thesis
  proof (cases p)
    case (RegisterPid a)
    have "set (get_all_pids (r\<lparr>pids := hm_insert a a (pids r)\<rparr>)) = insert a (set (hm_keys (pids r)))"
      using assms(1) by (simp add: pid_ok_def get_all_pids_def same_values update_same keys_insert)
    with RegisterPid k v show ?thesis
      by (auto simp: register_pid_def replay_pid_notify split: option.split)
  next
    case (UnregisterPid a)
    have "set (get_all_pids (r\<lparr>pids := hm_remove a (pids r)\<rparr>)) = set (hm_keys (pids r)) - {a}"
      using assms(1) by (simp add: pid_ok_def get_all_pids_def same_values delete_same delete_keys_set)
    with UnregisterPid k v assms(1) show ?thesis
      by (auto simp: unregister_pid_def replay_pid_notify pid_ok_def dest: same_get split: option.split)
  qed (simp_all add: pid_monitor_def pid_demonitor_def get_all_pids_def)
qed


lemma pid_step_listening:
  "l \<in> set (hm_keys (pid_listeners r)) \<Longrightarrow> p \<noteq> DemonitorPids l \<Longrightarrow>
   l \<in> set (hm_keys (pid_listeners (fst (pid_step p r))))"
  by (cases p) (auto simp: register_pid_def unregister_pid_def pid_monitor_def pid_demonitor_def keys_insert
      delete_keys_set split: option.split)

lemma pid_run_view:
  "pid_ok r \<Longrightarrow> l \<in> set (hm_keys (pid_listeners r)) \<Longrightarrow> list_all (\<lambda>p. p \<noteq> DemonitorPids l) ps \<Longrightarrow>
   pid_replay l (snd (pid_run ps r)) (set (get_all_pids r)) = set (get_all_pids (fst (pid_run ps r)))"
proof (induction ps arbitrary: r)
  case (Cons p ps)
  then show ?case
    using Cons.IH [of "fst (pid_step p r)"] pid_step_view [of r l p] pid_step_listening [of l r p]
    by (simp add: case_prod_unfold Let_def pid_replay_append pid_step_ok)
qed simp

text \<open>
  C9. A listener of the pid registry that starts from the list of all pids and applies every
  event it is sent always has exactly the live local actors, as long as it keeps listening: no
  spawn or exit is missed or reported wrongly.
\<close>

theorem pid_view:
  assumes "r = fst (pid_run ps pid_new)" and "list_all (\<lambda>p. p \<noteq> DemonitorPids l) qs"
    and "pid_run qs (pid_monitor l r) = (r1, es)"
  shows "pid_replay l es (set (get_all_pids r)) = set (get_all_pids r1)"
proof -
  have "pid_ok r" using assms(1) pid_run_ok [of pid_new ps] by (simp add: pid_ok_def pid_new_def)
  then have "pid_ok (pid_monitor l r)" using pid_step_ok [of r "MonitorPids l"] by simp
  from pid_run_view [OF this _ assms(2)] assms(3) show ?thesis
    by (simp add: pid_monitor_def get_all_pids_def keys_insert)
qed

theorem pid_view_witness:
  "pid_replay (Local 9) (snd (pid_run [RegisterPid (Local 1), UnregisterPid (Local 0)]
      (pid_monitor (Local 9) (fst (pid_run [RegisterPid (Local 0)] pid_new))))) {Local 0} = {Local 1}"
proof -
  let ?r = "fst (pid_run [RegisterPid (Local 0)] pid_new)"
  let ?x = "pid_run [RegisterPid (Local 1), UnregisterPid (Local 0)] (pid_monitor (Local 9) ?r)"
  have "pid_replay (Local 9) (snd ?x) (set (get_all_pids ?r)) = set (get_all_pids (fst ?x))"
    by (rule pid_view [OF refl _ prod.collapse [symmetric]]) simp
  moreover have "set (get_all_pids ?r) = {Local 0}" "set (get_all_pids (fst ?x)) = {Local 1}"
    by (simp_all add: pid_new_def register_pid_def unregister_pid_def pid_monitor_def get_all_pids_def)
  ultimately show ?thesis by simp
qed

end
