(* ===== verification/Process_Groups.thy ===== *)
theory Process_Groups
  imports Actor_Status
begin

text \<open>
  Process groups (\<open>ractor/src/pg.rs\<close>): named groups of actors within scopes, monitors of groups and
  scopes, and the reverse index by which a stopping actor leaves everything.

  An \<open>ActorCell\<close> is known by its id, so the maps from ids to cells are sets of ids, kept as lists
  without duplicates. An operation reads the status of actors through its argument \<open>st\<close>; where
  the source reads it more than once, once under a lock, there is one argument per read.
\<close>

section \<open>Sets as lists\<close>

definition hs_insert :: "'a \<Rightarrow> 'a list \<Rightarrow> 'a list" where
  "hs_insert x xs = (if x \<in> set xs then xs else xs @ [x])"

abbreviation hs_remove :: "'a \<Rightarrow> 'a list \<Rightarrow> 'a list" where
  "hs_remove \<equiv> removeAll"

lemma set_hs_insert [simp]: "set (hs_insert x xs) = insert x (set xs)"
  by (auto simp: hs_insert_def)

lemma hs_insert_not_Nil [simp]: "hs_insert x xs \<noteq> []"
  by (auto simp: hs_insert_def)

lemma distinct_hs_insert [simp]: "distinct (hs_insert x xs) \<longleftrightarrow> distinct xs"
  by (auto simp: hs_insert_def)

lemma set_fold_hs_insert [simp]: "set (fold hs_insert xs ys) = set xs \<union> set ys"
  by (induction xs arbitrary: ys) auto

lemma removeAll_Nil_iff: "removeAll a xs = [] \<longleftrightarrow> set xs \<subseteq> {a}"
  by (metis Diff_eq_empty_iff set_empty set_removeAll)

section \<open>State\<close>

record scope_group_key =
  key_scope :: string
  key_group :: string

definition DEFAULT_SCOPE :: string where
  "DEFAULT_SCOPE = ''__default_scope__''"

definition ALL_SCOPES_NOTIFICATION :: string where
  "ALL_SCOPES_NOTIFICATION = ''__world_scope__''"

definition ALL_GROUPS_NOTIFICATION :: string where
  "ALL_GROUPS_NOTIFICATION = ''__world_group_''"

record group_state =
  g_members :: "actor_id list"
  g_listeners :: "actor_id list"

record actor_relations =
  memberships :: "scope_group_key list"
  group_monitors :: "scope_group_key list"
  world_monitors :: "scope_group_key list"

record pg_state =
  pg_map :: "(scope_group_key \<times> group_state) list"
  pg_index :: "(string \<times> string list) list"
  world_listeners :: "(scope_group_key \<times> actor_id list) list"
  relations :: "(actor_id \<times> actor_relations) list"

type_synonym notification = "actor_id \<times> group_change_message"

definition no_group :: group_state where
  "no_group = \<lparr>g_members = [], g_listeners = []\<rparr>"

definition no_relations :: actor_relations where
  "no_relations = \<lparr>memberships = [], group_monitors = [], world_monitors = []\<rparr>"

definition pg_new :: pg_state where
  "pg_new = \<lparr>pg_map = [], pg_index = [], world_listeners = [], relations = []\<rparr>"

definition relations_empty :: "actor_relations \<Rightarrow> bool" where
  "relations_empty r \<longleftrightarrow> memberships r = [] \<and> group_monitors r = [] \<and> world_monitors r = []"

definition group_empty :: "group_state \<Rightarrow> bool" where
  "group_empty g \<longleftrightarrow> g_members g = [] \<and> g_listeners g = []"

text \<open>\<open>entry(key).or_default()\<close> of the three maps.\<close>

definition group_at :: "pg_state \<Rightarrow> scope_group_key \<Rightarrow> group_state" where
  "group_at s k = (case hm_get (pg_map s) k of Some g \<Rightarrow> g | None \<Rightarrow> no_group)"

definition relations_at :: "pg_state \<Rightarrow> actor_id \<Rightarrow> actor_relations" where
  "relations_at s a = (case hm_get (relations s) a of Some r \<Rightarrow> r | None \<Rightarrow> no_relations)"

definition world_at :: "pg_state \<Rightarrow> scope_group_key \<Rightarrow> actor_id list" where
  "world_at s k = (case hm_get (world_listeners s) k of Some ls \<Rightarrow> ls | None \<Rightarrow> [])"

definition put_group :: "scope_group_key \<Rightarrow> group_state \<Rightarrow> pg_state \<Rightarrow> pg_state" where
  "put_group k g s = s\<lparr>pg_map := hm_insert k g (pg_map s)\<rparr>"

definition put_relations :: "actor_id \<Rightarrow> actor_relations \<Rightarrow> pg_state \<Rightarrow> pg_state" where
  "put_relations a r s = s\<lparr>relations := hm_insert a r (relations s)\<rparr>"

definition put_world :: "scope_group_key \<Rightarrow> actor_id list \<Rightarrow> pg_state \<Rightarrow> pg_state" where
  "put_world k ls s = s\<lparr>world_listeners := hm_insert k ls (world_listeners s)\<rparr>"

section \<open>Helpers\<close>

definition remove_empty_actor_relations :: "actor_id \<Rightarrow> pg_state \<Rightarrow> pg_state" where
  "remove_empty_actor_relations a s =
     (if relations_empty (relations_at s a) then s\<lparr>relations := hm_remove a (relations s)\<rparr> else s)"

definition add_group_to_index :: "scope_group_key \<Rightarrow> pg_state \<Rightarrow> pg_state" where
  "add_group_to_index k s =
     s\<lparr>pg_index := hm_insert (key_scope k)
        (hs_insert (key_group k) (case hm_get (pg_index s) (key_scope k) of Some gs \<Rightarrow> gs | None \<Rightarrow> []))
        (pg_index s)\<rparr>"

definition remove_group_from_index :: "scope_group_key \<Rightarrow> pg_state \<Rightarrow> pg_state" where
  "remove_group_from_index k s =
     (case hm_get (pg_index s) (key_scope k) of
        None \<Rightarrow> s
      | Some gs \<Rightarrow>
          let gs1 = hs_remove (key_group k) gs
          in s\<lparr>pg_index := (if gs1 = [] then hm_remove (key_scope k) (pg_index s)
                             else hm_insert (key_scope k) gs1 (pg_index s))\<rparr>)"

text \<open>The end of several operations: an entry without members and listeners is removed.\<close>

definition drop_empty_group :: "scope_group_key \<Rightarrow> pg_state \<Rightarrow> pg_state" where
  "drop_empty_group k s =
     (case hm_get (pg_map s) k of
        None \<Rightarrow> s
      | Some g \<Rightarrow> if group_empty g then s\<lparr>pg_map := hm_remove k (pg_map s)\<rparr> else s)"

definition notify_all :: "actor_id list \<Rightarrow> group_change_message \<Rightarrow> notification list" where
  "notify_all ls c = map (\<lambda>l. (l, c)) ls"

definition notify_world_listeners ::
    "pg_state \<Rightarrow> string \<Rightarrow> string \<Rightarrow> actor_id list \<Rightarrow> bool \<Rightarrow> notification list" where
  "notify_world_listeners s sc gr actors is_join =
     (let scoped_key = \<lparr>key_scope = sc, key_group = ALL_GROUPS_NOTIFICATION\<rparr>;
          global_key = \<lparr>key_scope = ALL_SCOPES_NOTIFICATION, key_group = ALL_GROUPS_NOTIFICATION\<rparr>;
          change = (if is_join then GroupJoin sc gr actors else GroupLeave sc gr actors)
      in notify_all (world_at s scoped_key) change @ notify_all (world_at s global_key) change)"

section \<open>Joining\<close>

text \<open>
  One turn of the loop over the actors: an actor already processed is skipped; one that is not
  stopping gets the membership in its relations; a stopping one without relations is kept for
  the cleanup.
\<close>

record join_loop =
  processed :: "actor_id list"
  accepted :: "actor_id list"
  stopped_relations :: "actor_id list"

definition join_visit ::
    "actor_status \<Rightarrow> scope_group_key \<Rightarrow> actor_id \<Rightarrow> join_loop \<times> pg_state \<Rightarrow> join_loop \<times> pg_state" where
  "join_visit st k a x =
     (case x of (jl, s) \<Rightarrow>
        if a \<in> set (processed jl) then (jl, s)
        else
          let jl1 = jl\<lparr>processed := hs_insert a (processed jl)\<rparr>; r = relations_at s a
          in if st \<le> Draining
             then (jl1\<lparr>accepted := hs_insert a (accepted jl)\<rparr>,
                   put_relations a (r\<lparr>memberships := hs_insert k (memberships r)\<rparr>) s)
             else (if relations_empty r then jl1\<lparr>stopped_relations := stopped_relations jl @ [a]\<rparr> else jl1,
                   put_relations a r s))"

fun join_actors ::
    "(actor_id \<Rightarrow> actor_status) \<Rightarrow> scope_group_key \<Rightarrow> actor_id list \<Rightarrow> join_loop \<times> pg_state \<Rightarrow> join_loop \<times> pg_state" where
  "join_actors st k [] x = x"
| "join_actors st k (a # as) x = join_actors st k as (join_visit (st a) k a x)"

definition join_start :: join_loop where
  "join_start = \<lparr>processed = [], accepted = [], stopped_relations = []\<rparr>"

text \<open>The end of the critical section: the accepted actors become members.\<close>

definition join_commit :: "scope_group_key \<Rightarrow> actor_id list \<Rightarrow> pg_state \<Rightarrow> pg_state" where
  "join_commit k joined s =
     (let g = group_at s k; s1 = put_group k (g\<lparr>g_members := fold hs_insert joined (g_members g)\<rparr>) s
      in if joined \<noteq> [] then add_group_to_index k s1 else s1)"

definition join_scoped ::
    "(actor_id \<Rightarrow> actor_status) \<Rightarrow> (actor_id \<Rightarrow> actor_status) \<Rightarrow> string \<Rightarrow> string \<Rightarrow> actor_id list \<Rightarrow> pg_state \<Rightarrow>
     pg_state \<times> notification list" where
  "join_scoped st st1 sc gr actors0 s =
     (let k = \<lparr>key_scope = sc, key_group = gr\<rparr>;
          actors = filter (\<lambda>a. st a \<le> Draining) actors0
      in if actors = [] then (s, [])
         else
           let (jl, s1) = join_actors st1 k actors (join_start, put_group k (group_at s k) s);
               joined = filter (\<lambda>a. a \<in> set (accepted jl)) actors;
               s2 = join_commit k joined s1;
               listeners = g_listeners (group_at s2 k);
               s3 = fold remove_empty_actor_relations (stopped_relations jl) s2
           in if joined = [] then (drop_empty_group k s3, [])
              else (s3, notify_all listeners (GroupJoin sc gr joined) @
                        notify_world_listeners s3 sc gr joined True))"

section \<open>Leaving\<close>

definition leave_one :: "scope_group_key \<Rightarrow> actor_id \<Rightarrow> pg_state \<Rightarrow> pg_state" where
  "leave_one k a s =
     (let s1 = (case hm_get (relations s) a of
            None \<Rightarrow> s
          | Some r \<Rightarrow> put_relations a (r\<lparr>memberships := hs_remove k (memberships r)\<rparr>) s);
          g = group_at s1 k
      in put_group k (g\<lparr>g_members := hs_remove a (g_members g)\<rparr>) s1)"

text \<open>A group without members leaves the index, and the map if it has no listeners either.\<close>

definition retire_group :: "scope_group_key \<Rightarrow> pg_state \<Rightarrow> pg_state" where
  "retire_group k s =
     (let g = group_at s k
      in if g_members g = [] then
           let s1 = remove_group_from_index k s
           in if g_listeners g = [] then s1\<lparr>pg_map := hm_remove k (pg_map s1)\<rparr> else s1
         else s)"

definition leave_scoped ::
    "string \<Rightarrow> string \<Rightarrow> actor_id list \<Rightarrow> pg_state \<Rightarrow> pg_state \<times> notification list" where
  "leave_scoped sc gr actors s =
     (let k = \<lparr>key_scope = sc, key_group = gr\<rparr>
      in case hm_get (pg_map s) k of
           None \<Rightarrow> (s, [])
         | Some g0 \<Rightarrow>
             let s1 = fold (leave_one k) actors s;
                 listeners = g_listeners (group_at s1 k);
                 s2 = retire_group k s1
             in (s2, notify_all listeners (GroupLeave sc gr actors) @
                     notify_world_listeners s2 sc gr actors False))"

text \<open>\<open>leave_all\<close>: the memberships are taken out of the relations first; then each group is left.\<close>

definition take_memberships :: "actor_id \<Rightarrow> pg_state \<Rightarrow> scope_group_key list \<times> pg_state" where
  "take_memberships a s =
     (case hm_get (relations s) a of
        None \<Rightarrow> ([], s)
      | Some r \<Rightarrow> (memberships r, put_relations a (r\<lparr>memberships := []\<rparr>) s))"

definition leave_key ::
    "actor_id \<Rightarrow> scope_group_key \<Rightarrow> pg_state \<Rightarrow> pg_state \<times> (scope_group_key \<times> actor_id list) list" where
  "leave_key a k s =
     (case hm_get (pg_map s) k of
        None \<Rightarrow> (s, [])
      | Some g \<Rightarrow>
          if a \<in> set (g_members g) then
            (retire_group k (put_group k (g\<lparr>g_members := hs_remove a (g_members g)\<rparr>) s), [(k, g_listeners g)])
          else (s, []))"

fun leave_keys ::
    "actor_id \<Rightarrow> scope_group_key list \<Rightarrow> pg_state \<Rightarrow> pg_state \<times> (scope_group_key \<times> actor_id list) list" where
  "leave_keys a [] s = (s, [])"
| "leave_keys a (k # ks) s =
     (let (s1, ev1) = leave_key a k s; (s2, ev2) = leave_keys a ks s1 in (s2, ev1 @ ev2))"

definition leave_all :: "actor_id \<Rightarrow> pg_state \<Rightarrow> pg_state \<times> notification list" where
  "leave_all a s =
     (case hm_get (relations s) a of
        None \<Rightarrow> (s, [])
      | Some _ \<Rightarrow>
          let (ks, s1) = take_memberships a s;
              (s2, removal_events) = leave_keys a ks s1;
              s3 = remove_empty_actor_relations a s2
          in (s3, concat (map (\<lambda>(k, listeners).
                notify_all listeners (GroupLeave (key_scope k) (key_group k) [a]) @
                notify_world_listeners s3 (key_scope k) (key_group k) [a] False) removal_events)))"


definition join :: "(actor_id \<Rightarrow> actor_status) \<Rightarrow> (actor_id \<Rightarrow> actor_status) \<Rightarrow> string \<Rightarrow> actor_id list \<Rightarrow> pg_state \<Rightarrow>
    pg_state \<times> notification list" where
  "join st st1 gr actors s = join_scoped st st1 DEFAULT_SCOPE gr actors s"

definition leave :: "string \<Rightarrow> actor_id list \<Rightarrow> pg_state \<Rightarrow> pg_state \<times> notification list" where
  "leave gr actors s = leave_scoped DEFAULT_SCOPE gr actors s"

section \<open>Queries\<close>

definition get_scoped_members :: "string \<Rightarrow> string \<Rightarrow> pg_state \<Rightarrow> actor_id list" where
  "get_scoped_members sc gr s =
     (case hm_get (pg_map s) \<lparr>key_scope = sc, key_group = gr\<rparr> of Some g \<Rightarrow> g_members g | None \<Rightarrow> [])"

definition get_scoped_local_members :: "string \<Rightarrow> string \<Rightarrow> pg_state \<Rightarrow> actor_id list" where
  "get_scoped_local_members sc gr s =
     (case hm_get (pg_map s) \<lparr>key_scope = sc, key_group = gr\<rparr> of
        Some g \<Rightarrow> filter is_local (g_members g) | None \<Rightarrow> [])"

definition get_members :: "string \<Rightarrow> pg_state \<Rightarrow> actor_id list" where
  "get_members gr s = get_scoped_members DEFAULT_SCOPE gr s"

definition get_local_members :: "string \<Rightarrow> pg_state \<Rightarrow> actor_id list" where
  "get_local_members gr s = get_scoped_local_members DEFAULT_SCOPE gr s"

definition which_scopes_and_groups :: "pg_state \<Rightarrow> scope_group_key list" where
  "which_scopes_and_groups s = map fst (filter (\<lambda>(k, g). g_members g \<noteq> []) (pg_map s))"

text \<open>\<open>sort_unstable\<close> and \<open>dedup\<close>.\<close>

definition which_groups :: "pg_state \<Rightarrow> string list" where
  "which_groups s = remdups_adj (sort (map key_group (which_scopes_and_groups s)))"

definition which_scopes :: "pg_state \<Rightarrow> string list" where
  "which_scopes s = remdups_adj (sort (map key_scope (which_scopes_and_groups s)))"

definition which_scoped_groups :: "string \<Rightarrow> pg_state \<Rightarrow> string list" where
  "which_scoped_groups sc s = (case hm_get (pg_index s) sc of Some gs \<Rightarrow> gs | None \<Rightarrow> [])"

section \<open>Monitoring\<close>

text \<open>The part of \<open>monitor\<close> and of \<open>monitor_scope\<close> under the locks of the entry and of the relations.\<close>

definition monitor_enter :: "actor_status \<Rightarrow> scope_group_key \<Rightarrow> actor_id \<Rightarrow> pg_state \<Rightarrow> pg_state" where
  "monitor_enter st k a s =
     (let s1 = put_group k (group_at s k) (put_relations a (relations_at s a) s);
          g = group_at s1 k; r = relations_at s1 a
      in if st \<le> Draining then
           put_relations a (r\<lparr>group_monitors := hs_insert k (group_monitors r)\<rparr>)
             (put_group k (g\<lparr>g_listeners := hs_insert a (g_listeners g)\<rparr>) s1)
         else s1)"

definition monitor ::
    "actor_status \<Rightarrow> actor_status \<Rightarrow> string \<Rightarrow> actor_id \<Rightarrow> pg_state \<Rightarrow> pg_state" where
  "monitor st st1 gr a s =
     (let k = \<lparr>key_scope = DEFAULT_SCOPE, key_group = gr\<rparr>; s2 = monitor_enter st k a s
      in if st1 \<ge> Stopping then remove_empty_actor_relations a (drop_empty_group k s2) else s2)"

definition monitor_scope_enter :: "actor_status \<Rightarrow> scope_group_key \<Rightarrow> actor_id \<Rightarrow> pg_state \<Rightarrow> pg_state" where
  "monitor_scope_enter st k a s =
     (let s1 = put_world k (world_at s k) (put_relations a (relations_at s a) s); r = relations_at s1 a
      in if st \<le> Draining then
           put_relations a (r\<lparr>world_monitors := hs_insert k (world_monitors r)\<rparr>)
             (put_world k (hs_insert a (world_at s1 k)) s1)
         else s1)"

definition drop_empty_world :: "scope_group_key \<Rightarrow> pg_state \<Rightarrow> pg_state" where
  "drop_empty_world k s =
     (if world_at s k = [] then s\<lparr>world_listeners := hm_remove k (world_listeners s)\<rparr> else s)"

definition monitor_scope ::
    "actor_status \<Rightarrow> actor_status \<Rightarrow> string \<Rightarrow> actor_id \<Rightarrow> pg_state \<Rightarrow> pg_state" where
  "monitor_scope st st1 sc a s =
     (let k = \<lparr>key_scope = sc, key_group = ALL_GROUPS_NOTIFICATION\<rparr>; s2 = monitor_scope_enter st k a s
      in if st1 \<ge> Stopping then remove_empty_actor_relations a (drop_empty_world k s2) else s2)"

text \<open>Removing a monitor from one group, and from one scope; used one by one and at shutdown.\<close>

definition unlisten_group :: "actor_id \<Rightarrow> scope_group_key \<Rightarrow> pg_state \<Rightarrow> pg_state" where
  "unlisten_group a k s =
     (case hm_get (pg_map s) k of
        None \<Rightarrow> s
      | Some g \<Rightarrow> drop_empty_group k (put_group k (g\<lparr>g_listeners := hs_remove a (g_listeners g)\<rparr>) s))"

definition unlisten_world :: "actor_id \<Rightarrow> scope_group_key \<Rightarrow> pg_state \<Rightarrow> pg_state" where
  "unlisten_world a k s =
     (case hm_get (world_listeners s) k of
        None \<Rightarrow> s
      | Some ls \<Rightarrow>
          let ls1 = hs_remove a ls
          in s\<lparr>world_listeners := (if ls1 = [] then hm_remove k (world_listeners s)
                                   else hm_insert k ls1 (world_listeners s))\<rparr>)"

definition demonitor :: "string \<Rightarrow> actor_id \<Rightarrow> pg_state \<Rightarrow> pg_state" where
  "demonitor gr a s =
     (let k = \<lparr>key_scope = DEFAULT_SCOPE, key_group = gr\<rparr>;
          s1 = (case hm_get (relations s) a of
                  None \<Rightarrow> s
                | Some r \<Rightarrow> put_relations a (r\<lparr>group_monitors := hs_remove k (group_monitors r)\<rparr>) s)
      in unlisten_group a k s1)"

definition demonitor_scope :: "string \<Rightarrow> actor_id \<Rightarrow> pg_state \<Rightarrow> pg_state" where
  "demonitor_scope sc a s =
     (let k = \<lparr>key_scope = sc, key_group = ALL_GROUPS_NOTIFICATION\<rparr>;
          s1 = (case hm_get (relations s) a of
                  None \<Rightarrow> s
                | Some r \<Rightarrow> put_relations a (r\<lparr>world_monitors := hs_remove k (world_monitors r)\<rparr>) s)
      in unlisten_world a k s1)"

definition take_monitors ::
    "actor_id \<Rightarrow> pg_state \<Rightarrow> (scope_group_key list \<times> scope_group_key list) \<times> pg_state" where
  "take_monitors a s =
     (case hm_get (relations s) a of
        None \<Rightarrow> (([], []), s)
      | Some r \<Rightarrow>
          ((group_monitors r, world_monitors r),
           put_relations a (r\<lparr>group_monitors := [], world_monitors := []\<rparr>) s))"

definition demonitor_all :: "actor_id \<Rightarrow> pg_state \<Rightarrow> pg_state" where
  "demonitor_all a s =
     (let ((gs, ws), s1) = take_monitors a s
      in fold (unlisten_world a) ws (fold (unlisten_group a) gs s1))"


section \<open>What the operations do to the readings of the state\<close>

lemma record_eqs [simp]:
  "group_empty g \<longleftrightarrow> g = no_group" "relations_empty r \<longleftrightarrow> r = no_relations"
  "g_members no_group = []" "g_listeners no_group = []"
  "memberships no_relations = []" "group_monitors no_relations = []" "world_monitors no_relations = []"
  by (cases g; cases r; simp add: group_empty_def relations_empty_def no_group_def no_relations_def)+

lemma at_put [simp]:
  "group_at (put_group k g s) k1 = (if k1 = k then g else group_at s k1)"
  "group_at (put_relations a r s) k1 = group_at s k1" "group_at (put_world k ls s) k1 = group_at s k1"
  "relations_at (put_group k g s) b = relations_at s b"
  "relations_at (put_relations a r s) b = (if b = a then r else relations_at s b)"
  "relations_at (put_world k ls s) b = relations_at s b"
  "world_at (put_group k g s) k1 = world_at s k1" "world_at (put_relations a r s) k1 = world_at s k1"
  "world_at (put_world k ls s) k1 = (if k1 = k then ls else world_at s k1)"
  "which_scoped_groups sc (put_group k g s) = which_scoped_groups sc s"
  "which_scoped_groups sc (put_relations a r s) = which_scoped_groups sc s"
  "which_scoped_groups sc (put_world k ls s) = which_scoped_groups sc s"
  by (simp_all add: put_group_def put_relations_def put_world_def group_at_def relations_at_def world_at_def
      which_scoped_groups_def)

lemma at_remove_empty [simp]:
  "relations_at (remove_empty_actor_relations a s) b = relations_at s b"
  "group_at (remove_empty_actor_relations a s) k = group_at s k" "world_at (remove_empty_actor_relations a s) k = world_at s k"
  "which_scoped_groups sc (remove_empty_actor_relations a s) = which_scoped_groups sc s"
  by (auto simp: remove_empty_actor_relations_def relations_at_def group_at_def world_at_def which_scoped_groups_def
      split: option.splits)

lemma at_drop_empty [simp]:
  "group_at (drop_empty_group k s) k1 = group_at s k1" "relations_at (drop_empty_group k s) b = relations_at s b"
  "world_at (drop_empty_group k s) k1 = world_at s k1"
  "which_scoped_groups sc (drop_empty_group k s) = which_scoped_groups sc s"
  by (auto simp: drop_empty_group_def relations_at_def group_at_def world_at_def which_scoped_groups_def split: option.splits)

lemma at_index [simp]:
  "group_at (add_group_to_index k s) k1 = group_at s k1" "relations_at (add_group_to_index k s) b = relations_at s b"
  "world_at (add_group_to_index k s) k1 = world_at s k1"
  "group_at (remove_group_from_index k s) k1 = group_at s k1" "relations_at (remove_group_from_index k s) b = relations_at s b"
  "world_at (remove_group_from_index k s) k1 = world_at s k1"
  by (auto simp: add_group_to_index_def remove_group_from_index_def relations_at_def group_at_def world_at_def Let_def
      split: option.splits)

lemma index_add [simp]:
  "set (which_scoped_groups sc (add_group_to_index k s)) =
   (if sc = key_scope k then insert (key_group k) (set (which_scoped_groups sc s)) else set (which_scoped_groups sc s))"
  by (auto simp: add_group_to_index_def which_scoped_groups_def split: option.splits)

lemma index_remove [simp]:
  "set (which_scoped_groups sc (remove_group_from_index k s)) =
   (if sc = key_scope k then set (which_scoped_groups sc s) - {key_group k} else set (which_scoped_groups sc s))"
  by (auto simp: remove_group_from_index_def which_scoped_groups_def Let_def removeAll_Nil_iff split: option.splits)

lemma group_at_delete:
  "group_at (s\<lparr>pg_map := hm_remove k (pg_map s)\<rparr>) k1 = (if k1 = k then no_group else group_at s k1)"
  by (simp add: group_at_def)

lemma at_retire [simp]:
  "group_at (retire_group k s) k1 = group_at s k1" "relations_at (retire_group k s) b = relations_at s b"
  "world_at (retire_group k s) k1 = world_at s k1"
proof -
  have "group_at s k = no_group" if "g_members (group_at s k) = []" "g_listeners (group_at s k) = []"
    using that by (cases "group_at s k") (simp add: no_group_def)
  then show "group_at (retire_group k s) k1 = group_at s k1"
    by (auto simp: retire_group_def Let_def group_at_delete)
  show "relations_at (retire_group k s) b = relations_at s b" "world_at (retire_group k s) k1 = world_at s k1"
    by (simp_all add: retire_group_def Let_def relations_at_def world_at_def remove_group_from_index_def split: option.split)
qed

lemma index_retire [simp]:
  "set (which_scoped_groups sc (retire_group k s)) =
   (if sc = key_scope k \<and> g_members (group_at s k) = [] then set (which_scoped_groups sc s) - {key_group k}
    else set (which_scoped_groups sc s))"
proof -
  have "which_scoped_groups sc (s\<lparr>pg_map := m\<rparr>) = which_scoped_groups sc s" for s m
    by (simp add: which_scoped_groups_def)
  then show ?thesis by (auto simp: retire_group_def Let_def)
qed


section \<open>Forward and reverse index agree\<close>

abbreviation is_member :: "pg_state \<Rightarrow> actor_id \<Rightarrow> scope_group_key \<Rightarrow> bool" where
  "is_member s a k \<equiv> a \<in> set (g_members (group_at s k))"

abbreviation is_listener :: "pg_state \<Rightarrow> actor_id \<Rightarrow> scope_group_key \<Rightarrow> bool" where
  "is_listener s a k \<equiv> a \<in> set (g_listeners (group_at s k))"

abbreviation is_world_listener :: "pg_state \<Rightarrow> actor_id \<Rightarrow> scope_group_key \<Rightarrow> bool" where
  "is_world_listener s a k \<equiv> a \<in> set (world_at s k)"

definition pg_consistent :: "pg_state \<Rightarrow> bool" where
  "pg_consistent s \<longleftrightarrow>
     (\<forall>a k. is_member s a k \<longleftrightarrow> k \<in> set (memberships (relations_at s a))) \<and>
     (\<forall>a k. is_listener s a k \<longleftrightarrow> k \<in> set (group_monitors (relations_at s a))) \<and>
     (\<forall>a k. is_world_listener s a k \<longleftrightarrow> k \<in> set (world_monitors (relations_at s a))) \<and>
     (\<forall>k. key_group k \<in> set (which_scoped_groups (key_scope k) s) \<longleftrightarrow> g_members (group_at s k) \<noteq> [])"

text \<open>The readings of one state are those of another, up to the given changes.\<close>

definition pg_same :: "pg_state \<Rightarrow> pg_state \<Rightarrow> bool" where
  "pg_same s s1 \<longleftrightarrow> group_at s1 = group_at s \<and> world_at s1 = world_at s \<and> relations_at s1 = relations_at s \<and>
     (\<forall>sc. set (which_scoped_groups sc s1) = set (which_scoped_groups sc s))"

lemma pg_same_refl [simp]: "pg_same s s"
  by (simp add: pg_same_def)

lemma pg_same_trans: "pg_same s s1 \<Longrightarrow> pg_same s1 s2 \<Longrightarrow> pg_same s s2"
  by (simp add: pg_same_def)

lemma pg_same_consistent: "pg_same s s1 \<Longrightarrow> pg_consistent s1 = pg_consistent s"
  by (simp add: pg_same_def pg_consistent_def)

lemma pg_same_steps [simp]:
  "pg_same s (remove_empty_actor_relations a s)" "pg_same s (drop_empty_group k s)"
  "pg_same s (put_group k (group_at s k) s)" "pg_same s (put_relations a (relations_at s a) s)"
  "pg_same s (put_world k (world_at s k) s)"
  by (auto simp: pg_same_def fun_eq_iff)

lemma pg_same_fold: "pg_same s (fold remove_empty_actor_relations as s)"
proof (induction as arbitrary: s)
  case (Cons a as)
  then show ?case using pg_same_trans [OF pg_same_steps(1) Cons.IH] by simp
qed simp

lemma join_visit_at:
  assumes "join_visit st k a (jl, s) = (jl1, s1)"
  shows "group_at s1 = group_at s" "world_at s1 = world_at s" "which_scoped_groups sc s1 = which_scoped_groups sc s"
    and "group_monitors (relations_at s1 b) = group_monitors (relations_at s b)"
    and "world_monitors (relations_at s1 b) = world_monitors (relations_at s b)"
    and "k1 \<in> set (memberships (relations_at s1 b)) \<longleftrightarrow> k1 \<in> set (memberships (relations_at s b)) \<or>
       k1 = k \<and> b = a \<and> a \<notin> set (processed jl) \<and> st \<le> Draining"
    and "set (processed jl1) = insert a (set (processed jl))"
    and "set (accepted jl1) = set (accepted jl) \<union> (if a \<notin> set (processed jl) \<and> st \<le> Draining then {a} else {})"
  using assms by (auto simp: join_visit_def Let_def fun_eq_iff split: if_splits)

lemma join_actors_at:
  assumes "join_actors st k as (jl, s) = (jl1, s1)"
  shows "group_at s1 = group_at s \<and> world_at s1 = world_at s \<and> which_scoped_groups sc s1 = which_scoped_groups sc s \<and>
    group_monitors (relations_at s1 b) = group_monitors (relations_at s b) \<and>
    world_monitors (relations_at s1 b) = world_monitors (relations_at s b) \<and>
    (k1 \<in> set (memberships (relations_at s1 b)) \<longleftrightarrow> k1 \<in> set (memberships (relations_at s b)) \<or>
       k1 = k \<and> b \<in> set as \<and> b \<notin> set (processed jl) \<and> st b \<le> Draining) \<and>
    set (accepted jl1) = set (accepted jl) \<union> {a \<in> set as. a \<notin> set (processed jl) \<and> st a \<le> Draining}"
  using assms
proof (induction as arbitrary: jl s)
  case (Cons a as)
  obtain jl2 s2 where v: "join_visit (st a) k a (jl, s) = (jl2, s2)" by (cases "join_visit (st a) k a (jl, s)")
  with Cons.prems have "join_actors st k as (jl2, s2) = (jl1, s1)" by simp
  note IH = Cons.IH [OF this] and at = join_visit_at [OF v]
  from IH at(1-6) have "group_at s1 = group_at s" "world_at s1 = world_at s" "which_scoped_groups sc s1 = which_scoped_groups sc s"
    "group_monitors (relations_at s1 b) = group_monitors (relations_at s b)"
    "world_monitors (relations_at s1 b) = world_monitors (relations_at s b)" by simp_all
  moreover have "k1 \<in> set (memberships (relations_at s1 b)) \<longleftrightarrow> k1 \<in> set (memberships (relations_at s b)) \<or>
       k1 = k \<and> b \<in> set (a # as) \<and> b \<notin> set (processed jl) \<and> st b \<le> Draining"
    using IH at(6) [of k1 b] at(7) by auto
  moreover have "set (accepted jl1) = set (accepted jl) \<union> {a' \<in> set (a # as). a' \<notin> set (processed jl) \<and> st a' \<le> Draining}"
    using IH at(7,8) by auto
  ultimately show ?case by blast
qed simp

lemma join_commit_at:
  "g_members (group_at (join_commit k joined s) k1) =
     (if k1 = k then fold hs_insert joined (g_members (group_at s k)) else g_members (group_at s k1))"
  "g_listeners (group_at (join_commit k joined s) k1) = g_listeners (group_at s k1)"
  "world_at (join_commit k joined s) = world_at s" "relations_at (join_commit k joined s) = relations_at s"
  "set (which_scoped_groups sc (join_commit k joined s)) =
     (if joined \<noteq> [] \<and> sc = key_scope k then insert (key_group k) (set (which_scoped_groups sc s))
      else set (which_scoped_groups sc s))"
  by (simp_all add: join_commit_def Let_def fun_eq_iff)


lemma set_nonempty: "xs \<noteq> [] \<longleftrightarrow> (\<exists>x. x \<in> set xs)"
  by (cases xs) auto

lemma notify_world_cong: "world_at s1 = world_at s \<Longrightarrow> notify_world_listeners s1 = notify_world_listeners s"
  by (simp add: notify_world_listeners_def fun_eq_iff)

definition join_key :: "string \<Rightarrow> string \<Rightarrow> scope_group_key" where
  "join_key sc gr = \<lparr>key_scope = sc, key_group = gr\<rparr>"

lemma join_key_sel [simp]: "key_scope (join_key sc gr) = sc" "key_group (join_key sc gr) = gr"
  by (simp_all add: join_key_def)

text \<open>\<open>s2\<close> is \<open>s\<close> with some actors added to the group \<open>k\<close>.\<close>

definition pg_joins :: "scope_group_key \<Rightarrow> actor_id list \<Rightarrow> pg_state \<Rightarrow> pg_state \<Rightarrow> bool" where
  "pg_joins k joined s s2 \<longleftrightarrow>
     (\<forall>a k1. is_member s2 a k1 \<longleftrightarrow> is_member s a k1 \<or> k1 = k \<and> a \<in> set joined) \<and>
     (\<forall>a k1. k1 \<in> set (memberships (relations_at s2 a)) \<longleftrightarrow>
        k1 \<in> set (memberships (relations_at s a)) \<or> k1 = k \<and> a \<in> set joined) \<and>
     (\<forall>k1. g_listeners (group_at s2 k1) = g_listeners (group_at s k1)) \<and> world_at s2 = world_at s \<and>
     (\<forall>a. group_monitors (relations_at s2 a) = group_monitors (relations_at s a)) \<and>
     (\<forall>a. world_monitors (relations_at s2 a) = world_monitors (relations_at s a)) \<and>
     (\<forall>sc. set (which_scoped_groups sc s2) = set (which_scoped_groups sc s) \<union>
        (if joined \<noteq> [] \<and> sc = key_scope k then {key_group k} else {}))"

lemma pg_same_joins: "pg_joins k joined s s1 \<Longrightarrow> pg_same s1 s2 \<Longrightarrow> pg_joins k joined s s2"
  by (simp add: pg_joins_def pg_same_def)

lemma join_commit_joins:
  assumes "join_actors st k actors (join_start, put_group k (group_at s k) s) = (jl, s1)"
    and "set joined = {a \<in> set actors. st a \<le> Draining}"
  shows "pg_joins k joined s (join_commit k joined s1)"
  using join_actors_at [OF assms(1)] assms(2)
  by (auto simp: pg_joins_def join_commit_at join_start_def fun_eq_iff)

lemma join_scoped_at:
  assumes "join_scoped st st1 sc gr actors s = (s2, es)"
    and joined: "joined = filter (\<lambda>a. st a \<le> Draining \<and> st1 a \<le> Draining) actors"
  shows "pg_joins (join_key sc gr) joined s s2"
    and "es = (if joined = [] then [] else notify_all (g_listeners (group_at s (join_key sc gr))) (GroupJoin sc gr joined) @
       notify_world_listeners s sc gr joined True)"
proof -
  let ?k = "join_key sc gr" and ?as = "filter (\<lambda>a. st a \<le> Draining) actors"
  obtain jl s1 where j: "join_actors st1 ?k ?as (join_start, put_group ?k (group_at s ?k) s) = (jl, s1)"
    by (cases "join_actors st1 ?k ?as (join_start, put_group ?k (group_at s ?k) s)")
  have acc: "set (accepted jl) = {a \<in> set ?as. st1 a \<le> Draining}"
    using join_actors_at [OF j] by (auto simp: join_start_def)
  have jd: "filter (\<lambda>a. a \<in> set (accepted jl)) ?as = joined" unfolding joined acc by (auto intro!: filter_cong)
  let ?c = "join_commit ?k joined s1"
  let ?s3 = "fold remove_empty_actor_relations (stopped_relations jl) ?c"
  have c: "pg_joins ?k joined s ?c" by (rule join_commit_joins [OF j]) (auto simp: joined)
  have sm: "pg_same ?c ?s3" by (rule pg_same_fold)
  have "pg_joins ?k joined s s2 \<and> es = (if joined = [] then [] else notify_all (g_listeners (group_at s ?k)) (GroupJoin sc gr joined) @
       notify_world_listeners s sc gr joined True)"
  proof (cases "?as = []")
    case True
    then have "joined = []" using joined by (auto simp: filter_empty_conv)
    with assms(1) True show ?thesis by (auto simp: join_scoped_def Let_def pg_joins_def)
  next
    case False
    have "notify_world_listeners ?s3 = notify_world_listeners s"
      using c sm by (intro notify_world_cong) (simp add: pg_joins_def pg_same_def)
    then have "s2 = (if joined = [] then drop_empty_group ?k ?s3 else ?s3)"
      "es = (if joined = [] then [] else notify_all (g_listeners (group_at ?c ?k)) (GroupJoin sc gr joined) @
        notify_world_listeners s sc gr joined True)"
      using assms(1) False j jd by (auto simp: join_scoped_def Let_def simp flip: join_key_def)
    moreover have "g_listeners (group_at ?c ?k) = g_listeners (group_at s ?k)" using c by (simp add: pg_joins_def)
    ultimately show ?thesis
      using pg_same_joins [OF c pg_same_trans [OF sm pg_same_steps(2)]] pg_same_joins [OF c sm] by (cases "joined = []") simp_all
  qed
  then show "pg_joins ?k joined s s2"
    "es = (if joined = [] then [] else notify_all (g_listeners (group_at s (join_key sc gr))) (GroupJoin sc gr joined) @
       notify_world_listeners s sc gr joined True)" by simp_all
qed

lemma joins_consistent:
  assumes "pg_consistent s" and "pg_joins k joined s s2"
  shows "pg_consistent s2"
proof -
  have "g_members (group_at s2 k1) \<noteq> [] \<longleftrightarrow> g_members (group_at s k1) \<noteq> [] \<or> k1 = k \<and> joined \<noteq> []" for k1
    unfolding set_nonempty using assms(2) by (auto simp: pg_joins_def)
  moreover have "key_group k1 = key_group k \<and> key_scope k1 = key_scope k \<longleftrightarrow> k1 = k" for k1
    by (cases k; cases k1) auto
  ultimately have "key_group k1 \<in> set (which_scoped_groups (key_scope k1) s2) \<longleftrightarrow> g_members (group_at s2 k1) \<noteq> []" for k1
    using assms by (auto simp: pg_joins_def pg_consistent_def)
  with assms show ?thesis by (simp add: pg_joins_def pg_consistent_def)
qed


text \<open>\<open>s2\<close> is \<open>s\<close> with some actors taken out of the group \<open>k\<close>, the index aside.\<close>

definition pg_leaves :: "scope_group_key \<Rightarrow> actor_id set \<Rightarrow> pg_state \<Rightarrow> pg_state \<Rightarrow> bool" where
  "pg_leaves k left s s2 \<longleftrightarrow>
     (\<forall>a k1. is_member s2 a k1 \<longleftrightarrow> is_member s a k1 \<and> \<not> (k1 = k \<and> a \<in> left)) \<and>
     (\<forall>a k1. k1 \<in> set (memberships (relations_at s2 a)) \<longleftrightarrow>
        k1 \<in> set (memberships (relations_at s a)) \<and> \<not> (k1 = k \<and> a \<in> left)) \<and>
     (\<forall>k1. g_listeners (group_at s2 k1) = g_listeners (group_at s k1)) \<and> world_at s2 = world_at s \<and>
     (\<forall>a. group_monitors (relations_at s2 a) = group_monitors (relations_at s a)) \<and>
     (\<forall>a. world_monitors (relations_at s2 a) = world_monitors (relations_at s a))"

lemma leave_one_at:
  "pg_leaves k {a} s (leave_one k a s)" "which_scoped_groups sc (leave_one k a s) = which_scoped_groups sc s"
proof -
  have r: "relations_at s a = no_relations" if "hm_get (relations s) a = None" using that by (simp add: relations_at_def)
  have r1: "relations_at s a = r" if "hm_get (relations s) a = Some r" for r using that by (simp add: relations_at_def)
  show "pg_leaves k {a} s (leave_one k a s)"
    using r r1 by (auto simp: leave_one_def pg_leaves_def Let_def fun_eq_iff split: option.split)
  show "which_scoped_groups sc (leave_one k a s) = which_scoped_groups sc s"
    by (simp add: leave_one_def Let_def split: option.split)
qed

lemma pg_leaves_trans: "pg_leaves k as s s1 \<Longrightarrow> pg_leaves k bs s1 s2 \<Longrightarrow> pg_leaves k (as \<union> bs) s s2"
  by (simp add: pg_leaves_def) blast

lemma leave_fold_at:
  "pg_leaves k (set as) s (fold (leave_one k) as s) \<and>
   which_scoped_groups sc (fold (leave_one k) as s) = which_scoped_groups sc s"
proof (induction as arbitrary: s)
  case (Cons a as)
  have "pg_leaves k ({a} \<union> set as) s (fold (leave_one k) as (leave_one k a s))"
    using pg_leaves_trans [OF leave_one_at(1)] Cons.IH by blast
  then show ?case using Cons.IH leave_one_at(2) by simp
qed (simp add: pg_leaves_def)

lemma pg_leaves_retire: "pg_leaves k as s s1 \<Longrightarrow> pg_leaves k as s (retire_group k s1)"
  by (simp add: pg_leaves_def fun_eq_iff)

lemma leaves_consistent:
  assumes "pg_consistent s" and "pg_leaves k as s s1"
    and "\<forall>sc. set (which_scoped_groups sc s1) = set (which_scoped_groups sc s)"
  shows "pg_consistent (retire_group k s1)"
proof -
  have e: "key_group k1 = key_group k \<and> key_scope k1 = key_scope k \<longleftrightarrow> k1 = k" for k1 by (cases k; cases k1) auto
  have ix: "key_group k1 \<in> set (which_scoped_groups (key_scope k1) s) \<longleftrightarrow> g_members (group_at s k1) \<noteq> []" for k1
    using assms(1) by (simp add: pg_consistent_def)
  have "g_members (group_at s1 k1) \<noteq> [] \<longleftrightarrow> g_members (group_at s k1) \<noteq> []" if "k1 \<noteq> k" for k1
    unfolding set_nonempty using assms(2) that by (auto simp: pg_leaves_def)
  moreover have "g_members (group_at s1 k) \<noteq> [] \<Longrightarrow> g_members (group_at s k) \<noteq> []"
    unfolding set_nonempty using assms(2) by (auto simp: pg_leaves_def)
  ultimately have "key_group k1 \<in> set (which_scoped_groups (key_scope k1) (retire_group k s1)) \<longleftrightarrow>
      g_members (group_at (retire_group k s1) k1) \<noteq> []" for k1
    using assms(3) e [of k1] ix [of k1] by (cases "k1 = k") auto
  moreover have "pg_leaves k as s (retire_group k s1)" using assms(2) by (rule pg_leaves_retire)
  ultimately show ?thesis using assms(1) by (simp add: pg_leaves_def pg_consistent_def)
qed

lemma leave_scoped_at:
  assumes "leave_scoped sc gr actors s = (s2, es)" and "pg_consistent s"
  shows "pg_consistent s2 \<and> pg_leaves (join_key sc gr) (set actors) s s2 \<and>
    (hm_contains (pg_map s) (join_key sc gr) \<longrightarrow> es = notify_all (g_listeners (group_at s (join_key sc gr))) (GroupLeave sc gr actors) @
       notify_world_listeners s sc gr actors False)"
proof (cases "hm_get (pg_map s) (join_key sc gr)")
  case None
  then have e: "group_at s (join_key sc gr) = no_group" by (simp add: group_at_def)
  then have "join_key sc gr \<notin> set (memberships (relations_at s a))" for a
    using assms(2) unfolding pg_consistent_def by (metis empty_iff empty_set record_eqs(3))
  then have "pg_leaves (join_key sc gr) (set actors) s s" using e by (auto simp: pg_leaves_def)
  with None assms show ?thesis by (simp add: leave_scoped_def flip: join_key_def)
next
  case (Some g)
  let ?k = "join_key sc gr" let ?s1 = "fold (leave_one ?k) actors s"
  note l = leave_fold_at [of ?k actors s, THEN conjunct1] and i = leave_fold_at [of ?k actors s, THEN conjunct2]
  have lr: "pg_leaves ?k (set actors) s (retire_group ?k ?s1)" by (rule pg_leaves_retire [OF l])
  have "pg_consistent (retire_group ?k ?s1)" by (rule leaves_consistent [OF assms(2) l]) (simp add: i)
  moreover have "notify_world_listeners (retire_group ?k ?s1) = notify_world_listeners s"
    by (rule notify_world_cong) (use lr in \<open>simp add: pg_leaves_def\<close>)
  moreover have "g_listeners (group_at ?s1 ?k) = g_listeners (group_at s ?k)" using l by (simp add: pg_leaves_def)
  ultimately show ?thesis using assms(1) Some lr by (auto simp: leave_scoped_def Let_def simp flip: join_key_def)
qed


section \<open>Shutdown\<close>

definition index_ok :: "pg_state \<Rightarrow> bool" where
  "index_ok s \<longleftrightarrow> (\<forall>k. key_group k \<in> set (which_scoped_groups (key_scope k) s) \<longleftrightarrow> g_members (group_at s k) \<noteq> [])"

lemma leave_key_at:
  assumes "leave_key a k s = (s1, ev)"
  shows "is_member s1 b k1 \<longleftrightarrow> is_member s b k1 \<and> \<not> (b = a \<and> k1 = k)"
    and "g_listeners (group_at s1 k1) = g_listeners (group_at s k1)" and "world_at s1 = world_at s"
    and "relations_at s1 = relations_at s" and "relations s1 = relations s" and "index_ok s \<Longrightarrow> index_ok s1"
    and "ev = (if is_member s a k then [(k, g_listeners (group_at s k))] else [])"
proof -
  have g: "group_at s k = g" if "hm_get (pg_map s) k = Some g" for g using that by (simp add: group_at_def)
  have n: "group_at s k = no_group" if "hm_get (pg_map s) k = None" using that by (simp add: group_at_def)
  show "is_member s1 b k1 \<longleftrightarrow> is_member s b k1 \<and> \<not> (b = a \<and> k1 = k)"
    and "g_listeners (group_at s1 k1) = g_listeners (group_at s k1)" and "world_at s1 = world_at s"
    and "relations_at s1 = relations_at s"
    and "ev = (if is_member s a k then [(k, g_listeners (group_at s k))] else [])"
    using assms g n by (auto simp: leave_key_def fun_eq_iff split: option.splits if_splits)
  show "relations s1 = relations s" using assms
    by (auto simp: leave_key_def retire_group_def remove_group_from_index_def put_group_def Let_def split: option.splits if_splits)
  assume "index_ok s"
  let ?s = "put_group k ((group_at s k)\<lparr>g_members := hs_remove a (g_members (group_at s k))\<rparr>) s"
  have "index_ok (retire_group k ?s)"
    unfolding index_ok_def
  proof
    fix k1
    have e: "key_group k1 = key_group k \<and> key_scope k1 = key_scope k \<longleftrightarrow> k1 = k" by (cases k; cases k1) auto
    have "key_group k1 \<in> set (which_scoped_groups (key_scope k1) s) \<longleftrightarrow> g_members (group_at s k1) \<noteq> []"
      using \<open>index_ok s\<close> by (simp add: index_ok_def)
    then show "key_group k1 \<in> set (which_scoped_groups (key_scope k1) (retire_group k ?s)) \<longleftrightarrow>
        g_members (group_at (retire_group k ?s) k1) \<noteq> []"
      using e by (cases "k1 = k") (auto simp: removeAll_Nil_iff)
  qed
  then show "index_ok s1" using assms g \<open>index_ok s\<close> by (auto simp: leave_key_def split: option.splits if_splits)
qed

lemma leave_keys_at:
  assumes "leave_keys a ks s = (s1, ev)"
  shows "(is_member s1 b k1 \<longleftrightarrow> is_member s b k1 \<and> \<not> (b = a \<and> k1 \<in> set ks)) \<and>
    g_listeners (group_at s1 k1) = g_listeners (group_at s k1) \<and> world_at s1 = world_at s \<and>
    relations_at s1 = relations_at s \<and> relations s1 = relations s \<and> (index_ok s \<longrightarrow> index_ok s1) \<and>
    set ev = (\<lambda>k. (k, g_listeners (group_at s k))) ` {k \<in> set ks. is_member s a k}"
  using assms
proof (induction ks arbitrary: s ev)
  case (Cons k ks)
  obtain s2 ev1 where l: "leave_key a k s = (s2, ev1)" by (cases "leave_key a k s")
  obtain ev2 where ls: "leave_keys a ks s2 = (s1, ev2)" "ev = ev1 @ ev2"
    using Cons.prems l by (auto split: prod.splits)
  note at = leave_key_at [OF l] and IH = Cons.IH [OF ls(1)]
  have "set ev = (\<lambda>k. (k, g_listeners (group_at s k))) ` {k' \<in> set (k # ks). is_member s a k'}"
    using IH at(1,2,7) ls(2) by auto
  then show ?case using IH at(1-6) by auto
qed auto

lemma leave_all_at:
  assumes "leave_all a s = (s2, es)" and "pg_consistent s"
  shows "is_member s2 b k \<longleftrightarrow> is_member s b k \<and> b \<noteq> a"
    and "memberships (relations_at s2 b) = (if b = a then [] else memberships (relations_at s b))"
    and "g_listeners (group_at s2 k) = g_listeners (group_at s k)" and "world_at s2 = world_at s"
    and "group_monitors (relations_at s2 b) = group_monitors (relations_at s b)"
    and "world_monitors (relations_at s2 b) = world_monitors (relations_at s b)" and "index_ok s2"
    and "b \<noteq> a \<Longrightarrow> hm_get (relations s2) b = hm_get (relations s) b"
    and "relations_at s2 a = no_relations \<Longrightarrow> hm_get (relations s2) a = None"
proof -
  have m: "is_member s a k \<longleftrightarrow> k \<in> set (memberships (relations_at s a))" for k
    using assms(2) by (simp add: pg_consistent_def)
  have ix: "index_ok s" using assms(2) by (simp add: pg_consistent_def index_ok_def)
  have "(is_member s2 b k \<longleftrightarrow> is_member s b k \<and> b \<noteq> a) \<and>
    memberships (relations_at s2 b) = (if b = a then [] else memberships (relations_at s b)) \<and>
    g_listeners (group_at s2 k) = g_listeners (group_at s k) \<and> world_at s2 = world_at s \<and>
    group_monitors (relations_at s2 b) = group_monitors (relations_at s b) \<and>
    world_monitors (relations_at s2 b) = world_monitors (relations_at s b) \<and> index_ok s2 \<and>
    (b \<noteq> a \<longrightarrow> hm_get (relations s2) b = hm_get (relations s) b) \<and>
    (relations_at s2 a = no_relations \<longrightarrow> hm_get (relations s2) a = None)"
  proof (cases "hm_get (relations s) a")
    case None
    then have "relations_at s a = no_relations" by (simp add: relations_at_def)
    with None m [of k] ix assms(1) show ?thesis by (auto simp: leave_all_def)
  next
    case (Some r)
    then have r: "relations_at s a = r" by (simp add: relations_at_def)
    let ?s1 = "put_relations a (r\<lparr>memberships := []\<rparr>) s"
    obtain s3 ev where l: "leave_keys a (memberships r) ?s1 = (s3, ev)" by (cases "leave_keys a (memberships r) ?s1")
    have s2: "s2 = remove_empty_actor_relations a s3"
      using assms(1) Some l by (auto simp: leave_all_def take_memberships_def Let_def)
    have "index_ok ?s1" using ix by (simp add: index_ok_def)
    with leave_keys_at [OF l, of b k] have at: "(is_member s3 b k \<longleftrightarrow> is_member s b k \<and> \<not> (b = a \<and> k \<in> set (memberships r)))"
      "g_listeners (group_at s3 k) = g_listeners (group_at s k)" "world_at s3 = world_at ?s1"
      "relations_at s3 = relations_at ?s1" "relations s3 = relations ?s1" "index_ok s3" by simp_all
    have "index_ok s2" using at(6) s2 by (simp add: index_ok_def)
    moreover have "world_at s2 = world_at s" using at(3) s2 by (simp add: fun_eq_iff)
    moreover have "hm_get (relations s2) b = hm_get (relations s) b" if "b \<noteq> a"
      using at(5) s2 that by (simp add: remove_empty_actor_relations_def put_relations_def)
    moreover have "hm_get (relations s2) a = None" if "relations_at s2 a = no_relations"
      using that s2 by (simp add: remove_empty_actor_relations_def split: if_splits)
    ultimately show ?thesis using at(1,2,4) s2 r m [of k] by auto
  qed
  then show "is_member s2 b k \<longleftrightarrow> is_member s b k \<and> b \<noteq> a"
    and "memberships (relations_at s2 b) = (if b = a then [] else memberships (relations_at s b))"
    and "g_listeners (group_at s2 k) = g_listeners (group_at s k)" and "world_at s2 = world_at s"
    and "group_monitors (relations_at s2 b) = group_monitors (relations_at s b)"
    and "world_monitors (relations_at s2 b) = world_monitors (relations_at s b)" and "index_ok s2"
    and "b \<noteq> a \<Longrightarrow> hm_get (relations s2) b = hm_get (relations s) b"
    and "relations_at s2 a = no_relations \<Longrightarrow> hm_get (relations s2) a = None" by simp_all
qed


lemma unlisten_group_at [simp]:
  "is_listener (unlisten_group a k s) b k1 \<longleftrightarrow> is_listener s b k1 \<and> \<not> (b = a \<and> k1 = k)"
  "g_members (group_at (unlisten_group a k s) k1) = g_members (group_at s k1)"
  "world_at (unlisten_group a k s) k1 = world_at s k1" "relations_at (unlisten_group a k s) b = relations_at s b"
  "which_scoped_groups sc (unlisten_group a k s) = which_scoped_groups sc s"
  by (auto simp: unlisten_group_def group_at_def [of s k] split: option.split)

lemma unlisten_world_at [simp]:
  "is_world_listener (unlisten_world a k s) b k1 \<longleftrightarrow> is_world_listener s b k1 \<and> \<not> (b = a \<and> k1 = k)"
  "group_at (unlisten_world a k s) k1 = group_at s k1" "relations_at (unlisten_world a k s) b = relations_at s b"
  "which_scoped_groups sc (unlisten_world a k s) = which_scoped_groups sc s"
  by (auto simp: unlisten_world_def world_at_def group_at_def relations_at_def which_scoped_groups_def Let_def
      removeAll_Nil_iff split: option.split if_splits)

lemma unlisten_groups_at:
  "(is_listener (fold (unlisten_group a) ks s) b k1 \<longleftrightarrow> is_listener s b k1 \<and> \<not> (b = a \<and> k1 \<in> set ks)) \<and>
   g_members (group_at (fold (unlisten_group a) ks s) k1) = g_members (group_at s k1) \<and>
   world_at (fold (unlisten_group a) ks s) k1 = world_at s k1 \<and>
   relations_at (fold (unlisten_group a) ks s) b = relations_at s b \<and>
   which_scoped_groups sc (fold (unlisten_group a) ks s) = which_scoped_groups sc s"
  by (induction ks arbitrary: s) auto

lemma unlisten_worlds_at:
  "(is_world_listener (fold (unlisten_world a) ks s) b k1 \<longleftrightarrow> is_world_listener s b k1 \<and> \<not> (b = a \<and> k1 \<in> set ks)) \<and>
   group_at (fold (unlisten_world a) ks s) k1 = group_at s k1 \<and>
   relations_at (fold (unlisten_world a) ks s) b = relations_at s b \<and>
   which_scoped_groups sc (fold (unlisten_world a) ks s) = which_scoped_groups sc s"
  by (induction ks arbitrary: s) auto

lemma relations_at_None: "hm_get (relations s) a = None \<Longrightarrow> relations_at s a = no_relations"
  and relations_at_Some: "hm_get (relations s) a = Some r \<Longrightarrow> relations_at s a = r"
  by (simp_all add: relations_at_def)

lemma demonitor_all_at:
  assumes "pg_consistent s" and "s1 = demonitor_all a s"
  shows "is_listener s1 b k \<longleftrightarrow> is_listener s b k \<and> b \<noteq> a"
    and "is_world_listener s1 b k \<longleftrightarrow> is_world_listener s b k \<and> b \<noteq> a"
    and "g_members (group_at s1 k) = g_members (group_at s k)"
    and "relations_at s1 b = (if b = a then (relations_at s a)\<lparr>group_monitors := [], world_monitors := []\<rparr> else relations_at s b)"
    and "which_scoped_groups sc s1 = which_scoped_groups sc s"
proof -
  have m: "is_listener s a k \<longleftrightarrow> k \<in> set (group_monitors (relations_at s a))"
    "is_world_listener s a k \<longleftrightarrow> k \<in> set (world_monitors (relations_at s a))"
    using assms(1) by (simp_all add: pg_consistent_def)
  show "is_listener s1 b k \<longleftrightarrow> is_listener s b k \<and> b \<noteq> a"
    and "is_world_listener s1 b k \<longleftrightarrow> is_world_listener s b k \<and> b \<noteq> a"
    and "g_members (group_at s1 k) = g_members (group_at s k)"
    and "relations_at s1 b = (if b = a then (relations_at s a)\<lparr>group_monitors := [], world_monitors := []\<rparr> else relations_at s b)"
    and "which_scoped_groups sc s1 = which_scoped_groups sc s"
    using m by (auto simp: assms(2) demonitor_all_def take_monitors_def unlisten_groups_at unlisten_worlds_at
        relations_at_None relations_at_Some no_relations_def split: option.splits)
qed

lemma monitor_at:
  assumes "s1 = monitor st st1 gr a s"
  shows "is_listener s1 b k \<longleftrightarrow> is_listener s b k \<or> b = a \<and> k = join_key DEFAULT_SCOPE gr \<and> st \<le> Draining"
    and "k \<in> set (group_monitors (relations_at s1 b)) \<longleftrightarrow>
      k \<in> set (group_monitors (relations_at s b)) \<or> b = a \<and> k = join_key DEFAULT_SCOPE gr \<and> st \<le> Draining"
    and "g_members (group_at s1 k) = g_members (group_at s k)" and "world_at s1 k = world_at s k"
    and "memberships (relations_at s1 b) = memberships (relations_at s b)"
    and "world_monitors (relations_at s1 b) = world_monitors (relations_at s b)"
    and "which_scoped_groups sc s1 = which_scoped_groups sc s"
  unfolding assms monitor_def monitor_enter_def Let_def by (auto simp flip: join_key_def)

lemma monitor_scope_at:
  assumes "s1 = monitor_scope st st1 sc0 a s"
  shows "is_world_listener s1 b k \<longleftrightarrow> is_world_listener s b k \<or> b = a \<and> k = join_key sc0 ALL_GROUPS_NOTIFICATION \<and> st \<le> Draining"
    and "k \<in> set (world_monitors (relations_at s1 b)) \<longleftrightarrow>
      k \<in> set (world_monitors (relations_at s b)) \<or> b = a \<and> k = join_key sc0 ALL_GROUPS_NOTIFICATION \<and> st \<le> Draining"
    and "group_at s1 k = group_at s k"
    and "memberships (relations_at s1 b) = memberships (relations_at s b)"
    and "group_monitors (relations_at s1 b) = group_monitors (relations_at s b)"
    and "which_scoped_groups sc s1 = which_scoped_groups sc s"
proof -
  have d: "world_at (s\<lparr>world_listeners := hm_remove k0 (world_listeners s)\<rparr>) k = (if k = k0 then [] else world_at s k)"
    "group_at (s\<lparr>world_listeners := x\<rparr>) k = group_at s k" "relations_at (s\<lparr>world_listeners := x\<rparr>) b = relations_at s b"
    "which_scoped_groups sc (s\<lparr>world_listeners := x\<rparr>) = which_scoped_groups sc s" for s k0 k x b sc
    by (simp_all add: world_at_def group_at_def relations_at_def which_scoped_groups_def)
  show "is_world_listener s1 b k \<longleftrightarrow> is_world_listener s b k \<or> b = a \<and> k = join_key sc0 ALL_GROUPS_NOTIFICATION \<and> st \<le> Draining"
    and "k \<in> set (world_monitors (relations_at s1 b)) \<longleftrightarrow>
      k \<in> set (world_monitors (relations_at s b)) \<or> b = a \<and> k = join_key sc0 ALL_GROUPS_NOTIFICATION \<and> st \<le> Draining"
    and "group_at s1 k = group_at s k"
    and "memberships (relations_at s1 b) = memberships (relations_at s b)"
    and "group_monitors (relations_at s1 b) = group_monitors (relations_at s b)"
    and "which_scoped_groups sc s1 = which_scoped_groups sc s"
    unfolding assms monitor_scope_def monitor_scope_enter_def drop_empty_world_def Let_def by (auto simp: d simp flip: join_key_def)
qed

lemma demonitor_at:
  assumes "pg_consistent s" "s1 = demonitor gr a s"
  shows "is_listener s1 b k \<longleftrightarrow> is_listener s b k \<and> \<not> (b = a \<and> k = join_key DEFAULT_SCOPE gr)"
    and "k \<in> set (group_monitors (relations_at s1 b)) \<longleftrightarrow>
      k \<in> set (group_monitors (relations_at s b)) \<and> \<not> (b = a \<and> k = join_key DEFAULT_SCOPE gr)"
    and "g_members (group_at s1 k) = g_members (group_at s k)" and "world_at s1 k = world_at s k"
    and "memberships (relations_at s1 b) = memberships (relations_at s b)"
    and "world_monitors (relations_at s1 b) = world_monitors (relations_at s b)"
    and "which_scoped_groups sc s1 = which_scoped_groups sc s"
  unfolding assms(2) demonitor_def Let_def
  by (auto simp: relations_at_None relations_at_Some split: option.split simp flip: join_key_def)

lemma demonitor_scope_at:
  assumes "pg_consistent s" "s1 = demonitor_scope sc0 a s"
  shows "is_world_listener s1 b k \<longleftrightarrow> is_world_listener s b k \<and> \<not> (b = a \<and> k = join_key sc0 ALL_GROUPS_NOTIFICATION)"
    and "k \<in> set (world_monitors (relations_at s1 b)) \<longleftrightarrow>
      k \<in> set (world_monitors (relations_at s b)) \<and> \<not> (b = a \<and> k = join_key sc0 ALL_GROUPS_NOTIFICATION)"
    and "group_at s1 k = group_at s k"
    and "memberships (relations_at s1 b) = memberships (relations_at s b)"
    and "group_monitors (relations_at s1 b) = group_monitors (relations_at s b)"
    and "which_scoped_groups sc s1 = which_scoped_groups sc s"
  unfolding assms(2) demonitor_scope_def Let_def
  by (auto simp: relations_at_None relations_at_Some split: option.split simp flip: join_key_def)


section \<open>Nothing is left behind\<close>

text \<open>No entry of the maps of groups and of world listeners is empty.\<close>

definition pg_neat :: "pg_state \<Rightarrow> bool" where
  "pg_neat s \<longleftrightarrow> (\<forall>k. hm_get (pg_map s) k \<noteq> Some no_group) \<and> (\<forall>k. hm_get (world_listeners s) k \<noteq> Some []) \<and> hm_wf (pg_map s)"

lemma raw_put [simp]:
  "pg_map (put_group k g s) = hm_insert k g (pg_map s)" "pg_map (put_relations a r s) = pg_map s"
  "pg_map (put_world k ls s) = pg_map s" "world_listeners (put_group k g s) = world_listeners s"
  "world_listeners (put_relations a r s) = world_listeners s" "world_listeners (put_world k ls s) = hm_insert k ls (world_listeners s)"
  "relations (put_group k g s) = relations s" "relations (put_relations a r s) = hm_insert a r (relations s)"
  "relations (put_world k ls s) = relations s"
  by (simp_all add: put_group_def put_relations_def put_world_def)

lemma raw_helpers [simp]:
  "pg_map (remove_empty_actor_relations a s) = pg_map s" "world_listeners (remove_empty_actor_relations a s) = world_listeners s"
  "pg_map (add_group_to_index k s) = pg_map s" "world_listeners (add_group_to_index k s) = world_listeners s"
  "relations (add_group_to_index k s) = relations s" "pg_map (remove_group_from_index k s) = pg_map s"
  "world_listeners (remove_group_from_index k s) = world_listeners s" "relations (remove_group_from_index k s) = relations s"
  "world_listeners (drop_empty_group k s) = world_listeners s" "relations (drop_empty_group k s) = relations s"
  "world_listeners (retire_group k s) = world_listeners s" "relations (retire_group k s) = relations s"
  "world_listeners (unlisten_group a k s) = world_listeners s" "relations (unlisten_group a k s) = relations s"
  "pg_map (unlisten_world a k s) = pg_map s" "relations (unlisten_world a k s) = relations s"
  by (simp_all add: remove_empty_actor_relations_def add_group_to_index_def remove_group_from_index_def
      drop_empty_group_def retire_group_def unlisten_group_def unlisten_world_def Let_def split: option.split)

lemma raw_fold_remove [simp]:
  "pg_map (fold remove_empty_actor_relations as s) = pg_map s"
  "world_listeners (fold remove_empty_actor_relations as s) = world_listeners s"
  by (induction as arbitrary: s) simp_all

lemma raw_join_actors [simp]:
  "pg_map (snd (join_actors st k as (jl, s))) = pg_map s"
  "world_listeners (snd (join_actors st k as (jl, s))) = world_listeners s"
proof -
  have v: "pg_map (snd (join_visit x k a (jl, s))) = pg_map s"
    "world_listeners (snd (join_visit x k a (jl, s))) = world_listeners s" for x a jl s
    by (simp_all add: join_visit_def Let_def)
  show "pg_map (snd (join_actors st k as (jl, s))) = pg_map s"
    "world_listeners (snd (join_actors st k as (jl, s))) = world_listeners s"
    using v by (induction as arbitrary: jl s) (simp_all, (metis prod.collapse)+)
qed

lemma members_no_group: "g\<lparr>g_members := ys\<rparr> = no_group \<Longrightarrow> ys = []" "g\<lparr>g_listeners := ys\<rparr> = no_group \<Longrightarrow> ys = []"
  by (cases g; simp add: no_group_def)+

definition neat_but :: "scope_group_key \<Rightarrow> pg_state \<Rightarrow> bool" where
  "neat_but k s \<longleftrightarrow> (\<forall>k1. k1 \<noteq> k \<longrightarrow> hm_get (pg_map s) k1 \<noteq> Some no_group) \<and>
     (\<forall>k. hm_get (world_listeners s) k \<noteq> Some []) \<and> hm_wf (pg_map s)"

lemma neat_at: "neat_but k s \<Longrightarrow> hm_get (pg_map s) k \<noteq> Some no_group \<Longrightarrow> pg_neat s"
  unfolding neat_but_def pg_neat_def by metis

lemma neat_drop: "neat_but k s \<Longrightarrow> pg_neat (drop_empty_group k s)"
proof (cases "hm_get (pg_map s) k = Some no_group")
  case True
  moreover assume "neat_but k s"
  ultimately show ?thesis by (auto simp: pg_neat_def drop_empty_group_def neat_but_def)
next
  case False
  moreover assume "neat_but k s"
  ultimately show ?thesis using neat_at [of k s] by (auto simp: drop_empty_group_def split: option.split)
qed

lemma neat_retire: "neat_but k s \<Longrightarrow> pg_neat (retire_group k s)"
proof (cases "group_at s k = no_group")
  case True
  moreover assume "neat_but k s"
  ultimately show ?thesis by (auto simp: pg_neat_def retire_group_def neat_but_def Let_def)
next
  case False
  moreover assume n: "neat_but k s"
  ultimately have "pg_neat s" using neat_at [OF n] by (auto simp: group_at_def split: option.splits)
  moreover have "\<not> (g_members (group_at s k) = [] \<and> g_listeners (group_at s k) = [])"
    using False by (cases "group_at s k") (simp add: no_group_def)
  ultimately show ?thesis by (auto simp: pg_neat_def retire_group_def Let_def)
qed

lemma join_neat:
  assumes "join_scoped st st1 sc gr actors s = (s2, es)" and "pg_neat s"
  shows "pg_neat s2"
proof -
  let ?k = "join_key sc gr" and ?as = "filter (\<lambda>a. st a \<le> Draining) actors"
  obtain jl s1 where j: "join_actors st1 ?k ?as (join_start, put_group ?k (group_at s ?k) s) = (jl, s1)"
    by (cases "join_actors st1 ?k ?as (join_start, put_group ?k (group_at s ?k) s)")
  define joined where "joined = filter (\<lambda>a. a \<in> set (accepted jl)) ?as"
  let ?c = "join_commit ?k joined s1"
  let ?s3 = "fold remove_empty_actor_relations (stopped_relations jl) ?c"
  have raw: "pg_map s1 = hm_insert ?k (group_at s ?k) (pg_map s)" "world_listeners s1 = world_listeners s"
    using raw_join_actors [of st1 ?k ?as join_start "put_group ?k (group_at s ?k) s"] j by simp_all
  have c: "pg_map ?c = hm_insert ?k ((group_at s1 ?k)\<lparr>g_members := fold hs_insert joined (g_members (group_at s1 ?k))\<rparr>) (pg_map s1)"
    "world_listeners ?c = world_listeners s" using raw(2) by (simp_all add: join_commit_def Let_def)
  have o: "neat_but ?k ?s3" using c raw assms(2) by (auto simp: pg_neat_def neat_but_def)
  have ne: "pg_neat ?s3" if "joined \<noteq> []"
  proof -
    have "fold hs_insert joined (g_members (group_at s1 ?k)) \<noteq> []"
      using that by (metis Un_empty set_empty set_fold_hs_insert)
    then have "hm_get (pg_map ?s3) ?k \<noteq> Some no_group" using c by (auto dest: members_no_group)
    with o show ?thesis by (rule neat_at)
  qed
  show ?thesis using assms j neat_drop [OF o] ne
    by (auto simp: join_scoped_def Let_def joined_def split: if_splits simp flip: join_key_def)
qed

lemma leave_fold_raw:
  "k1 \<noteq> k \<Longrightarrow> hm_get (pg_map (fold (leave_one k) as s)) k1 = hm_get (pg_map s) k1"
  "world_listeners (fold (leave_one k) as s) = world_listeners s" "hm_wf (pg_map s) \<Longrightarrow> hm_wf (pg_map (fold (leave_one k) as s))"
  by (induction as arbitrary: s) (simp_all add: leave_one_def Let_def split: option.split)

lemma leave_neat:
  assumes "leave_scoped sc gr actors s = (s2, es)" and "pg_neat s"
  shows "pg_neat s2"
proof -
  let ?k = "join_key sc gr"
  have "neat_but ?k (fold (leave_one ?k) actors s)"
    using assms(2) by (simp add: neat_but_def pg_neat_def leave_fold_raw)
  from neat_retire [OF this] assms show ?thesis
    by (auto simp: leave_scoped_def Let_def split: option.splits simp flip: join_key_def)
qed

lemma leave_key_neat: "pg_neat s \<Longrightarrow> pg_neat (fst (leave_key a k s))"
proof -
  assume "pg_neat s"
  then have "neat_but k (put_group k g s)" for g by (simp add: neat_but_def pg_neat_def)
  from neat_retire [OF this] \<open>pg_neat s\<close> show ?thesis by (auto simp: leave_key_def split: option.split)
qed

lemma leave_keys_neat: "pg_neat s \<Longrightarrow> pg_neat (fst (leave_keys a ks s))"
  by (induction ks arbitrary: s) (auto simp: case_prod_unfold Let_def leave_key_neat)

lemma leave_all_neat: "leave_all a s = (s2, es) \<Longrightarrow> pg_neat s \<Longrightarrow> pg_neat s2"
proof -
  assume l: "leave_all a s = (s2, es)" and "pg_neat s"
  then have "pg_neat (snd (take_memberships a s))"
    by (auto simp: take_memberships_def pg_neat_def split: option.split)
  from leave_keys_neat [OF this] l \<open>pg_neat s\<close> show ?thesis
    by (auto simp: leave_all_def case_prod_unfold Let_def pg_neat_def split: option.splits)
qed


lemma unlisten_group_neat: "pg_neat s \<Longrightarrow> pg_neat (unlisten_group a k s)"
proof -
  assume "pg_neat s"
  then have "neat_but k (put_group k g s)" for g by (simp add: neat_but_def pg_neat_def)
  from neat_drop [OF this] \<open>pg_neat s\<close> show ?thesis by (auto simp: unlisten_group_def split: option.split)
qed

lemma unlisten_world_neat: "pg_neat s \<Longrightarrow> pg_neat (unlisten_world a k s)"
  by (auto simp: unlisten_world_def pg_neat_def Let_def split: option.split)

lemma neat_put_relations [simp]: "pg_neat (put_relations a r s) = pg_neat s" "neat_but k (put_relations a r s) = neat_but k s"
  "pg_neat (remove_empty_actor_relations a s) = pg_neat s"
  by (simp_all add: pg_neat_def neat_but_def)

lemma demonitor_neat: "pg_neat s \<Longrightarrow> pg_neat (demonitor gr a s)" "pg_neat s \<Longrightarrow> pg_neat (demonitor_scope sc a s)"
  by (simp_all add: demonitor_def demonitor_scope_def Let_def unlisten_group_neat unlisten_world_neat split: option.split)

lemma demonitor_all_neat: "pg_neat s \<Longrightarrow> pg_neat (demonitor_all a s)"
proof -
  assume n: "pg_neat s"
  have "pg_neat (fold (unlisten_group a) gs s)" "pg_neat (fold (unlisten_world a) gs s)" if "pg_neat s" for gs s
    using that by (induction gs arbitrary: s) (auto simp: unlisten_group_neat unlisten_world_neat)
  with n show ?thesis by (auto simp: demonitor_all_def take_monitors_def split: option.split)
qed

lemma monitor_neat:
  assumes "pg_neat s" and "st \<le> st1"
  shows "pg_neat (monitor st st1 gr a s)"
proof -
  let ?k = "join_key DEFAULT_SCOPE gr"
  let ?s1 = "put_group ?k (group_at s ?k) (put_relations a (relations_at s a) s)"
  let ?g = "(group_at ?s1 ?k)\<lparr>g_listeners := hs_insert a (g_listeners (group_at ?s1 ?k))\<rparr>"
  have b: "neat_but ?k ?s1" "neat_but ?k (put_group ?k ?g ?s1)" using assms(1) by (simp_all add: neat_but_def pg_neat_def)
  have l: "pg_neat (put_group ?k ?g ?s1)" by (rule neat_at [OF b(2)]) (auto dest: members_no_group)
  show ?thesis
  proof (cases "st \<le> Draining")
    case True
    have "pg_neat (drop_empty_group ?k (put_relations a r (put_group ?k ?g ?s1)))" for r
      using neat_drop [of ?k "put_relations a r (put_group ?k ?g ?s1)"] b(2) by simp
    with True l show ?thesis unfolding monitor_def monitor_enter_def Let_def join_key_def by simp
  next
    case False
    then have "Stopping \<le> st1" using assms(2) by (simp add: status_cases_le(1))
    with False neat_drop [OF b(1)] show ?thesis unfolding monitor_def monitor_enter_def Let_def join_key_def by simp
  qed
qed

lemma monitor_scope_neat:
  assumes "pg_neat s" and "st \<le> st1"
  shows "pg_neat (monitor_scope st st1 sc a s)"
proof (cases "st \<le> Draining")
  case True
  with assms(1) show ?thesis unfolding monitor_scope_def monitor_scope_enter_def drop_empty_world_def Let_def by (auto simp: pg_neat_def)
next
  case False
  then have "Stopping \<le> st1" using assms(2) by (simp add: status_cases_le(1))
  moreover have "pg_neat (put_world k ls s)" if "ls \<noteq> []" for k ls using that assms(1) by (simp add: pg_neat_def)
  ultimately show ?thesis using False assms(1) unfolding monitor_scope_def monitor_scope_enter_def drop_empty_world_def Let_def by (auto simp: pg_neat_def)
qed

section \<open>Relations of stopping actors\<close>

lemma join_actors_raw:
  assumes "join_actors st k as (jl, s) = (jl1, s1)" and "Stopping \<le> st b"
    and "relations_at s b = no_relations" and "hm_get (relations s) b = None \<or> b \<in> set (stopped_relations jl)"
    and "b \<in> set (processed jl) \<longrightarrow> b \<in> set (stopped_relations jl)"
  shows "relations_at s1 b = no_relations \<and> (hm_get (relations s1) b = None \<or> b \<in> set (stopped_relations jl1))"
  using assms
proof (induction as arbitrary: jl s)
  case (Cons a as)
  obtain jl2 s2 where v: "join_visit (st a) k a (jl, s) = (jl2, s2)" by (cases "join_visit (st a) k a (jl, s)")
  have "\<not> st b \<le> Draining" using Cons.prems(2) by (simp add: status_cases_le(1) not_less)
  with v Cons.prems(3-5) have "relations_at s2 b = no_relations" "hm_get (relations s2) b = None \<or> b \<in> set (stopped_relations jl2)"
    "b \<in> set (processed jl2) \<longrightarrow> b \<in> set (stopped_relations jl2)"
    by (auto simp: join_visit_def Let_def split: if_splits)
  from Cons.IH [OF _ Cons.prems(2) this] Cons.prems(1) v show ?case by simp
qed simp

lemma fold_remove_raw:
  "relations_at s b = no_relations \<Longrightarrow> hm_get (relations s) b = None \<or> b \<in> set as \<Longrightarrow>
   hm_get (relations (fold remove_empty_actor_relations as s)) b = None"
proof (induction as arbitrary: s)
  case (Cons a as)
  have "relations_at (remove_empty_actor_relations a s) b = no_relations" using Cons.prems(1) by simp
  moreover have "hm_get (relations (remove_empty_actor_relations a s)) b = None \<or> b \<in> set as"
    using Cons.prems by (auto simp: remove_empty_actor_relations_def)
  ultimately show ?case using Cons.IH by simp
qed simp

lemma join_gone:
  assumes "join_scoped st st1 sc gr actors s = (s2, es)" and "Stopping \<le> st1 b" and "hm_get (relations s) b = None"
  shows "hm_get (relations s2) b = None"
proof -
  let ?k = "join_key sc gr" and ?as = "filter (\<lambda>a. st a \<le> Draining) actors"
  obtain jl s1 where j: "join_actors st1 ?k ?as (join_start, put_group ?k (group_at s ?k) s) = (jl, s1)"
    by (cases "join_actors st1 ?k ?as (join_start, put_group ?k (group_at s ?k) s)")
  have "relations_at s1 b = no_relations \<and> (hm_get (relations s1) b = None \<or> b \<in> set (stopped_relations jl))"
    by (rule join_actors_raw [OF j assms(2)]) (use assms(3) in \<open>auto simp: relations_at_None join_start_def\<close>)
  then have "hm_get (relations (fold remove_empty_actor_relations (stopped_relations jl) (join_commit ?k joined s1))) b = None" for joined
    by (intro fold_remove_raw) (auto simp: join_commit_at, simp_all add: join_commit_def Let_def)
  with assms(1,3) j show ?thesis
    by (auto simp: join_scoped_def Let_def split: if_splits simp flip: join_key_def)
qed

lemma leave_one_gone: "hm_get (relations s) b = None \<Longrightarrow> hm_get (relations (leave_one k a s)) b = None"
  by (auto simp: leave_one_def Let_def split: option.split)

lemma leave_gone:
  assumes "leave_scoped sc gr actors s = (s2, es)" and "hm_get (relations s) b = None"
  shows "hm_get (relations s2) b = None"
proof -
  have "hm_get (relations (fold (leave_one k) actors s)) b = None" for k
    using assms(2) by (induction actors arbitrary: s) (auto simp: leave_one_gone)
  with assms show ?thesis by (auto simp: leave_scoped_def Let_def split: option.splits)
qed

lemma relations_at_world [simp]: "relations_at (s\<lparr>world_listeners := x\<rparr>) b = relations_at s b"
  by (simp add: relations_at_def)

lemma monitor_gone:
  assumes "hm_get (relations s) b = None" and "b = a \<longrightarrow> Stopping \<le> st" and "st \<le> st1"
  shows "hm_get (relations (monitor st st1 gr a s)) b = None" "hm_get (relations (monitor_scope st st1 sc a s)) b = None"
proof -
  have "b = a \<longrightarrow> \<not> st \<le> Draining \<and> Stopping \<le> st1" using assms(2,3) by (auto simp: status_cases_le(1) not_less)
  with assms(1) show "hm_get (relations (monitor st st1 gr a s)) b = None" "hm_get (relations (monitor_scope st st1 sc a s)) b = None"
    by (auto simp: monitor_def monitor_enter_def monitor_scope_def monitor_scope_enter_def drop_empty_world_def Let_def remove_empty_actor_relations_def relations_at_None)
qed

lemma demonitor_gone:
  assumes "hm_get (relations s) b = None"
  shows "hm_get (relations (demonitor gr a s)) b = None" "hm_get (relations (demonitor_scope sc a s)) b = None"
  using assms by (auto simp: demonitor_def demonitor_scope_def Let_def split: option.split)

lemma demonitor_all_raw:
  "b \<noteq> a \<Longrightarrow> hm_get (relations (demonitor_all a s)) b = hm_get (relations s) b"
  "hm_get (relations s) a = None \<Longrightarrow> hm_get (relations (demonitor_all a s)) a = None"
proof -
  have "relations (fold (unlisten_group a) gs s) = relations s" "relations (fold (unlisten_world a) gs s) = relations s" for gs s
    by (induction gs arbitrary: s) auto
  then show "b \<noteq> a \<Longrightarrow> hm_get (relations (demonitor_all a s)) b = hm_get (relations s) b"
    "hm_get (relations s) a = None \<Longrightarrow> hm_get (relations (demonitor_all a s)) a = None"
    by (auto simp: demonitor_all_def take_monitors_def split: option.split)
qed


section \<open>Runs\<close>

text \<open>
  The operations in the order in which they take effect. The status of an actor only grows
  (\<open>set_status\<close>); at the step to \<open>Stopping\<close> or \<open>Stopped\<close> it leaves everything. A call of \<open>join\<close> may
  have filtered its actors by an earlier status (\<open>old\<close>).
\<close>

datatype pg_op =
    Join string string "actor_id list"
  | Leave string string "actor_id list"
  | Monitor string actor_id
  | MonitorScope string actor_id
  | Demonitor string actor_id
  | DemonitorScope string actor_id

fun pg_apply :: "(actor_id \<Rightarrow> actor_status) \<Rightarrow> (actor_id \<Rightarrow> actor_status) \<Rightarrow> pg_op \<Rightarrow> pg_state \<Rightarrow> pg_state \<times> notification list" where
  "pg_apply old st (Join sc gr actors) s = join_scoped old st sc gr actors s"
| "pg_apply old st (Leave sc gr actors) s = leave_scoped sc gr actors s"
| "pg_apply old st (Monitor gr a) s = (monitor (st a) (st a) gr a s, [])"
| "pg_apply old st (MonitorScope sc a) s = (monitor_scope (st a) (st a) sc a s, [])"
| "pg_apply old st (Demonitor gr a) s = (demonitor gr a s, [])"
| "pg_apply old st (DemonitorScope sc a) s = (demonitor_scope sc a s, [])"

definition pg_shutdown :: "actor_id \<Rightarrow> pg_state \<Rightarrow> pg_state \<times> notification list" where
  "pg_shutdown a s = leave_all a (demonitor_all a s)"

inductive pg_run :: "(actor_id \<Rightarrow> actor_status) \<Rightarrow> pg_state \<Rightarrow> bool" where
  pg_init: "pg_run (\<lambda>a. Unstarted) pg_new"
| pg_op: "pg_run st s \<Longrightarrow> (\<And>a. old a \<le> st a) \<Longrightarrow> pg_run st (fst (pg_apply old st p s))"
| pg_status: "pg_run st s \<Longrightarrow> st a \<le> x \<Longrightarrow> x < Stopping \<or> Stopping \<le> st a \<Longrightarrow> pg_run (st(a := x)) s"
| pg_stop: "pg_run st s \<Longrightarrow> st a < Stopping \<Longrightarrow> Stopping \<le> x \<Longrightarrow> pg_run (st(a := x)) (fst (pg_shutdown a s))"

definition pg_inv :: "(actor_id \<Rightarrow> actor_status) \<Rightarrow> pg_state \<Rightarrow> bool" where
  "pg_inv st s \<longleftrightarrow> pg_consistent s \<and> pg_neat s \<and> (\<forall>a. Stopping \<le> st a \<longrightarrow> hm_get (relations s) a = None)"

lemma apply_consistent: "pg_consistent s \<Longrightarrow> pg_consistent (fst (pg_apply old st p s))"
proof (cases p)
  case (Join sc gr actors)
  assume "pg_consistent s"
  moreover have "pg_joins (join_key sc gr) (filter (\<lambda>a. old a \<le> Draining \<and> st a \<le> Draining) actors) s
      (fst (join_scoped old st sc gr actors s))" by (rule join_scoped_at(1) [OF prod.collapse [symmetric] refl])
  ultimately show ?thesis using Join joins_consistent by simp
next
  case (Leave sc gr actors)
  assume "pg_consistent s"
  with Leave leave_scoped_at [OF prod.collapse [symmetric] this, of sc gr actors] show ?thesis by simp
next
  case (Demonitor gr a)
  assume "pg_consistent s"
  with Demonitor demonitor_at [OF this refl, where gr = gr and a = a] show ?thesis by (auto simp: pg_consistent_def)
next
  case (DemonitorScope sc a)
  assume "pg_consistent s"
  with DemonitorScope demonitor_scope_at [OF this refl, where a = a] show ?thesis by (auto simp: pg_consistent_def)
qed (auto simp: pg_consistent_def monitor_at [OF refl] monitor_scope_at [OF refl])

lemma demonitor_all_consistent:
  assumes "pg_consistent s"
  shows "pg_consistent (demonitor_all a s)"
  using assms demonitor_all_at [OF assms refl, where a = a] by (auto simp: pg_consistent_def)

lemma shutdown_consistent:
  assumes "pg_consistent s"
  shows "pg_consistent (fst (pg_shutdown a s))"
proof -
  have c: "pg_consistent (demonitor_all a s)" using assms by (rule demonitor_all_consistent)
  note at = leave_all_at [OF prod.collapse [symmetric] c, where a = a]
  have "is_member (fst (pg_shutdown a s)) b k \<longleftrightarrow> k \<in> set (memberships (relations_at (fst (pg_shutdown a s)) b))"
    "is_listener (fst (pg_shutdown a s)) b k \<longleftrightarrow> k \<in> set (group_monitors (relations_at (fst (pg_shutdown a s)) b))"
    "is_world_listener (fst (pg_shutdown a s)) b k \<longleftrightarrow> k \<in> set (world_monitors (relations_at (fst (pg_shutdown a s)) b))" for b k
    using c at(1,2,5,6) [where b = b] at(3,4) unfolding pg_shutdown_def pg_consistent_def by simp_all
  with at(7) show ?thesis by (simp add: pg_shutdown_def pg_consistent_def index_ok_def)
qed

lemma shutdown_gone: "pg_consistent s \<Longrightarrow> hm_get (relations (fst (pg_shutdown a s))) a = None"
proof -
  assume c: "pg_consistent s"
  let ?s = "demonitor_all a s"
  note at = leave_all_at [OF prod.collapse [symmetric] demonitor_all_consistent [OF c], where a = a]
  have "relations_at (fst (leave_all a ?s)) a = no_relations"
    using at(2,5,6) [where b = a] demonitor_all_at(4) [OF c refl, where a = a and b = a]
    by (intro actor_relations.equality) simp_all
  with at(9) show ?thesis by (simp add: pg_shutdown_def)
qed

lemma pg_run_inv: "pg_run st s \<Longrightarrow> pg_inv st s"
proof (induction rule: pg_run.induct)
  case pg_init
  have "group_at pg_new k = no_group" "relations_at pg_new a = no_relations" "world_at pg_new k = []"
    "which_scoped_groups sc pg_new = []" for k a sc
    by (simp_all add: pg_new_def group_at_def relations_at_def world_at_def which_scoped_groups_def)
  then show ?case by (simp add: pg_inv_def pg_consistent_def pg_neat_def) (simp add: pg_new_def)
next
  case (pg_op st s old p)
  have "pg_neat (fst (pg_apply old st p s))" using pg_op
    by (cases p) (auto simp: pg_inv_def monitor_neat monitor_scope_neat demonitor_neat join_neat [OF prod.collapse [symmetric]]
        leave_neat [OF prod.collapse [symmetric]])
  moreover have "hm_get (relations (fst (pg_apply old st p s))) b = None" if "Stopping \<le> st b" for b
    using pg_op.IH that by (cases p) (auto simp: pg_inv_def intro!: monitor_gone simp: demonitor_gone join_gone [OF prod.collapse [symmetric]]
        leave_gone [OF prod.collapse [symmetric]])
  ultimately show ?case using pg_op.IH by (simp add: pg_inv_def apply_consistent)
next
  case (pg_status st s a x)
  then show ?case by (auto simp: pg_inv_def not_less)
next
  case (pg_stop st s a x)
  have "pg_neat (fst (pg_shutdown a s))"
    using pg_stop.IH leave_all_neat [OF prod.collapse [symmetric]] by (simp add: pg_shutdown_def pg_inv_def demonitor_all_neat)
  moreover have "hm_get (relations (fst (pg_shutdown a s))) b = None" if "Stopping \<le> (st(a := x)) b" for b
  proof (cases "b = a")
    case True
    with shutdown_gone pg_stop.IH show ?thesis by (simp add: pg_inv_def)
  next
    case False
    with that pg_stop.IH have "hm_get (relations (demonitor_all a s)) b = None" by (simp add: pg_inv_def demonitor_all_raw)
    moreover have "pg_consistent (demonitor_all a s)" using pg_stop.IH by (simp add: pg_inv_def demonitor_all_consistent)
    ultimately show ?thesis
      using leave_all_at(8) [OF prod.collapse [symmetric] _ False] by (simp add: pg_shutdown_def)
  qed
  ultimately show ?case using pg_stop.IH by (simp add: pg_inv_def shutdown_consistent)
qed


section \<open>What a monitor sees\<close>

text \<open>A step of a run with its notifications, and the runs during which \<open>l\<close> monitors the group \<open>k\<close>.\<close>

type_synonym pg_world = "(actor_id \<Rightarrow> actor_status) \<times> pg_state"

inductive pg_step :: "pg_world \<Rightarrow> notification list \<Rightarrow> pg_world \<Rightarrow> bool" where
  op: "(\<And>a. old a \<le> st a) \<Longrightarrow> pg_apply old st p s = (s1, es) \<Longrightarrow> pg_step (st, s) es (st, s1)"
| status: "st a \<le> x \<Longrightarrow> x < Stopping \<or> Stopping \<le> st a \<Longrightarrow> pg_step (st, s) [] (st(a := x), s)"
| stop: "st a < Stopping \<Longrightarrow> Stopping \<le> x \<Longrightarrow> pg_shutdown a s = (s1, es) \<Longrightarrow> pg_step (st, s) es (st(a := x), s1)"

inductive_cases pg_stepE: "pg_step x es y"

definition watches :: "actor_id \<Rightarrow> scope_group_key \<Rightarrow> pg_state \<Rightarrow> bool" where
  "watches l k s \<longleftrightarrow> is_listener s l k \<or> is_world_listener s l (join_key (key_scope k) ALL_GROUPS_NOTIFICATION) \<or>
     is_world_listener s l (join_key ALL_SCOPES_NOTIFICATION ALL_GROUPS_NOTIFICATION)"

inductive pg_watch :: "actor_id \<Rightarrow> scope_group_key \<Rightarrow> pg_world \<Rightarrow> notification list \<Rightarrow> pg_world \<Rightarrow> bool"
  for l k where
  watch_start: "watches l k (snd x) \<Longrightarrow> pg_watch l k x [] x"
| watch_step: "pg_watch l k x es y \<Longrightarrow> pg_step y es1 z \<Longrightarrow> watches l k (snd z) \<Longrightarrow> pg_watch l k x (es @ es1) z"

text \<open>The set of members a monitor has after it applied every notification sent to it.\<close>

fun apply_change :: "scope_group_key \<Rightarrow> group_change_message \<Rightarrow> actor_id set \<Rightarrow> actor_id set" where
  "apply_change k (GroupJoin sc gr as) S = (if k = join_key sc gr then S \<union> set as else S)"
| "apply_change k (GroupLeave sc gr as) S = (if k = join_key sc gr then S - set as else S)"

fun pg_replay :: "actor_id \<Rightarrow> scope_group_key \<Rightarrow> notification list \<Rightarrow> actor_id set \<Rightarrow> actor_id set" where
  "pg_replay l k [] S = S"
| "pg_replay l k ((to, c) # es) S = pg_replay l k es (if to = l then apply_change k c S else S)"

lemma pg_replay_append: "pg_replay l k (es @ fs) S = pg_replay l k fs (pg_replay l k es S)"
  by (induction l k es S rule: pg_replay.induct) auto

lemma apply_change_idem: "apply_change k c (apply_change k c S) = apply_change k c S"
  by (cases c) auto

lemma replay_notify_all:
  "pg_replay l k (notify_all ls c) S = (if l \<in> set ls then apply_change k c S else S)"
  by (induction ls arbitrary: S) (auto simp: notify_all_def apply_change_idem)

lemma replay_notify:
  "pg_replay l k (notify_all ls (if j then GroupJoin sc gr as else GroupLeave sc gr as) @ notify_world_listeners s sc gr as j) S =
   (if l \<in> set ls \<or> is_world_listener s l (join_key sc ALL_GROUPS_NOTIFICATION) \<or>
       is_world_listener s l (join_key ALL_SCOPES_NOTIFICATION ALL_GROUPS_NOTIFICATION)
    then apply_change k (if j then GroupJoin sc gr as else GroupLeave sc gr as) S else S)"
  by (auto simp: notify_world_listeners_def Let_def pg_replay_append replay_notify_all apply_change_idem simp flip: join_key_def)

lemma replay_join: "watches l k s \<Longrightarrow>
   pg_replay l k (notify_all (g_listeners (group_at s (join_key sc gr))) (GroupJoin sc gr as) @ notify_world_listeners s sc gr as True) S =
   apply_change k (GroupJoin sc gr as) S"
  using replay_notify [of l k "g_listeners (group_at s (join_key sc gr))" True sc gr as s S]
  by (cases "k = join_key sc gr") (auto simp: watches_def)

lemma replay_leave: "watches l k s \<Longrightarrow>
   pg_replay l k (notify_all (g_listeners (group_at s (join_key sc gr))) (GroupLeave sc gr as) @ notify_world_listeners s sc gr as False) S =
   apply_change k (GroupLeave sc gr as) S"
  using replay_notify [of l k "g_listeners (group_at s (join_key sc gr))" False sc gr as s S]
  by (cases "k = join_key sc gr") (auto simp: watches_def)

lemma key_join_key: "join_key (key_scope k) (key_group k) = k"
  by (cases k) (simp add: join_key_def)

lemma replay_removals:
  assumes "watches l k s" and "\<And>k1 ls. (k1, ls) \<in> set ev \<Longrightarrow> ls = g_listeners (group_at s k1)"
  shows "pg_replay l k (concat (map (\<lambda>(k, ls). notify_all ls (GroupLeave (key_scope k) (key_group k) [a]) @
      notify_world_listeners s (key_scope k) (key_group k) [a] False) ev)) S = (if k \<in> fst ` set ev then S - {a} else S)"
  using assms(2)
proof (induction ev arbitrary: S)
  case (Cons x ev)
  obtain k1 ls where x: "x = (k1, ls)" by (cases x)
  with Cons.prems have ls: "ls = g_listeners (group_at s k1)" by simp
  note r = replay_leave [OF assms(1), of "key_scope k1" "key_group k1" "[a]", unfolded key_join_key]
  have IH: "pg_replay l k (concat (map (\<lambda>(k, ls). notify_all ls (GroupLeave (key_scope k) (key_group k) [a]) @
      notify_world_listeners s (key_scope k) (key_group k) [a] False) ev)) S = (if k \<in> fst ` set ev then S - {a} else S)" for S
    using Cons.IH Cons.prems by simp
  show ?case unfolding x list.map concat.simps prod.case pg_replay_append [of l k "_ @ _" "concat _"] ls r IH
    by (auto simp: key_join_key)
qed simp

lemma leave_all_events:
  assumes "leave_all b s = (s1, es)" and "pg_consistent s" and "watches l k s"
  shows "pg_replay l k es (set (g_members (group_at s k))) = set (g_members (group_at s1 k))"
proof (cases "hm_get (relations s) b")
  case None
  with assms(1) show ?thesis by (simp add: leave_all_def)
next
  case (Some r)
  let ?s1 = "put_relations b (r\<lparr>memberships := []\<rparr>) s"
  obtain s3 ev where lk: "leave_keys b (memberships r) ?s1 = (s3, ev)" by (cases "leave_keys b (memberships r) ?s1")
  note at = leave_keys_at [OF lk]
  have w: "world_at s1 = world_at s"
    using assms(1) Some lk at by (auto simp: leave_all_def take_memberships_def Let_def fun_eq_iff)
  have es: "es = concat (map (\<lambda>(k, ls). notify_all ls (GroupLeave (key_scope k) (key_group k) [b]) @
      notify_world_listeners s (key_scope k) (key_group k) [b] False) ev)"
    using assms(1) Some lk notify_world_cong [OF w] by (auto simp: leave_all_def take_memberships_def Let_def)
  have ev: "set ev = (\<lambda>k. (k, g_listeners (group_at s k))) ` {k \<in> set (memberships r). is_member s b k}"
    using at by simp
  have "is_member s b k \<longleftrightarrow> k \<in> set (memberships r)"
    using assms(2) Some by (simp add: pg_consistent_def relations_at_Some)
  then have "k \<in> fst ` set ev \<longleftrightarrow> is_member s b k" unfolding ev by force
  moreover have "pg_replay l k es S = (if k \<in> fst ` set ev then S - {b} else S)" for S
    unfolding es by (rule replay_removals [OF assms(3)]) (auto simp: ev)
  moreover have "set (g_members (group_at s1 k)) = set (g_members (group_at s k)) - {b}"
    using leave_all_at(1) [OF assms(1,2)] by blast
  ultimately show ?thesis by auto
qed

lemma step_view:
  assumes "pg_step (st, s) es (st1, s1)" and "pg_consistent s" and "watches l k s" and "watches l k s1"
  shows "pg_replay l k es (set (g_members (group_at s k))) = set (g_members (group_at s1 k))"
  using assms(1)
proof (cases rule: pg_step.cases)
  case (op old p)
  show ?thesis
  proof (cases p)
    case (Join sc gr actors)
    define joined where "joined = filter (\<lambda>a. old a \<le> Draining \<and> st a \<le> Draining) actors"
    have j: "join_scoped old st sc gr actors s = (s1, es)" using op Join by simp
    note at = join_scoped_at [OF j joined_def]
    have m: "set (g_members (group_at s1 k)) = apply_change k (GroupJoin sc gr joined) (set (g_members (group_at s k)))"
      using at(1) by (auto simp: pg_joins_def)
    show ?thesis
    proof (cases "joined = []")
      case True
      with at(2) m show ?thesis by simp
    next
      case False
      with at(2) m replay_join [OF assms(3)] show ?thesis by simp
    qed
  next
    case (Leave sc gr actors)
    have j: "leave_scoped sc gr actors s = (s1, es)" using op Leave by simp
    note at = leave_scoped_at [OF j assms(2)]
    have m: "set (g_members (group_at s1 k)) = apply_change k (GroupLeave sc gr actors) (set (g_members (group_at s k)))"
      using at by (auto simp: pg_leaves_def)
    show ?thesis
    proof (cases "hm_get (pg_map s) (join_key sc gr)")
      case None
      with j show ?thesis by (simp add: leave_scoped_def flip: join_key_def)
    next
      case (Some g)
      with at m replay_leave [OF assms(3)] show ?thesis by simp
    qed
  next
    case (Demonitor gr a)
    with op demonitor_at(3) [OF assms(2) refl] show ?thesis by auto
  next
    case (DemonitorScope sc a)
    with op demonitor_scope_at(3) [OF assms(2) refl] show ?thesis by auto
  next
    case (Monitor gr a)
    with op monitor_at(3) [OF refl] show ?thesis by auto
  next
    case (MonitorScope sc a)
    with op monitor_scope_at(3) [OF refl] show ?thesis by auto
  qed
next
  case (stop a x)
  let ?s = "demonitor_all a s"
  have l: "leave_all a ?s = (s1, es)" using stop by (simp add: pg_shutdown_def)
  have c: "pg_consistent ?s" using assms(2) by (rule demonitor_all_consistent)
  have "l \<noteq> a"
    using assms(4) leave_all_at(3,4) [OF l c] demonitor_all_at(1,2) [OF assms(2) refl] by (auto simp: watches_def)
  then have "watches l k ?s" using assms(3) demonitor_all_at(1,2) [OF assms(2) refl] by (auto simp: watches_def)
  from leave_all_events [OF l c this] show ?thesis using demonitor_all_at(3) [OF assms(2) refl] by simp
qed simp


lemma step_run: "pg_step x es y \<Longrightarrow> pg_run (fst x) (snd x) \<Longrightarrow> pg_run (fst y) (snd y)"
proof (induction rule: pg_step.induct)
  case (op old st p s s1 es)
  then show ?case using pg_op [of st s old p] by simp
next
  case (status st a x s)
  then show ?case unfolding fst_conv snd_conv by (intro pg_status)
next
  case (stop st a x s s1 es)
  then have "pg_run (st(a := x)) (fst (pg_shutdown a s))" by (intro pg_stop) simp_all
  with stop.hyps(3) show ?case by (simp only: fst_conv snd_conv)
qed

lemma watch_view:
  assumes "pg_watch l k x es y" and "pg_run (fst x) (snd x)"
  shows "pg_run (fst y) (snd y) \<and> watches l k (snd y) \<and>
    pg_replay l k es (set (g_members (group_at (snd x) k))) = set (g_members (group_at (snd y) k))"
  using assms
proof (induction rule: pg_watch.induct)
  case (watch_step x es y es1 z)
  then have r: "pg_run (fst y) (snd y)" "watches l k (snd y)"
    "pg_replay l k es (set (g_members (group_at (snd x) k))) = set (g_members (group_at (snd y) k))" by simp_all
  from r(1) have "pg_consistent (snd y)" using pg_run_inv by (simp add: pg_inv_def)
  with step_view [of "fst y" "snd y" es1 "fst z" "snd z" l k] r watch_step step_run [OF watch_step.hyps(2) r(1)]
  show ?case by (simp add: pg_replay_append)
qed simp

lemma get_scoped_members_at: "get_scoped_members sc gr s = g_members (group_at s (join_key sc gr))"
  by (simp add: get_scoped_members_def group_at_def join_key_def split: option.split)

lemma hm_wf_in_get: "hm_wf m \<Longrightarrow> (k, v) \<in> set m \<longleftrightarrow> hm_get m k = Some v"
  by (simp add: map_of_eq_Some_iff)

lemma which_scopes_and_groups_at:
  "hm_wf (pg_map s) \<Longrightarrow> k \<in> set (which_scopes_and_groups s) \<longleftrightarrow> g_members (group_at s k) \<noteq> []"
proof -
  assume wf: "hm_wf (pg_map s)"
  have "k \<in> set (which_scopes_and_groups s) \<longleftrightarrow> (\<exists>g. (k, g) \<in> set (pg_map s) \<and> g_members g \<noteq> [])"
    by (force simp: which_scopes_and_groups_def)
  also have "\<dots> \<longleftrightarrow> (\<exists>g. hm_get (pg_map s) k = Some g \<and> g_members g \<noteq> [])" by (simp add: hm_wf_in_get [OF wf])
  also have "\<dots> \<longleftrightarrow> g_members (group_at s k) \<noteq> []" by (cases "hm_get (pg_map s) k") (simp_all add: group_at_def)
  finally show ?thesis .
qed

section \<open>Properties\<close>

text \<open>
  C6. After any sequence of operations and status changes the indexes of the process
  groups agree: the groups of a scope are exactly those with members, by the scope index as well as
  by the scan over all groups; no empty group or empty set of monitors is kept; and an actor that
  is stopping or stopped is a member of no group and monitors none.
\<close>

theorem pg_indexes:
  assumes "pg_run st s"
  shows "(gr \<in> set (which_scoped_groups sc s) \<longleftrightarrow> get_scoped_members sc gr s \<noteq> []) \<and>
    (k \<in> set (which_scopes_and_groups s) \<longleftrightarrow> get_scoped_members (key_scope k) (key_group k) s \<noteq> []) \<and>
    (k, no_group) \<notin> set (pg_map s) \<and>
    (Stopping \<le> st a \<longrightarrow> a \<notin> set (get_scoped_members sc gr s) \<and> \<not> watches a k s)"
proof -
  have inv: "pg_inv st s" using assms by (rule pg_run_inv)
  then have c: "pg_consistent s" and wf: "hm_wf (pg_map s)" by (simp_all add: pg_inv_def pg_neat_def)
  have "gr \<in> set (which_scoped_groups sc s) \<longleftrightarrow> get_scoped_members sc gr s \<noteq> []"
    using c unfolding get_scoped_members_at pg_consistent_def by (metis join_key_sel)
  moreover have "k \<in> set (which_scopes_and_groups s) \<longleftrightarrow> get_scoped_members (key_scope k) (key_group k) s \<noteq> []"
    by (simp add: which_scopes_and_groups_at [OF wf] get_scoped_members_at key_join_key)
  moreover have "hm_get (pg_map s) k \<noteq> Some no_group" using inv by (simp add: pg_inv_def pg_neat_def)
  then have "(k, no_group) \<notin> set (pg_map s)" using hm_wf_in_get [OF wf, of k no_group] by blast
  moreover have "a \<notin> set (get_scoped_members sc gr s) \<and> \<not> watches a k s" if "Stopping \<le> st a"
  proof -
    have "relations_at s a = no_relations" using inv that by (simp add: pg_inv_def relations_at_None)
    then have "\<not> is_member s a k1 \<and> \<not> is_listener s a k1 \<and> \<not> is_world_listener s a k1" for k1
      using c by (simp add: pg_consistent_def)
    then show ?thesis by (simp add: get_scoped_members_at watches_def)
  qed
  ultimately show ?thesis by blast
qed


section \<open>Examples\<close>

definition ex_pg :: pg_state where
  "ex_pg = fst (pg_apply (\<lambda>a. Unstarted) (\<lambda>a. Unstarted) (Monitor ''g'' (Local 9)) pg_new)"

definition ex_pg_join :: "pg_state \<times> notification list" where
  "ex_pg_join = pg_apply (\<lambda>a. Unstarted) (\<lambda>a. Unstarted) (Join DEFAULT_SCOPE ''g'' [Local 1, Local 2]) ex_pg"

definition ex_pg_stop :: "pg_state \<times> notification list" where
  "ex_pg_stop = pg_shutdown (Local 1) (fst ex_pg_join)"

lemma ex_pg_runs:
  "pg_run (\<lambda>a. Unstarted) ex_pg" "pg_step (\<lambda>a. Unstarted, ex_pg) (snd ex_pg_join) (\<lambda>a. Unstarted, fst ex_pg_join)"
  "pg_step (\<lambda>a. Unstarted, fst ex_pg_join) (snd ex_pg_stop) ((\<lambda>a. Unstarted)(Local 1 := Stopped), fst ex_pg_stop)"
proof -
  show "pg_run (\<lambda>a. Unstarted) ex_pg" unfolding ex_pg_def by (rule pg_op [OF pg_init]) simp
  show "pg_step (\<lambda>a. Unstarted, ex_pg) (snd ex_pg_join) (\<lambda>a. Unstarted, fst ex_pg_join)"
    by (rule pg_step.op [where old = "\<lambda>a. Unstarted" and p = "Join DEFAULT_SCOPE ''g'' [Local 1, Local 2]"])
      (simp_all add: ex_pg_join_def)
  show "pg_step (\<lambda>a. Unstarted, fst ex_pg_join) (snd ex_pg_stop) ((\<lambda>a. Unstarted)(Local 1 := Stopped), fst ex_pg_stop)"
    by (rule pg_step.stop) (simp_all add: ex_pg_stop_def status_compare)
qed

lemmas pg_eval = ex_pg_def ex_pg_join_def ex_pg_stop_def pg_new_def monitor_def monitor_enter_def join_scoped_def join_visit_def join_commit_def
  put_group_def put_relations_def group_at_def relations_at_def world_at_def no_group_def no_relations_def join_start_def
  add_group_to_index_def hs_insert_def notify_all_def notify_world_listeners_def pg_shutdown_def demonitor_all_def
  take_monitors_def leave_all_def take_memberships_def leave_key_def retire_group_def remove_empty_actor_relations_def
  remove_group_from_index_def relations_empty_def group_empty_def get_scoped_members_def Let_def status_compare

lemma ex_pg_watch:
  "watches (Local 9) (join_key DEFAULT_SCOPE ''g'') ex_pg" "watches (Local 9) (join_key DEFAULT_SCOPE ''g'') (fst ex_pg_join)"
  "watches (Local 9) (join_key DEFAULT_SCOPE ''g'') (fst ex_pg_stop)"
  by (simp_all add: watches_def join_key_def pg_eval)


lemma ex_pg_members:
  "get_scoped_members DEFAULT_SCOPE ''g'' ex_pg = []" "get_scoped_members DEFAULT_SCOPE ''g'' (fst ex_pg_stop) = [Local 2]"
  by (simp_all add: pg_eval)

lemma ex_pg_stop_run: "pg_run ((\<lambda>a. Unstarted)(Local 1 := Stopped)) (fst ex_pg_stop)"
  using step_run [OF ex_pg_runs(3)] step_run [OF ex_pg_runs(2)] ex_pg_runs(1) by (simp only: fst_conv snd_conv)

theorem pg_indexes_witness:
  "pg_run ((\<lambda>a. Unstarted)(Local 1 := Stopped)) (fst ex_pg_stop) \<and>
   Local 1 \<notin> set (get_scoped_members DEFAULT_SCOPE ''g'' (fst ex_pg_stop)) \<and>
   ''g'' \<in> set (which_scoped_groups DEFAULT_SCOPE (fst ex_pg_stop))"
  using pg_indexes [OF ex_pg_stop_run, of "''g''" DEFAULT_SCOPE "join_key DEFAULT_SCOPE ''g''" "Local 1"]
    ex_pg_stop_run ex_pg_members(2) by simp


end
