(* ===== verification/Process_Groups_Races.thy ===== *)
theory Process_Groups_Races
  imports Process_Groups
begin

text \<open>
  The operations of \<open>ractor/src/pg.rs\<close> running concurrently. Any number of threads share the state;
  a step of a thread is a stretch of code under one lock. The entry of a group is held from
  \<open>join_begin\<close> to \<open>join_end\<close> and from \<open>leave_begin\<close> to \<open>leave_end\<close>, so other threads wait for it
  (\<open>entry_free\<close>), while the relations of an actor are locked for one visit only. A visit looks up
  the relations, locks them, reads the status and writes: one step, because shutdown publishes the
  status before it looks the relations up and takes them under the same lock. Shutdown
  (\<open>ActorCell::set_status\<close>) publishes the status, takes the relations, and then leaves the groups
  one by one, while other threads join, leave and monitor.
\<close>

section \<open>Threads\<close>

datatype pg_thread =
    Idle
  | Joining scope_group_key "actor_id list" "actor_id list" join_loop
  | Sweeping scope_group_key "actor_id list" bool
  | Exiting scope_group_key "actor_id list"
  | Monitored scope_group_key actor_id
  | ScopeMonitored scope_group_key actor_id
  | StopMonitors actor_id
  | Demonitoring actor_id "scope_group_key list" "scope_group_key list"
  | StopGroups actor_id
  | Leaving actor_id "scope_group_key list"

text \<open>The group entry a thread holds.\<close>

fun holds_entry :: "pg_thread \<Rightarrow> scope_group_key option" where
  "holds_entry (Joining k todo actors jl) = Some k"
| "holds_entry (Exiting k todo) = Some k"
| "holds_entry t = None"

fun stops :: "pg_thread \<Rightarrow> actor_id \<Rightarrow> bool" where
  "stops (StopMonitors b) a = (b = a)"
| "stops (Demonitoring b gs ws) a = (b = a)"
| "stops (StopGroups b) a = (b = a)"
| "stops (Leaving b ks) a = (b = a)"
| "stops t a = False"

record pg_system =
  statuses :: "actor_id \<Rightarrow> actor_status"
  pg :: pg_state
  threads :: "nat \<Rightarrow> pg_thread"

definition entry_free :: "pg_system \<Rightarrow> scope_group_key \<Rightarrow> bool" where
  "entry_free x k \<longleftrightarrow> (\<forall>t. holds_entry (threads x t) \<noteq> Some k)"

definition go :: "nat \<Rightarrow> pg_thread \<Rightarrow> pg_state \<Rightarrow> pg_system \<Rightarrow> pg_system" where
  "go t th s x = x\<lparr>pg := s, threads := (threads x)(t := th)\<rparr>"

inductive race_step :: "pg_system \<Rightarrow> pg_system \<Rightarrow> bool" where
  join_begin: "threads x t = Idle \<Longrightarrow> entry_free x k \<Longrightarrow>
    race_step x (go t (Joining k actors actors join_start) (put_group k (group_at (pg x) k) (pg x)) x)"
| join_next: "threads x t = Joining k (a # todo) actors jl \<Longrightarrow>
    join_visit (statuses x a) k a (jl, pg x) = (jl1, s1) \<Longrightarrow>
    race_step x (go t (Joining k todo actors jl1) s1 x)"
| join_end: "threads x t = Joining k [] actors jl \<Longrightarrow> joined = filter (\<lambda>a. a \<in> set (accepted jl)) actors \<Longrightarrow>
    race_step x (go t (Sweeping k (stopped_relations jl) (joined = [])) (join_commit k joined (pg x)) x)"
| sweep: "threads x t = Sweeping k (a # as) e \<Longrightarrow>
    race_step x (go t (Sweeping k as e) (remove_empty_actor_relations a (pg x)) x)"
| sweep_end: "threads x t = Sweeping k [] e \<Longrightarrow> e \<longrightarrow> entry_free x k \<Longrightarrow>
    race_step x (go t Idle (if e then drop_empty_group k (pg x) else pg x) x)"
| leave_begin: "threads x t = Idle \<Longrightarrow> entry_free x k \<Longrightarrow> hm_contains (pg_map (pg x)) k \<Longrightarrow>
    race_step x (go t (Exiting k actors) (pg x) x)"
| leave_next: "threads x t = Exiting k (a # todo) \<Longrightarrow>
    race_step x (go t (Exiting k todo) (leave_one k a (pg x)) x)"
| leave_end: "threads x t = Exiting k [] \<Longrightarrow> race_step x (go t Idle (retire_group k (pg x)) x)"
| monitor_begin: "threads x t = Idle \<Longrightarrow> entry_free x k \<Longrightarrow>
    race_step x (go t (Monitored k a) (monitor_enter (statuses x a) k a (pg x)) x)"
| monitor_end: "threads x t = Monitored k a \<Longrightarrow> statuses x a < Stopping \<Longrightarrow> race_step x (go t Idle (pg x) x)"
| monitor_undo: "threads x t = Monitored k a \<Longrightarrow> Stopping \<le> statuses x a \<Longrightarrow> entry_free x k \<Longrightarrow>
    race_step x (go t (Sweeping k [a] False) (drop_empty_group k (pg x)) x)"
| scope_begin: "threads x t = Idle \<Longrightarrow>
    race_step x (go t (ScopeMonitored k a) (monitor_scope_enter (statuses x a) k a (pg x)) x)"
| scope_end: "threads x t = ScopeMonitored k a \<Longrightarrow> statuses x a < Stopping \<Longrightarrow> race_step x (go t Idle (pg x) x)"
| scope_undo: "threads x t = ScopeMonitored k a \<Longrightarrow> Stopping \<le> statuses x a \<Longrightarrow>
    race_step x (go t (Sweeping k [a] False) (drop_empty_world k (pg x)) x)"
| demonitor: "threads x t = Idle \<Longrightarrow> entry_free x (join_key DEFAULT_SCOPE gr) \<Longrightarrow>
    race_step x (go t Idle (demonitor gr a (pg x)) x)"
| demonitor_stale: "threads x t = Idle \<Longrightarrow> entry_free x k \<Longrightarrow> race_step x (go t Idle (unlisten_group a k (pg x)) x)"
| demonitor_scope: "threads x t = Idle \<Longrightarrow> race_step x (go t Idle (demonitor_scope sc a (pg x)) x)"
| demonitor_scope_stale: "threads x t = Idle \<Longrightarrow> race_step x (go t Idle (unlisten_world a k (pg x)) x)"
| set_status: "statuses x a \<le> st \<Longrightarrow> st < Stopping \<or> Stopping \<le> statuses x a \<Longrightarrow>
    race_step x (x\<lparr>statuses := (statuses x)(a := st)\<rparr>)"
| stop_begin: "threads x t = Idle \<Longrightarrow> statuses x a < Stopping \<Longrightarrow> Stopping \<le> st \<Longrightarrow>
    race_step x (go t (StopMonitors a) (pg x) (x\<lparr>statuses := (statuses x)(a := st)\<rparr>))"
| stop_take_monitors: "threads x t = StopMonitors a \<Longrightarrow> take_monitors a (pg x) = ((gs, ws), s1) \<Longrightarrow>
    race_step x (go t (Demonitoring a gs ws) s1 x)"
| stop_group_monitor: "threads x t = Demonitoring a (k # gs) ws \<Longrightarrow> entry_free x k \<Longrightarrow>
    race_step x (go t (Demonitoring a gs ws) (unlisten_group a k (pg x)) x)"
| stop_world_monitor: "threads x t = Demonitoring a [] (k # ws) \<Longrightarrow>
    race_step x (go t (Demonitoring a [] ws) (unlisten_world a k (pg x)) x)"
| stop_monitors_end: "threads x t = Demonitoring a [] [] \<Longrightarrow> race_step x (go t (StopGroups a) (pg x) x)"
| stop_take_groups: "threads x t = StopGroups a \<Longrightarrow> take_memberships a (pg x) = (ks, s1) \<Longrightarrow>
    race_step x (go t (Leaving a ks) s1 x)"
| stop_group: "threads x t = Leaving a (k # ks) \<Longrightarrow> entry_free x k \<Longrightarrow>
    race_step x (go t (Leaving a ks) (fst (leave_key a k (pg x))) x)"
| stop_end: "threads x t = Leaving a [] \<Longrightarrow>
    race_step x (go t Idle (remove_empty_actor_relations a (pg x)) x)"

definition race_init :: pg_system where
  "race_init = \<lparr>statuses = (\<lambda>a. Unstarted), pg = pg_new, threads = (\<lambda>t. Idle)\<rparr>"

inductive race_run :: "pg_system \<Rightarrow> bool" where
  race_start: "race_run race_init"
| race_next: "race_run x \<Longrightarrow> race_step x y \<Longrightarrow> race_run y"

section \<open>The invariant\<close>

text \<open>
  Whatever an actor is entered for is in its relations, or its shutdown still has it on its list;
  once its shutdown has taken the relations, nothing is added to them.
\<close>

fun joins_for :: "pg_thread \<Rightarrow> actor_id \<Rightarrow> scope_group_key \<Rightarrow> bool" where
  "joins_for (Joining k todo actors jl) a k1 = (k1 = k \<and> a \<in> set (accepted jl))"
| "joins_for t a k1 = False"

fun will_leave :: "pg_thread \<Rightarrow> actor_id \<Rightarrow> scope_group_key \<Rightarrow> bool" where
  "will_leave (Leaving b ks) a k = (b = a \<and> k \<in> set ks)"
| "will_leave t a k = False"

fun will_unlisten :: "pg_thread \<Rightarrow> actor_id \<Rightarrow> scope_group_key \<Rightarrow> bool" where
  "will_unlisten (Demonitoring b gs ws) a k = (b = a \<and> k \<in> set gs)"
| "will_unlisten t a k = False"

fun will_unlisten_world :: "pg_thread \<Rightarrow> actor_id \<Rightarrow> scope_group_key \<Rightarrow> bool" where
  "will_unlisten_world (Demonitoring b gs ws) a k = (b = a \<and> k \<in> set ws)"
| "will_unlisten_world t a k = False"

fun before_monitors :: "pg_thread \<Rightarrow> actor_id \<Rightarrow> bool" where
  "before_monitors (StopMonitors b) a = (b = a)"
| "before_monitors t a = False"

fun before_groups :: "pg_thread \<Rightarrow> actor_id \<Rightarrow> bool" where
  "before_groups (StopMonitors b) a = (b = a)"
| "before_groups (Demonitoring b gs ws) a = (b = a)"
| "before_groups (StopGroups b) a = (b = a)"
| "before_groups t a = False"

definition some_thread :: "(pg_thread \<Rightarrow> bool) \<Rightarrow> pg_system \<Rightarrow> bool" where
  "some_thread P x \<longleftrightarrow> (\<exists>t. P (threads x t))"

definition race_inv :: "pg_system \<Rightarrow> bool" where
  "race_inv x \<longleftrightarrow>
     (\<forall>t u k. holds_entry (threads x t) = Some k \<and> holds_entry (threads x u) = Some k \<longrightarrow> t = u) \<and>
     (\<forall>a k. is_member (pg x) a k \<or> some_thread (\<lambda>th. joins_for th a k) x \<longrightarrow>
        k \<in> set (memberships (relations_at (pg x) a)) \<or> some_thread (\<lambda>th. will_leave th a k) x) \<and>
     (\<forall>a k. is_listener (pg x) a k \<longrightarrow>
        k \<in> set (group_monitors (relations_at (pg x) a)) \<or> some_thread (\<lambda>th. will_unlisten th a k) x) \<and>
     (\<forall>a k. is_world_listener (pg x) a k \<longrightarrow>
        k \<in> set (world_monitors (relations_at (pg x) a)) \<or> some_thread (\<lambda>th. will_unlisten_world th a k) x) \<and>
     (\<forall>a k. Stopping \<le> statuses x a \<and> \<not> some_thread (\<lambda>th. before_monitors th a) x \<longrightarrow>
        k \<notin> set (group_monitors (relations_at (pg x) a)) \<and> k \<notin> set (world_monitors (relations_at (pg x) a))) \<and>
     (\<forall>a k. Stopping \<le> statuses x a \<and> \<not> some_thread (\<lambda>th. before_groups th a) x \<longrightarrow>
        k \<notin> set (memberships (relations_at (pg x) a)))"

text \<open>What a step of thread \<open>t\<close> from \<open>th0\<close> to \<open>th\<close> must do for the invariant.\<close>

lemma some_thread_go: "some_thread P (go t th s x) \<longleftrightarrow> P th \<or> (\<exists>u. u \<noteq> t \<and> P (threads x u))"
  by (auto simp: some_thread_def go_def)

lemma some_thread_at: "some_thread P x \<longleftrightarrow> P (threads x t) \<or> (\<exists>u. u \<noteq> t \<and> P (threads x u))"
  by (auto simp: some_thread_def)

lemma race_inv_go:
  assumes inv: "race_inv x"
    and E: "\<And>k. holds_entry th = Some k \<Longrightarrow> holds_entry (threads x t) = Some k \<or> entry_free x k"
    and M1: "\<And>a k. is_member s a k \<Longrightarrow> is_member (pg x) a k \<or> joins_for (threads x t) a k \<or> k \<in> set (memberships (relations_at s a))"
    and M2: "\<And>a k. joins_for th a k \<Longrightarrow> joins_for (threads x t) a k \<or> k \<in> set (memberships (relations_at s a))"
    and M3: "\<And>a k. k \<in> set (memberships (relations_at (pg x) a)) \<Longrightarrow> k \<in> set (memberships (relations_at s a)) \<or> will_leave th a k \<or>
        \<not> is_member s a k \<and> \<not> joins_for th a k \<and> (\<forall>u. u \<noteq> t \<longrightarrow> \<not> joins_for (threads x u) a k)"
    and M4: "\<And>a k. will_leave (threads x t) a k \<Longrightarrow> will_leave th a k \<or>
        \<not> is_member s a k \<and> \<not> joins_for th a k \<and> (\<forall>u. u \<noteq> t \<longrightarrow> \<not> joins_for (threads x u) a k)"
    and L1: "\<And>a k. is_listener s a k \<Longrightarrow> is_listener (pg x) a k \<or> k \<in> set (group_monitors (relations_at s a))"
    and L2: "\<And>a k. k \<in> set (group_monitors (relations_at (pg x) a)) \<or> will_unlisten (threads x t) a k \<Longrightarrow> is_listener s a k \<Longrightarrow>
        k \<in> set (group_monitors (relations_at s a)) \<or> will_unlisten th a k"
    and W1: "\<And>a k. is_world_listener s a k \<Longrightarrow> is_world_listener (pg x) a k \<or> k \<in> set (world_monitors (relations_at s a))"
    and W2: "\<And>a k. k \<in> set (world_monitors (relations_at (pg x) a)) \<or> will_unlisten_world (threads x t) a k \<Longrightarrow> is_world_listener s a k \<Longrightarrow>
        k \<in> set (world_monitors (relations_at s a)) \<or> will_unlisten_world th a k"
    and Q1: "\<And>a k. Stopping \<le> statuses x a \<Longrightarrow> \<not> before_monitors th a \<Longrightarrow> before_monitors (threads x t) a \<or>
        k \<notin> set (group_monitors (relations_at (pg x) a)) \<Longrightarrow> k \<notin> set (group_monitors (relations_at s a))"
    and Q2: "\<And>a k. Stopping \<le> statuses x a \<Longrightarrow> \<not> before_monitors th a \<Longrightarrow> before_monitors (threads x t) a \<or>
        k \<notin> set (world_monitors (relations_at (pg x) a)) \<Longrightarrow> k \<notin> set (world_monitors (relations_at s a))"
    and Q3: "\<And>a k. Stopping \<le> statuses x a \<Longrightarrow> \<not> before_groups th a \<Longrightarrow> before_groups (threads x t) a \<or>
        k \<notin> set (memberships (relations_at (pg x) a)) \<Longrightarrow> k \<notin> set (memberships (relations_at s a))"
  shows "race_inv (go t th s x)"
proof -
  have g: "pg (go t th s x) = s" "statuses (go t th s x) = statuses x" by (simp_all add: go_def)
  have "\<forall>t' u k. holds_entry (threads (go t th s x) t') = Some k \<and> holds_entry (threads (go t th s x) u) = Some k \<longrightarrow> t' = u"
    using inv E by (auto simp: race_inv_def go_def entry_free_def split: if_splits)
  moreover have "k \<in> set (memberships (relations_at s a)) \<or> some_thread (\<lambda>th. will_leave th a k) (go t th s x)"
    if "is_member s a k \<or> some_thread (\<lambda>th. joins_for th a k) (go t th s x)" for a k
  proof -
    have "k \<in> set (memberships (relations_at s a)) \<or> is_member (pg x) a k \<or> some_thread (\<lambda>th. joins_for th a k) x"
      using that M1 M2 unfolding some_thread_go some_thread_at [of _ x t] by blast
    then consider "k \<in> set (memberships (relations_at s a))" | "k \<in> set (memberships (relations_at (pg x) a))"
      | "some_thread (\<lambda>th. will_leave th a k) x" using inv unfolding race_inv_def by blast
    then show ?thesis
    proof cases
      case 2
      with M3 [OF this] that show ?thesis unfolding some_thread_go by blast
    next
      case 3
      with M4 [of a k] that show ?thesis unfolding some_thread_go some_thread_at [of _ x t] by blast
    qed simp
  qed
  moreover have "k \<in> set (group_monitors (relations_at s a)) \<or> some_thread (\<lambda>th. will_unlisten th a k) (go t th s x)"
    if "is_listener s a k" for a k
    using inv L1 [OF that] L2 [OF _ that] unfolding race_inv_def some_thread_go some_thread_at [of _ x t] by metis
  moreover have "k \<in> set (world_monitors (relations_at s a)) \<or> some_thread (\<lambda>th. will_unlisten_world th a k) (go t th s x)"
    if "is_world_listener s a k" for a k
    using inv W1 [OF that] W2 [OF _ that] unfolding race_inv_def some_thread_go some_thread_at [of _ x t] by metis
  moreover have "k \<notin> set (group_monitors (relations_at s a)) \<and> k \<notin> set (world_monitors (relations_at s a))"
    if "Stopping \<le> statuses x a" "\<not> some_thread (\<lambda>th. before_monitors th a) (go t th s x)" for a k
    using inv Q1 [OF that(1)] Q2 [OF that(1)] that unfolding race_inv_def some_thread_go some_thread_at [of _ x t] by metis
  moreover have "k \<notin> set (memberships (relations_at s a))"
    if "Stopping \<le> statuses x a" "\<not> some_thread (\<lambda>th. before_groups th a) (go t th s x)" for a k
    using inv Q3 [OF that(1)] that unfolding race_inv_def some_thread_go some_thread_at [of _ x t] by metis
  ultimately show ?thesis unfolding race_inv_def g by blast
qed


text \<open>Steps that change no reading of the state and nothing the invariant says of the thread.\<close>

lemma race_inv_quiet:
  assumes "race_inv x" and "pg_same (pg x) s" and "\<And>k. holds_entry th = Some k \<Longrightarrow> holds_entry (threads x t) = Some k \<or> entry_free x k"
    and "\<And>a k. joins_for th a k \<Longrightarrow> joins_for (threads x t) a k" and "\<And>a k. \<not> will_leave (threads x t) a k"
    and "\<And>a k. \<not> will_unlisten (threads x t) a k" and "\<And>a k. \<not> will_unlisten_world (threads x t) a k"
    and "\<And>a. \<not> before_monitors (threads x t) a" and "\<And>a. \<not> before_groups (threads x t) a"
  shows "race_inv (go t th s x)"
  using assms(2) by (intro race_inv_go [OF assms(1) assms(3)]) (auto simp: pg_same_def assms(4-9))

lemma race_inv_visit:
  assumes "race_inv x" and "threads x t = Joining k (a # todo) actors jl"
    and "join_visit (statuses x a) k a (jl, pg x) = (jl1, s1)"
  shows "race_inv (go t (Joining k todo actors jl1) s1 x)"
proof -
  note at = join_visit_at [OF assms(3)]
  have ns: "\<not> (Stopping \<le> statuses x a \<and> statuses x a \<le> Draining)" by (simp add: status_cases_le(1) not_less)
  show ?thesis by (rule race_inv_go [OF assms(1)]) (use assms(2) at ns in \<open>auto split: if_splits\<close>)
qed

lemma race_inv_commit:
  assumes "race_inv x" and "threads x t = Joining k [] actors jl" and "joined = filter (\<lambda>a. a \<in> set (accepted jl)) actors"
  shows "race_inv (go t (Sweeping k (stopped_relations jl) e) (join_commit k joined (pg x)) x)"
  by (rule race_inv_go [OF assms(1)]) (use assms(2,3) in \<open>auto simp: join_commit_at split: if_splits\<close>)

lemma race_inv_leave_one:
  assumes "race_inv x" and "threads x t = Exiting k (a # todo)"
  shows "race_inv (go t (Exiting k todo) (leave_one k a (pg x)) x)"
proof -
  have l: "pg_leaves k {a} (pg x) (leave_one k a (pg x))" by (rule leave_one_at)
  have n: "\<not> joins_for (threads x u) b k" if "u \<noteq> t" for u b
  proof
    assume "joins_for (threads x u) b k"
    then have "holds_entry (threads x u) = Some k" by (cases "threads x u") auto
    with assms that show False unfolding race_inv_def by (metis holds_entry.simps(2))
  qed
  show ?thesis
    by (rule race_inv_go [OF assms(1)]) (use assms(2) l n in \<open>auto simp: pg_leaves_def\<close>)
qed

lemma race_inv_leave_key:
  assumes "race_inv x" and "threads x t = Leaving a (k # ks)" and "entry_free x k"
  shows "race_inv (go t (Leaving a ks) (fst (leave_key a k (pg x))) x)"
proof -
  note at = leave_key_at [OF prod.collapse [symmetric], where a = a and k = k and s = "pg x"]
  have n: "\<not> joins_for (threads x u) b k" for u b
  proof
    assume "joins_for (threads x u) b k"
    then have "holds_entry (threads x u) = Some k" by (cases "threads x u") auto
    with assms(3) show False by (simp add: entry_free_def)
  qed
  show ?thesis
    by (rule race_inv_go [OF assms(1)]) (use assms(2) at(1-4) n in \<open>auto\<close>)
qed


lemma race_inv_monitor:
  assumes "race_inv x" and "threads x t = Idle"
  shows "race_inv (go t (Monitored k a) (monitor_enter (statuses x a) k a (pg x)) x)"
    and "race_inv (go t (ScopeMonitored k a) (monitor_scope_enter (statuses x a) k a (pg x)) x)"
proof -
  have ns: "\<not> (Stopping \<le> statuses x a \<and> statuses x a \<le> Draining)" by (simp add: status_cases_le(1) not_less)
  show "race_inv (go t (Monitored k a) (monitor_enter (statuses x a) k a (pg x)) x)"
    by (rule race_inv_go [OF assms(1)]) (use assms(2) ns in \<open>auto simp: monitor_enter_def Let_def split: if_splits\<close>)
  show "race_inv (go t (ScopeMonitored k a) (monitor_scope_enter (statuses x a) k a (pg x)) x)"
    by (rule race_inv_go [OF assms(1)]) (use assms(2) ns in \<open>auto simp: monitor_scope_enter_def Let_def split: if_splits\<close>)
qed

lemma pg_same_drop_world: "pg_same s (drop_empty_world k s)"
  by (auto simp: pg_same_def drop_empty_world_def world_at_def group_at_def relations_at_def which_scoped_groups_def fun_eq_iff)

lemma race_inv_monitor_end:
  assumes "race_inv x" and "threads x t = Monitored k a \<or> threads x t = ScopeMonitored k a \<or> (\<exists>e as. threads x t = Sweeping k as e)"
    and "pg_same (pg x) s"
  shows "race_inv (go t Idle s x)"
  by (rule race_inv_quiet [OF assms(1,3)]) (use assms(2) in auto)

lemma race_inv_demonitor:
  assumes "race_inv x" and "threads x t = Idle"
  shows "race_inv (go t Idle (demonitor gr a (pg x)) x)" "race_inv (go t Idle (unlisten_group a k (pg x)) x)"
    "race_inv (go t Idle (demonitor_scope sc a (pg x)) x)" "race_inv (go t Idle (unlisten_world a k (pg x)) x)"
proof -
  show "race_inv (go t Idle (unlisten_group a k (pg x)) x)" "race_inv (go t Idle (unlisten_world a k (pg x)) x)"
    by (rule race_inv_go [OF assms(1)]; use assms(2) in auto)+
  show "race_inv (go t Idle (demonitor gr a (pg x)) x)"
    by (rule race_inv_go [OF assms(1)])
      (use assms(2) in \<open>auto simp: demonitor_def Let_def relations_at_None relations_at_Some split: option.splits\<close>)
  show "race_inv (go t Idle (demonitor_scope sc a (pg x)) x)"
    by (rule race_inv_go [OF assms(1)])
      (use assms(2) in \<open>auto simp: demonitor_scope_def Let_def relations_at_None relations_at_Some split: option.splits\<close>)
qed

lemma race_inv_status:
  assumes "race_inv x" and "statuses x a \<le> st" and "st < Stopping \<or> Stopping \<le> statuses x a"
  shows "race_inv (x\<lparr>statuses := (statuses x)(a := st)\<rparr>)"
proof -
  have "Stopping \<le> statuses x b" if "Stopping \<le> ((statuses x)(a := st)) b" for b
    using assms(2,3) that by (auto split: if_splits)
  moreover have "some_thread P (x\<lparr>statuses := y\<rparr>) = some_thread P x" for P y by (simp add: some_thread_def)
  ultimately show ?thesis using assms(1) unfolding race_inv_def by simp
qed

lemma race_inv_stop:
  assumes "race_inv x" and "threads x t = Idle"
  shows "race_inv (go t (StopMonitors a) (pg x) (x\<lparr>statuses := (statuses x)(a := st)\<rparr>))"
proof -
  let ?y = "go t (StopMonitors a) (pg x) (x\<lparr>statuses := (statuses x)(a := st)\<rparr>)"
  have th: "some_thread P ?y \<longleftrightarrow> P (StopMonitors a) \<or> (\<exists>u. u \<noteq> t \<and> P (threads x u))" for P
    by (auto simp: some_thread_def go_def)
  have old: "some_thread P x \<longleftrightarrow> P Idle \<or> (\<exists>u. u \<noteq> t \<and> P (threads x u))" for P
    using some_thread_at [of P x t] assms(2) by simp
  have y: "pg ?y = pg x" "statuses ?y = (statuses x)(a := st)" by (simp_all add: go_def)
  have "\<forall>t' u k. holds_entry (threads ?y t') = Some k \<and> holds_entry (threads ?y u) = Some k \<longrightarrow> t' = u"
    using assms by (auto simp: race_inv_def go_def split: if_splits)
  then show ?thesis using assms(1) unfolding race_inv_def y th old by auto
qed

lemma race_inv_take:
  assumes "race_inv x"
  shows "threads x t = StopMonitors a \<Longrightarrow> take_monitors a (pg x) = ((gs, ws), s1) \<Longrightarrow> race_inv (go t (Demonitoring a gs ws) s1 x)"
    and "threads x t = StopGroups a \<Longrightarrow> take_memberships a (pg x) = (ks, s1) \<Longrightarrow> race_inv (go t (Leaving a ks) s1 x)"
proof -
  show "race_inv (go t (Demonitoring a gs ws) s1 x)" if "threads x t = StopMonitors a" "take_monitors a (pg x) = ((gs, ws), s1)"
    by (rule race_inv_go [OF assms])
      (use that in \<open>auto simp: take_monitors_def relations_at_None relations_at_Some split: option.splits if_splits\<close>)
  show "race_inv (go t (Leaving a ks) s1 x)" if "threads x t = StopGroups a" "take_memberships a (pg x) = (ks, s1)"
    by (rule race_inv_go [OF assms])
      (use that in \<open>auto simp: take_memberships_def relations_at_None relations_at_Some split: option.splits if_splits\<close>)
qed

lemma race_inv_shutdown:
  assumes "race_inv x"
  shows "threads x t = Demonitoring a (k # gs) ws \<Longrightarrow> race_inv (go t (Demonitoring a gs ws) (unlisten_group a k (pg x)) x)"
    and "threads x t = Demonitoring a [] (k # ws) \<Longrightarrow> race_inv (go t (Demonitoring a [] ws) (unlisten_world a k (pg x)) x)"
    and "threads x t = Demonitoring a [] [] \<Longrightarrow> race_inv (go t (StopGroups a) (pg x) x)"
    and "threads x t = Leaving a [] \<Longrightarrow> race_inv (go t Idle (remove_empty_actor_relations a (pg x)) x)"
  by (rule race_inv_go [OF assms]; auto)+

lemma race_step_inv: "race_step x y \<Longrightarrow> race_inv x \<Longrightarrow> race_inv y"
proof (induction rule: race_step.induct)
  case (join_begin x t k actors)
  then show ?case by (intro race_inv_quiet) (auto simp: join_start_def)
next
  case (sweep x t k a as e)
  then show ?case by (intro race_inv_quiet) auto
next
  case (leave_begin x t k actors)
  then show ?case by (intro race_inv_quiet) auto
next
  case (leave_end x t k)
  then show ?case by (intro race_inv_go) auto
next
  case (sweep_end x t k e)
  then show ?case by (intro race_inv_monitor_end) auto
next
  case (monitor_end x t k a)
  then show ?case by (intro race_inv_monitor_end) auto
next
  case (monitor_undo x t k a)
  then show ?case by (intro race_inv_quiet) auto
next
  case (scope_end x t k a)
  then show ?case by (intro race_inv_monitor_end) auto
next
  case (scope_undo x t k a)
  then show ?case by (intro race_inv_quiet) (auto simp: pg_same_drop_world)
qed (auto intro: race_inv_visit race_inv_commit race_inv_leave_one race_inv_leave_key race_inv_monitor
    race_inv_demonitor race_inv_status race_inv_stop race_inv_take race_inv_shutdown)

lemma race_run_inv: "race_run x \<Longrightarrow> race_inv x"
proof (induction rule: race_run.induct)
  case race_start
  then show ?case
    by (simp add: race_inv_def race_init_def some_thread_def pg_new_def group_at_def world_at_def relations_at_def)
qed (rule race_step_inv)

section \<open>Properties\<close>

text \<open>
  C7. Whatever other threads join, leave and monitor meanwhile, once the shutdown of
  an actor is through, the actor is a member of no group and monitors none; and since this holds in
  every later state too, no call that was under way can bring it back.
\<close>

theorem shutdown_races:
  assumes "race_run x" and "Stopping \<le> statuses x a" and "\<And>t. \<not> stops (threads x t) a"
  shows "a \<notin> set (get_scoped_members sc gr (pg x)) \<and> \<not> watches a k (pg x)"
proof -
  have no: "\<not> some_thread P x" if "\<And>th. P th \<Longrightarrow> stops th a" for P
    using assms(3) that by (auto simp: some_thread_def)
  have "\<not> some_thread (\<lambda>th. before_monitors th a) x" "\<not> some_thread (\<lambda>th. before_groups th a) x"
    by (rule no, metis before_monitors.elims(2) stops.simps(1), rule no, metis before_groups.elims(2) stops.simps(1-3))
  moreover have "\<not> some_thread (\<lambda>th. will_leave th a k) x" "\<not> some_thread (\<lambda>th. will_unlisten th a k) x"
    "\<not> some_thread (\<lambda>th. will_unlisten_world th a k) x" for k
    by (rule no, metis will_leave.elims(2) stops.simps(4), rule no, metis will_unlisten.elims(2) stops.simps(2),
        rule no, metis will_unlisten_world.elims(2) stops.simps(2))
  ultimately have "\<not> is_member (pg x) a k1 \<and> \<not> is_listener (pg x) a k1 \<and> \<not> is_world_listener (pg x) a k1" for k1
    using race_run_inv [OF assms(1)] assms(2) unfolding race_inv_def by metis
  then show ?thesis by (simp add: get_scoped_members_at watches_def)
qed

text \<open>
  A run in which actor 1 stops in the middle of a call that joins it: it is already accepted when its
  status and its relations are taken, becomes a member afterwards, and is removed in the end.
\<close>

definition ex_key :: scope_group_key where
  "ex_key = join_key DEFAULT_SCOPE ''g''"

definition ex_loop :: join_loop where
  "ex_loop = \<lparr>processed = [Local 1], accepted = [Local 1], stopped_relations = []\<rparr>"

definition ex_pg_0 :: pg_state where
  "ex_pg_0 = put_group ex_key no_group pg_new"

definition ex_pg_1 :: pg_state where
  "ex_pg_1 = put_relations (Local 1) (no_relations\<lparr>memberships := [ex_key]\<rparr>) ex_pg_0"

definition ex_pg_m :: pg_state where
  "ex_pg_m = snd (take_monitors (Local 1) ex_pg_1)"

definition ex_pg_2 :: pg_state where
  "ex_pg_2 = snd (take_memberships (Local 1) ex_pg_m)"

definition ex_pg_3 :: pg_state where
  "ex_pg_3 = join_commit ex_key [Local 1] ex_pg_2"

text \<open>The states with thread 0 at \<open>t0\<close> and thread 2 at \<open>t1\<close>.\<close>

definition two :: "actor_status \<Rightarrow> pg_thread \<Rightarrow> pg_thread \<Rightarrow> pg_state \<Rightarrow> pg_system" where
  "two st t0 t1 s = \<lparr>statuses = (\<lambda>a. Unstarted)(Local 1 := st), pg = s, threads = (\<lambda>t. Idle)(0 := t0, 2 := t1)\<rparr>"

definition ex_race :: pg_system where
  "ex_race = two Stopping Idle Idle (remove_empty_actor_relations (Local 1) (fst (leave_key (Local 1) ex_key ex_pg_3)))"

lemma two_sel:
  "threads (two st t0 t1 s) 0 = t0" "threads (two st t0 t1 s) 2 = t1" "pg (two st t0 t1 s) = s"
  "statuses (two st t0 t1 s) (Local 1) = st"
  by (simp_all add: two_def)

lemma two_idle: "Stopping \<le> statuses (two Stopping Idle Idle s) (Local 1)" "\<not> stops (threads (two Stopping Idle Idle s) t) a"
  by (simp_all add: two_def)

lemma two_go:
  "go 0 th s1 (two st t0 t1 s) = two st th t1 s1" "go 2 th s1 (two st t0 t1 s) = two st t0 th s1"
  by (simp_all add: two_def go_def fun_upd_twist)

lemma two_status: "(two st t0 t1 s)\<lparr>statuses := (statuses (two st t0 t1 s))(Local 1 := st1)\<rparr> = two st1 t0 t1 s"
  by (simp add: two_def)

lemma two_free: "holds_entry t0 \<noteq> Some k \<Longrightarrow> holds_entry t1 \<noteq> Some k \<Longrightarrow> entry_free (two st t0 t1 s) k"
  by (simp add: entry_free_def two_def)

lemma two_init: "race_init = two Unstarted Idle Idle pg_new"
  by (simp add: two_def race_init_def fun_upd_idem)

lemma ex_pg_relations:
  "group_at pg_new ex_key = no_group" "relations_at ex_pg_0 (Local 1) = no_relations"
  "hm_get (relations ex_pg_1) (Local 1) = Some (no_relations\<lparr>memberships := [ex_key]\<rparr>)"
  by (simp_all add: ex_pg_1_def ex_pg_0_def put_relations_def put_group_def pg_new_def relations_at_def group_at_def)

lemma ex_visit: "join_visit Unstarted ex_key (Local 1) (join_start, ex_pg_0) = (ex_loop, ex_pg_1)"
  by (simp add: join_visit_def join_start_def ex_loop_def ex_pg_1_def ex_pg_relations Let_def hs_insert_def status_compare)

lemma ex_take:
  "take_monitors (Local 1) ex_pg_1 = (([], []), ex_pg_m)" "take_memberships (Local 1) ex_pg_m = ([ex_key], ex_pg_2)"
  by (simp_all add: ex_pg_m_def ex_pg_2_def take_monitors_def take_memberships_def ex_pg_relations put_relations_def)

lemma ex_race_run: "race_run ex_race"
proof -
  note [simp] = two_sel two_free
  have "race_run (two Unstarted Idle Idle pg_new)" using race_start by (simp add: two_init)
  from race_next [OF this join_begin [where t = 0 and k = ex_key and actors = "[Local 1]"]]
  have "race_run (two Unstarted (Joining ex_key [Local 1] [Local 1] join_start) Idle ex_pg_0)"
    by (simp add: two_go ex_pg_relations ex_pg_0_def)
  from race_next [OF this join_next [where t = 0], OF two_sel(1)]
  have "race_run (two Unstarted (Joining ex_key [] [Local 1] ex_loop) Idle ex_pg_1)"
    by (simp add: two_go ex_visit)
  from race_next [OF this stop_begin [where t = 2 and a = "Local 1" and st = Stopping]]
  have "race_run (two Stopping (Joining ex_key [] [Local 1] ex_loop) (StopMonitors (Local 1)) ex_pg_1)"
    by (simp add: two_status two_go status_compare)
  from race_next [OF this stop_take_monitors [where t = 2], OF two_sel(2)]
  have "race_run (two Stopping (Joining ex_key [] [Local 1] ex_loop) (Demonitoring (Local 1) [] []) ex_pg_m)"
    by (simp add: two_go ex_take(1))
  from race_next [OF this stop_monitors_end [where t = 2], OF two_sel(2)]
  have "race_run (two Stopping (Joining ex_key [] [Local 1] ex_loop) (StopGroups (Local 1)) ex_pg_m)"
    by (simp add: two_go)
  from race_next [OF this stop_take_groups [where t = 2], OF two_sel(2)]
  have "race_run (two Stopping (Joining ex_key [] [Local 1] ex_loop) (Leaving (Local 1) [ex_key]) ex_pg_2)"
    by (simp add: two_go ex_take(2))
  from race_next [OF this join_end [where t = 0, OF two_sel(1) refl]]
  have "race_run (two Stopping (Sweeping ex_key [] False) (Leaving (Local 1) [ex_key]) ex_pg_3)"
    by (simp add: two_go ex_loop_def ex_pg_3_def)
  from race_next [OF this sweep_end [where t = 0, OF two_sel(1)]]
  have "race_run (two Stopping Idle (Leaving (Local 1) [ex_key]) ex_pg_3)" by (simp add: two_go)
  from race_next [OF this stop_group [where t = 2, OF two_sel(2)]]
  have "race_run (two Stopping Idle (Leaving (Local 1) []) (fst (leave_key (Local 1) ex_key ex_pg_3)))" by (simp add: two_go)
  from race_next [OF this stop_end [where t = 2, OF two_sel(2)]]
  show ?thesis by (simp add: two_go ex_race_def)
qed

lemma ex_joined: "Local 1 \<in> set (get_scoped_members DEFAULT_SCOPE ''g'' ex_pg_3)"
  by (simp add: get_scoped_members_at ex_key_def [symmetric] ex_pg_3_def join_commit_def Let_def)

theorem shutdown_races_witness:
  "Local 1 \<in> set (get_scoped_members DEFAULT_SCOPE ''g'' ex_pg_3) \<and>
   Local 1 \<notin> set (get_scoped_members DEFAULT_SCOPE ''g'' (pg ex_race)) \<and> \<not> watches (Local 1) ex_key (pg ex_race)"
  using shutdown_races [OF ex_race_run, of "Local 1" DEFAULT_SCOPE "''g''" ex_key] ex_joined
    two_idle [of "pg ex_race"] by (simp add: ex_race_def two_sel)

end
