(* ===== verification/Spec2Isabelle.thy ===== *)
theory Spec2Isabelle
  imports Factory_Properties Actor_Admission Actor_Registry Process_Groups_Races
begin

text \<open>
  A verification of \<open>ractor\<close>, an actor framework in the style of Erlang.

  \<^bold>\<open>The program.\<close> Actors exchange typed messages (\<open>message.rs\<close>, \<open>actor/messages.rs\<close>) that are
  boxed for the mailbox or serialized for another node (\<open>serialization.rs\<close>). A factory
  (\<open>factory/\<close>) is an actor that runs a pool of worker actors: jobs (\<open>job.rs\<close>) come in, a router
  (\<open>routing.rs\<close>, \<open>ratelim.rs\<close>) picks a worker or says that the job has to wait, a queue
  (\<open>queues.rs\<close>) holds the waiting jobs, and a record per worker (\<open>worker.rs\<close>) holds the jobs given
  to it. The factory (\<open>factoryimpl.rs\<close>) resizes and restarts the pool, sheds load
  (\<open>discard.rs\<close>), drains, and watches for stuck workers. The status and the mailbox of an actor
  are shared words that senders, drainers and the actor itself race on
  (\<open>actor/actor_properties.rs\<close>). Actors are found by name and by pid (\<open>registry.rs\<close>) and through
  process groups (\<open>pg.rs\<close>), whose monitors are told of every change.

  \<^bold>\<open>How the code is modelled.\<close> A struct is a record, an enum a datatype, a \<open>HashMap\<close> an association
  list with distinct keys (\<open>hm_get\<close>, \<open>hm_insert\<close>, \<open>hm_remove\<close>), a \<open>VecDeque\<close> a list; \<open>u64\<close> and
  its like are words, \<open>usize\<close> is \<open>nat\<close> with the saturating operations of the source written out,
  times are nanoseconds. A handler is a function from the state to the new state and the list of
  its effects (messages sent, replies, statistics, actors stopped), in the order of the calls, or
  to a fault. What a handler learns from outside (the clock, whether a send succeeds, what a user
  callback answers, the hash of a key) is an argument: the record \<open>env\<close>. A trait is a record of
  functions, and its contract is a locale; every implementation in the source is an
  interpretation.

  \<^bold>\<open>Theories.\<close>
  \<^item> \<open>Ractor_Prelude\<close>: hash maps, saturating arithmetic, big-endian numbers, results.
  \<^item> \<open>Actor_Id\<close>: identifiers, their printed form (injective) and their allocator (distinct ids).
  \<^item> \<open>Serialization\<close>: \<open>BytesConvertable\<close> as the locale \<open>bytes_convertable\<close> (decoding inverts
    encoding), for numbers, \<open>bool\<close>, \<open>char\<close>, \<open>()\<close> and vectors.
  \<^item> \<open>Actor_Messages\<close>: \<open>Message\<close> as the locale \<open>message_type\<close>, both transports; errors.
  \<^item> \<open>Factory_Discard\<close>, \<open>Factory_Job\<close>: discard settings; jobs, their time to live, their byte
    form (round trip), accept/reject and retriable messages (at most as many resubmissions as
    configured).
  \<^item> \<open>Factory_Worker\<close>: \<open>WorkerProperties\<close>, each operation of it, and sequences of operations as
    \<open>worker_run\<close>: per-key counters are exact, no job is lost, order is kept, queues are bounded.
  \<^item> \<open>Factory_Queues\<close>: the trait \<open>Queue\<close> as the locale \<open>job_queue\<close>; both queues; the priority
    queue sorts stably.
  \<^item> \<open>Factory_Routing\<close>: the trait \<open>Router\<close> as the locale \<open>router\<close>, routers that keep a list of
    free workers as \<open>tracking_router\<close>; the five routers.
  \<^item> \<open>Factory_Ratelim\<close>: the rate-limited router (a \<open>router\<close> again, by \<open>sublocale\<close>) and the leaky
    bucket (polling does not change it; a bound on what passes).
  \<^item> \<open>Factory_Core\<close>: the factory's state and every handler of the factory actor.
  \<^item> \<open>Factory_Moves\<close>: each handler is a sequence of moves, for every router and queue that meets
    its contract (locale \<open>factory_parts\<close>).
  \<^item> \<open>Factory_Facts\<close>: runs of a factory and the invariants of moves.
  \<^item> \<open>Factory_Properties\<close>: what follows for every run of a factory: consistency, conservation of
    jobs, absence of panics, draining, the bound of the queue, exclusive keys.
  \<^item> \<open>Actor_Status\<close>: \<open>ActorStatus\<close> as a linear order, the status word (it only grows).
  \<^item> \<open>Actor_Admission\<close>: the admission word of a mailbox. A call of \<open>send_message\<close> or \<open>drain\<close> is a
    program of atomic accesses (\<open>task_step\<close>) and any number of calls interleave: one marker, after
    exactly the accepted messages.
  \<^item> \<open>Actor_Registry\<close>: the registries of names and of pids; a listener's view of the pids is exact.
  \<^item> \<open>Process_Groups\<close>: groups, scope index, monitors and the reverse index; every operation keeps
    them consistent, and a monitor's view of its group is exact.
  \<^item> \<open>Process_Groups_Races\<close>: the same operations split at their locks, run by any number of threads
    (\<open>race_step\<close>): nothing that races with the shutdown of an actor leaves it in a group.

  \<^bold>\<open>Bounds and fuel.\<close> Loops of the source that run while a queue gives jobs take the length of the
  queue as fuel. Each turn takes a job out, so it is enough: \<open>routing_terminates\<close> shows that more
  fuel gives the same outcome; the contract \<open>job_queue\<close> gives it for the other loops.

  \<^bold>\<open>Not modelled.\<close> The async runtimes under \<open>concurrency/\<close> and the channels and timers they provide
  (third-party code); the wrappers around them in \<open>port/\<close>, \<open>rpc/\<close> and \<open>time.rs\<close>; the process
  loop and the supervision tree of actors; \<open>ractor_cluster\<close>; the macro crates, which generate code
  at compile time over the syntax trees of third-party crates; log messages.
\<close>

end
